(* ===== verification/TOI_Prelude.thy ===== *)
theory TOI_Prelude
  imports Main "HOL-Library.Word" "HOL-Library.Monad_Syntax"
begin

text \<open>
  Shared vocabulary of the development: the C types the TuxOnIce sources use, the constants
  of the build that is modelled (64-bit \<open>unsigned long\<close>, 32-bit \<open>int\<close>, 4096-byte
  pages, little endian), the kernel's error numbers, the byte layout of integers, and the list
  and word lemmas that several components need.

  Conventions used by every theory:
  \<^item> an \<open>unsigned long\<close> is a \<open>64 word\<close>; an \<open>int\<close> or \<open>long\<close> is an \<open>int\<close>
    of HOL, and \<open>s32\<close> is written where the code stores a wider value into an \<open>int\<close>;
  \<^item> a routine that returns an error code returns an \<open>int\<close>: 0 is success, \<open>- ENOMEM\<close>
    and its kin are the kernel's negative error numbers;
  \<^item> a \<open>BUG()\<close>, \<open>panic()\<close> or a dereference of a null pointer is the value \<open>None\<close>.
\<close>

section \<open>Types and constants\<close>

type_synonym ulong = "64 word"
type_synonym byte = "8 word"
type_synonym page = "byte list"

abbreviation (input) PAGE_SHIFT :: nat where "PAGE_SHIFT \<equiv> 12"
abbreviation (input) PAGE_SIZE :: nat where "PAGE_SIZE \<equiv> 4096"
abbreviation (input) SIZEOF_LONG :: nat where "SIZEOF_LONG \<equiv> 8"
abbreviation (input) SIZEOF_INT :: nat where "SIZEOF_INT \<equiv> 4"

abbreviation (input) EPERM :: int where "EPERM \<equiv> 1"
abbreviation (input) EIO :: int where "EIO \<equiv> 5"
abbreviation (input) ECHILD :: int where "ECHILD \<equiv> 10"
abbreviation (input) ENOMEM :: int where "ENOMEM \<equiv> 12"
abbreviation (input) EFAULT :: int where "EFAULT \<equiv> 14"
abbreviation (input) EBUSY :: int where "EBUSY \<equiv> 16"
abbreviation (input) ENODEV :: int where "ENODEV \<equiv> 19"
abbreviation (input) EINVAL :: int where "EINVAL \<equiv> 22"
abbreviation (input) ENOSPC :: int where "ENOSPC \<equiv> 28"
abbreviation (input) ENODATA :: int where "ENODATA \<equiv> 61"

text \<open>
  \<open>s32 x\<close> is what an \<open>int\<close> holds after \<open>x\<close> was stored in it: the low 32 bits of
  \<open>x\<close>, read as two's complement.
\<close>

definition s32 :: "int \<Rightarrow> int" where
  "s32 x = (x + 2 ^ 31) mod 2 ^ 32 - 2 ^ 31"

text \<open>The kernel macro \<open>DIV_ROUND_UP(n, d)\<close>, on values for which no operation overflows.\<close>

definition DIV_ROUND_UP :: "nat \<Rightarrow> nat \<Rightarrow> nat" where
  "DIV_ROUND_UP n d = (n + d - 1) div d"

named_theorems toi_simps "equations the component proofs rewrite with"
named_theorems toi_inv "preservation lemmas of the component invariants"

section \<open>Integers that fit\<close>

lemma s32_id [simp]: "- (2 ^ 31) \<le> x \<Longrightarrow> x < 2 ^ 31 \<Longrightarrow> s32 x = x"
  by (simp add: s32_def)

lemma s32_bounds: "- (2 ^ 31) \<le> s32 x \<and> s32 x < 2 ^ 31"
  by (simp add: s32_def)

lemma s32_idem [simp]: "s32 (s32 x) = s32 x"
  using s32_bounds [of x] by simp

lemma s32_mod: "s32 x mod 2 ^ 32 = x mod 2 ^ 32"
  by (simp add: s32_def mod_diff_left_eq)

lemma s32_cong: "x mod 2 ^ 32 = y mod 2 ^ 32 \<Longrightarrow> s32 x = s32 y"
  unfolding s32_def by (metis mod_add_cong)

lemma s32_add_left: "s32 (s32 x + y) = s32 (x + y)"
  by (rule s32_cong) (metis mod_add_left_eq s32_mod)

lemma DIV_ROUND_UP_ge: "0 < d \<Longrightarrow> n \<le> DIV_ROUND_UP n d * d"
proof -
  assume d: "0 < d"
  have "(n + d - 1) div d * d + (n + d - 1) mod d = n + d - 1"
    by simp
  moreover have "(n + d - 1) mod d < d"
    using d by simp
  ultimately show ?thesis
    using d unfolding DIV_ROUND_UP_def by linarith
qed

lemma DIV_ROUND_UP_less: "0 < d \<Longrightarrow> 0 < n \<Longrightarrow> (DIV_ROUND_UP n d - 1) * d < n"
proof -
  assume d: "0 < d" and n: "0 < n"
  have "DIV_ROUND_UP n d * d \<le> n + d - 1"
    by (simp add: DIV_ROUND_UP_def)
  with d n show ?thesis
    by (simp add: diff_mult_distrib)
qed

section \<open>Bytes of integers\<close>

text \<open>Little-endian layout of an unsigned value in \<open>n\<close> bytes, and reading it back.\<close>

fun le_bytes :: "nat \<Rightarrow> nat \<Rightarrow> byte list" where
  "le_bytes 0 x = []"
| "le_bytes (Suc n) x = of_nat (x mod 256) # le_bytes n (x div 256)"

fun le_nat :: "byte list \<Rightarrow> nat" where
  "le_nat [] = 0"
| "le_nat (b # bs) = unat b + 256 * le_nat bs"

lemma length_le_bytes [simp]: "length (le_bytes n x) = n"
  by (induction n arbitrary: x) auto

lemma le_nat_le_bytes: "le_nat (le_bytes n x) = x mod 256 ^ n"
proof (induction n arbitrary: x)
  case 0
  then show ?case by simp
next
  case (Suc n)
  have "unat (of_nat (x mod 256) :: byte) = x mod 256"
    by (simp add: unat_of_nat)
  with Suc show ?case by (simp add: mod_mult2_eq add.commute)
qed

definition ulong_bytes :: "ulong \<Rightarrow> byte list" where
  "ulong_bytes w = le_bytes SIZEOF_LONG (unat w)"

definition bytes_ulong :: "byte list \<Rightarrow> ulong" where
  "bytes_ulong bs = of_nat (le_nat bs)"

definition int_bytes :: "int \<Rightarrow> byte list" where
  "int_bytes i = le_bytes SIZEOF_INT (nat (i mod 2 ^ 32))"

definition bytes_int :: "byte list \<Rightarrow> int" where
  "bytes_int bs = s32 (int (le_nat bs))"

lemma length_ulong_bytes [simp]: "length (ulong_bytes w) = 8"
  by (simp add: ulong_bytes_def)

lemma length_int_bytes [simp]: "length (int_bytes i) = 4"
  by (simp add: int_bytes_def)

lemma unat_ulong_less: "unat (w :: ulong) < 2 ^ 64"
  using unsigned_less [of w] by simp

lemma bytes_ulong_inverse [simp]: "bytes_ulong (ulong_bytes w) = w"
proof -
  have "unat w < 256 ^ 8"
    using unat_ulong_less [of w] by simp
  then have "le_nat (ulong_bytes w) = unat w"
    by (simp add: ulong_bytes_def le_nat_le_bytes)
  then show ?thesis by (simp add: bytes_ulong_def)
qed

lemma bytes_int_int_bytes [simp]: "bytes_int (int_bytes i) = s32 i"
proof -
  have "0 \<le> i mod 2 ^ 32" and "i mod 2 ^ 32 < 2 ^ 32"
    by simp_all
  then have "nat (i mod 2 ^ 32) < 256 ^ 4"
    by (subst nat_less_iff) simp_all
  then have "le_nat (int_bytes i) = nat (i mod 2 ^ 32)"
    unfolding int_bytes_def le_nat_le_bytes by (rule mod_less)
  then have "int (le_nat (int_bytes i)) = i mod 2 ^ 32"
    using \<open>0 \<le> i mod 2 ^ 32\<close> by linarith
  then show ?thesis
    unfolding bytes_int_def by (metis mod_mod_trivial s32_cong)
qed

section \<open>Words as naturals\<close>

lemma unat_plus_1: "(x :: ulong) < y \<Longrightarrow> unat (x + 1) = unat x + 1"
proof -
  assume "x < y"
  then have "unat x + 1 < 2 ^ 64"
    using unat_ulong_less [of y] by (simp add: word_less_nat_alt)
  then show ?thesis by (simp add: unat_word_ariths)
qed

lemma unat_minus_1: "(x :: ulong) \<noteq> 0 \<Longrightarrow> unat (x - 1) = unat x - 1"
  by (rule unat_minus_one)

lemma unat_eq_minus_1: "(0 :: ulong) < y \<Longrightarrow> x = y - 1 \<longleftrightarrow> unat x + 1 = unat y"
proof -
  assume "0 < y"
  then have "y \<noteq> 0" and "0 < unat y" by (auto simp: word_less_nat_alt)
  then show ?thesis by (auto simp: word_unat_eq_iff unat_minus_1)
qed

lemma unat_plus_1_eq: "(x :: ulong) < y \<Longrightarrow> x + 1 = y \<longleftrightarrow> unat x + 1 = unat y"
  by (simp add: word_unat_eq_iff unat_plus_1)

section \<open>Lists\<close>

lemma sorted_wrt_nth_mono:
  "sorted_wrt (\<lambda>x y. f x < f y) xs \<Longrightarrow> i < j \<Longrightarrow> j < length xs \<Longrightarrow> (f (xs ! i) :: 'a :: linorder) < f (xs ! j)"
  by (simp add: sorted_wrt_iff_nth_less)

lemma take_Suc_nth: "i < length xs \<Longrightarrow> take (Suc i) xs = take i xs @ [xs ! i]"
  by (rule take_Suc_conv_app_nth)

lemma drop_nth_split: "i < length xs \<Longrightarrow> drop i xs = xs ! i # drop (Suc i) xs"
  by (rule Cons_nth_drop_Suc [symmetric])

end
