(* ===== verification/TOI_State.thy ===== *)
theory TOI_State
  imports TOI_Prelude
begin

text \<open>
  The state bits every component reads: the action bits the user sets (\<open>toi_bkd.toi_action\<close>), the
  result bits of a cycle (\<open>toi_result\<close>) and the state of the core (\<open>toi_state\<close>). A word of
  bits is the set of the enumerators whose bit is set.
\<close>

datatype toi_action_bit =
    TOI_REBOOT | TOI_PAUSE | TOI_LOGALL | TOI_CAN_CANCEL | TOI_KEEP_IMAGE | TOI_FREEZER_TEST
  | TOI_SINGLESTEP | TOI_PAUSE_NEAR_PAGESET_END | TOI_TEST_FILTER_SPEED | TOI_TEST_BIO
  | TOI_NO_PAGESET2 | TOI_IGNORE_ROOTFS | TOI_REPLACE_SWSUSP | TOI_PAGESET2_FULL
  | TOI_ABORT_ON_RESAVE_NEEDED | TOI_NO_MULTITHREADED_IO | TOI_NO_DIRECT_LOAD
  | TOI_LATE_CPU_HOTPLUG | TOI_GET_MAX_MEM_ALLOCD | TOI_NO_FLUSHER_THREAD | TOI_NO_PS2_IF_UNNEEDED

datatype toi_result_bit =
    TOI_ABORTED | TOI_ABORT_REQUESTED | TOI_NOSTORAGE_AVAILABLE | TOI_INSUFFICIENT_STORAGE
  | TOI_FREEZING_FAILED | TOI_KEPT_IMAGE | TOI_WOULD_EAT_MEMORY | TOI_UNABLE_TO_FREE_ENOUGH_MEMORY
  | TOI_PM_SEM | TOI_DEVICE_REFUSED | TOI_SYSDEV_REFUSED | TOI_EXTRA_PAGES_ALLOW_TOO_SMALL
  | TOI_UNABLE_TO_PREPARE_IMAGE | TOI_FAILED_MODULE_INIT | TOI_FAILED_MODULE_CLEANUP
  | TOI_FAILED_IO | TOI_OUT_OF_MEMORY | TOI_IMAGE_ERROR | TOI_PLATFORM_PREP_FAILED
  | TOI_CPU_HOTPLUG_FAILED | TOI_ARCH_PREPARE_FAILED | TOI_RESAVE_NEEDED | TOI_CANT_SUSPEND
  | TOI_NOTIFIERS_PREPARE_FAILED | TOI_PRE_SNAPSHOT_FAILED | TOI_PRE_RESTORE_FAILED
  | TOI_USERMODE_HELPERS_ERR | TOI_CANT_USE_ALT_RESUME | TOI_HEADER_TOO_BIG

datatype toi_state_bit =
    TOI_CAN_HIBERNATE | TOI_CAN_RESUME | TOI_RESUME_DEVICE_OK | TOI_NORESUME_SPECIFIED
  | TOI_SANITY_CHECK_PROMPT | TOI_CONTINUE_REQ | TOI_RESUMED_BEFORE | TOI_BOOT_TIME
  | TOI_NOW_RESUMING | TOI_IGNORE_LOGLEVEL | TOI_TRYING_TO_RESUME | TOI_LOADING_ALT_IMAGE
  | TOI_STOP_RESUME | TOI_IO_STOPPED | TOI_NOTIFIERS_PREPARE | TOI_CLUSTER_MODE | TOI_BOOT_KERNEL

text \<open>\<open>set_abort_result\<close>, which is also what \<open>abort_hibernate\<close> does without a user interface.\<close>

definition set_abort_result :: "toi_result_bit \<Rightarrow> toi_result_bit set \<Rightarrow> toi_result_bit set" where
  "set_abort_result b rs = insert b (insert TOI_ABORTED rs)"

lemma set_abort_result_aborted [simp]: "TOI_ABORTED \<in> set_abort_result b rs"
  by (simp add: set_abort_result_def)

end
