(* ===== verification/TOI_Extent.thy ===== *)
theory TOI_Extent
  imports TOI_Prelude
begin

text \<open>
  Extent chains (\<open>tuxonice_extent.c\<close>, \<open>tuxonice_extent.h\<close>): the metadata that records
  which blocks of which device hold the image.

  A chain is a singly linked list of closed intervals. The list reached from \<open>first\<close> through
  \<open>next\<close> is the field \<open>extents\<close>, in that order; a pointer into it (\<open>last_touched\<close>,
  \<open>current_extent\<close>) is the position it points to, and \<open>NULL\<close> is \<open>None\<close>. The array of
  chains an iterator walks and its length (\<open>chains\<close>, \<open>num_chains\<close>) are one list.

  The lemmas show that insertion keeps the chain sorted and disjoint and adds exactly the new
  values whatever \<open>last_touched\<close> points to, that the iterator visits every block once and in
  order, that a saved position is restored exactly, and that a chain survives the image header.
\<close>

section \<open>Data\<close>

record hibernate_extent =
  ext_start :: ulong
  ext_end :: ulong

record hibernate_extent_chain =
  chain_size :: int
  num_extents :: int
  extents :: "hibernate_extent list"
  last_touched :: "nat option"

record toi_extent_iterate_state =
  chains :: "hibernate_extent_chain list"
  current_chain :: int
  current_extent :: "nat option"
  current_offset :: ulong

record hibernate_extent_iterate_saved_state =
  chain_num :: int
  extent_num :: int
  saved_offset :: ulong

definition num_chains :: "toi_extent_iterate_state \<Rightarrow> int" where
  "num_chains st = int (length (chains st))"

definition toi_extent_state_eof :: "toi_extent_iterate_state \<Rightarrow> bool" where
  "toi_extent_state_eof st \<longleftrightarrow> num_chains st = current_chain st"

text \<open>A chain as the loader zero-initialises it.\<close>

definition empty_chain :: hibernate_extent_chain where
  "empty_chain = \<lparr>chain_size = 0, num_extents = 0, extents = [], last_touched = None\<rparr>"

section \<open>Operations on a chain\<close>

text \<open>
  \<open>toi_put_extent_chain\<close>: every extent of the list is freed and counted off, then the
  pointers and the size are reset.
\<close>

definition toi_put_extent_chain :: "hibernate_extent_chain \<Rightarrow> hibernate_extent_chain" where
  "toi_put_extent_chain c =
     c\<lparr>num_extents := num_extents c - int (length (extents c)),
       extents := [], last_touched := None, chain_size := 0\<rparr>"

text \<open>
  The search loop of \<open>toi_add_to_extent_chain\<close>:
  \<^verbatim>\<open>while (cur_ext->next && cur_ext->next->start < start) cur_ext = cur_ext->next;\<close>
\<close>

function seek_extent :: "hibernate_extent list \<Rightarrow> ulong \<Rightarrow> nat \<Rightarrow> nat" where
  "seek_extent xs start i =
     (if Suc i < length xs \<and> ext_start (xs ! Suc i) < start
      then seek_extent xs start (Suc i) else i)"
  by pat_completeness auto
termination
  by (relation "measure (\<lambda>(xs, start, i). length xs - i)") auto

declare seek_extent.simps [simp del]

text \<open>Where the search starts: \<open>last_touched\<close> if it is before the new extent, else \<open>first\<close>.\<close>

definition find_cur_ext :: "hibernate_extent_chain \<Rightarrow> ulong \<Rightarrow> nat option" where
  "find_cur_ext c start =
     (let xs = extents c;
          from_first = (if xs \<noteq> [] \<and> ext_start (xs ! 0) < start then Some 0 else None)
      in map_option (seek_extent xs start)
           (case last_touched c of
              Some i \<Rightarrow> (if ext_start (xs ! i) < start then Some i else from_first)
            | None \<Rightarrow> from_first))"

text \<open>
  \<open>toi_add_to_extent_chain\<close>. The flag \<open>got_ext\<close> is the outcome of
  \<open>toi_get_extent\<close> (an atomic allocation that may fail). The result is the return
  code and the chain.
\<close>

definition toi_add_to_extent_chain ::
    "bool \<Rightarrow> hibernate_extent_chain \<Rightarrow> ulong \<Rightarrow> ulong \<Rightarrow> int \<times> hibernate_extent_chain" where
  "toi_add_to_extent_chain got_ext c start end =
     (let xs = extents c;
          cur = find_cur_ext c start;
          new_size = s32 (chain_size c + uint (end - start + 1));
          new_ext = \<lparr>ext_start = start, ext_end = end\<rparr>
      in case cur of
           Some i \<Rightarrow>
             if ext_end (xs ! i) = start - 1 then
               (if Suc i < length xs \<and> end + 1 = ext_start (xs ! Suc i)
                then (0, c\<lparr>extents := take i xs @
                             [(xs ! i)\<lparr>ext_end := ext_end (xs ! Suc i)\<rparr>] @ drop (Suc (Suc i)) xs,
                           num_extents := num_extents c - 1,
                           last_touched := Some i, chain_size := new_size\<rparr>)
                else (0, c\<lparr>extents := xs[i := (xs ! i)\<lparr>ext_end := end\<rparr>],
                           last_touched := Some i, chain_size := new_size\<rparr>))
             else if \<not> got_ext then (- ENOMEM, c)
             else (0, c\<lparr>extents := take (Suc i) xs @ [new_ext] @ drop (Suc i) xs,
                        num_extents := num_extents c + 1,
                        last_touched := Some (Suc i), chain_size := new_size\<rparr>)
         | None \<Rightarrow>
             if \<not> got_ext then (- ENOMEM, c)
             else (0, c\<lparr>extents := new_ext # xs,
                        num_extents := num_extents c + 1,
                        last_touched := Some 0, chain_size := new_size\<rparr>))"

text \<open>
  The macro \<open>toi_extent_for_each\<close>, as the list of the values its body sees. The first
  argument is the list from \<open>extentpointer\<close> on.
\<close>

function for_each_from :: "hibernate_extent list \<Rightarrow> ulong \<Rightarrow> ulong list" where
  "for_each_from [] val = []"
| "for_each_from (e # es) val =
     (if es \<noteq> [] \<or> val \<le> ext_end e
      then val #
        (if val = ext_end e
         then for_each_from es (if es = [] then 0 else ext_start (hd es))
         else for_each_from (e # es) (val + 1))
      else [])"
  by pat_completeness auto
termination
proof (relation "measures [\<lambda>(es, val). length es, \<lambda>(es, val). unat (ext_end (hd es) - val)]", goal_cases)
  case (3 e es val)
  then have "ext_end e - val \<noteq> 0" by simp
  then have "unat (ext_end e - val - 1) < unat (ext_end e - val)"
    by (simp add: unat_minus_one word_less_nat_alt unat_gt_0)
  then show ?case by (simp add: diff_diff_eq)
qed auto

declare for_each_from.simps [simp del]

definition toi_extent_for_each :: "hibernate_extent_chain \<Rightarrow> ulong list" where
  "toi_extent_for_each c =
     (if extents c \<noteq> [] then for_each_from (extents c) (ext_start (hd (extents c))) else [])"


section \<open>The iterator\<close>

text \<open>
  The loop at the end of \<open>toi_extent_state_next\<close>: go to the next chain that has an extent.
  \<open>None\<close> is a read outside the array of chains.
\<close>

function next_chain :: "toi_extent_iterate_state \<Rightarrow> (ulong \<times> toi_extent_iterate_state) option" where
  "next_chain st =
     (let n = current_chain st + 1; st' = st\<lparr>current_chain := n\<rparr>
      in if n = num_chains st then Some (0, st')
         else if n < 0 \<or> num_chains st < n then None
         else case extents (chains st ! nat n) of
                [] \<Rightarrow> next_chain st'
              | e # es \<Rightarrow>
                  Some (ext_start e, st'\<lparr>current_extent := Some 0, current_offset := ext_start e\<rparr>))"
  by pat_completeness auto
termination
  by (relation "measure (\<lambda>st. nat (num_chains st - current_chain st))") (auto simp: num_chains_def)

declare next_chain.simps [simp del]

definition cur_extents :: "toi_extent_iterate_state \<Rightarrow> hibernate_extent list" where
  "cur_extents st =
     (if 0 \<le> current_chain st \<and> current_chain st < num_chains st
      then extents (chains st ! nat (current_chain st)) else [])"

definition toi_extent_state_next ::
    "toi_extent_iterate_state \<Rightarrow> (ulong \<times> toi_extent_iterate_state) option" where
  "toi_extent_state_next st =
     (if current_chain st = num_chains st then Some (0, st)
      else case current_extent st of
             None \<Rightarrow> next_chain st
           | Some i \<Rightarrow>
               let xs = cur_extents st in
               if length xs \<le> i then None
               else if current_offset st = ext_end (xs ! i) then
                 (if Suc i < length xs
                  then Some (ext_start (xs ! Suc i),
                         st\<lparr>current_extent := Some (Suc i), current_offset := ext_start (xs ! Suc i)\<rparr>)
                  else next_chain (st\<lparr>current_extent := None, current_offset := 0\<rparr>))
               else Some (current_offset st + 1, st\<lparr>current_offset := current_offset st + 1\<rparr>))"

definition toi_extent_state_goto_start :: "toi_extent_iterate_state \<Rightarrow> toi_extent_iterate_state" where
  "toi_extent_state_goto_start st = st\<lparr>current_chain := -1, current_extent := None, current_offset := 0\<rparr>"

text \<open>The pointer one reaches at a position of a list: \<open>NULL\<close> after the last extent.\<close>

definition ext_ptr :: "hibernate_extent list \<Rightarrow> nat \<Rightarrow> nat option" where
  "ext_ptr xs pos = (if pos < length xs then Some pos else None)"

text \<open>
  The loop of \<open>toi_extent_state_save\<close>: follow \<open>next\<close> until the current extent is found;
  \<open>None\<close> is the dereference of the null pointer at the end of the list.
\<close>

function save_loop :: "hibernate_extent list \<Rightarrow> nat option \<Rightarrow> nat \<Rightarrow> nat option" where
  "save_loop xs cur pos =
     (if ext_ptr xs pos = cur then Some pos
      else if pos < length xs then save_loop xs cur (Suc pos) else None)"
  by pat_completeness auto
termination
  by (relation "measure (\<lambda>(xs, cur, pos). length xs - pos)") auto

declare save_loop.simps [simp del]

definition toi_extent_state_save ::
    "toi_extent_iterate_state \<Rightarrow> hibernate_extent_iterate_saved_state option" where
  "toi_extent_state_save st =
     (let saved = \<lparr>chain_num = current_chain st, extent_num = 0, saved_offset = current_offset st\<rparr>
      in if current_chain st = -1 then Some saved
         else if current_chain st < 0 \<or> num_chains st \<le> current_chain st then None
         else map_option (\<lambda>n. saved\<lparr>extent_num := int n\<rparr>)
                (save_loop (cur_extents st) (current_extent st) 0))"

text \<open>The loop of \<open>toi_extent_state_restore\<close>: \<open>posn\<close> times \<open>next\<close>.\<close>

fun restore_loop :: "hibernate_extent list \<Rightarrow> nat \<Rightarrow> nat option \<Rightarrow> nat option option" where
  "restore_loop xs 0 cur = Some cur"
| "restore_loop xs (Suc posn) None = None"
| "restore_loop xs (Suc posn) (Some i) = restore_loop xs posn (ext_ptr xs (Suc i))"

definition toi_extent_state_restore ::
    "toi_extent_iterate_state \<Rightarrow> hibernate_extent_iterate_saved_state \<Rightarrow>
     toi_extent_iterate_state option" where
  "toi_extent_state_restore st saved =
     (if chain_num saved = -1 then Some (toi_extent_state_goto_start st)
      else if chain_num saved < 0 \<or> num_chains st \<le> chain_num saved \<or> extent_num saved < 0 then None
      else let xs = extents (chains st ! nat (chain_num saved))
           in map_option
                (\<lambda>cur. st\<lparr>current_chain := chain_num saved, current_extent := cur,
                          current_offset := saved_offset saved\<rparr>)
                (restore_loop xs (nat (extent_num saved)) (ext_ptr xs 0)))"

section \<open>Chains in the image header\<close>

text \<open>
  \<open>rw_header_chunk\<close> of the active allocator is the argument \<open>wr\<close>, applied to the allocator's
  state and to the bytes; \<open>rw_header_chunk_noreadahead\<close> is \<open>rd\<close>, applied to the state and to
  the number of bytes wanted. Both return an error code first; \<open>None\<close> is a kernel bug on the way.
\<close>

type_synonym 's header_writer = "'s \<Rightarrow> byte list \<Rightarrow> (int \<times> 's) option"
type_synonym 's header_reader = "'s \<Rightarrow> nat \<Rightarrow> (int \<times> byte list \<times> 's) option"

definition extent_bytes :: "hibernate_extent \<Rightarrow> byte list" where
  "extent_bytes e = ulong_bytes (ext_start e) @ ulong_bytes (ext_end e)"

definition bytes_extent :: "byte list \<Rightarrow> hibernate_extent" where
  "bytes_extent bs = \<lparr>ext_start = bytes_ulong (take SIZEOF_LONG bs),
                      ext_end = bytes_ulong (drop SIZEOF_LONG bs)\<rparr>"

fun serialise_extents :: "'s header_writer \<Rightarrow> hibernate_extent list \<Rightarrow> 's \<Rightarrow> (int \<times> 's) option" where
  "serialise_extents wr [] s = Some (0, s)"
| "serialise_extents wr (e # es) s = do {
     (ret, s1) \<leftarrow> wr s (extent_bytes e);
     if ret \<noteq> 0 then Some (ret, s1) else serialise_extents wr es s1
   }"

definition toi_serialise_extent_chain ::
    "'s header_writer \<Rightarrow> hibernate_extent_chain \<Rightarrow> 's \<Rightarrow> (int \<times> 's) option" where
  "toi_serialise_extent_chain wr c s = do {
     (ret, s1) \<leftarrow> wr s (int_bytes (chain_size c) @ int_bytes (num_extents c));
     if ret \<noteq> 0 then Some (ret, s1)
     else do {
       (ret, s2) \<leftarrow> serialise_extents wr (extents c) s1;
       if ret \<noteq> 0 then Some (ret, s2)
       else if int (length (extents c)) \<noteq> num_extents c then Some (1, s2) else Some (0, s2)
     }
   }"

text \<open>
  The loop of \<open>toi_load_extent_chain\<close>: \<open>n\<close> extents are still to come, \<open>i\<close> were read. The
  flag \<open>got i\<close> is the outcome of the i-th allocation. The list returned is what was linked.
\<close>

fun load_extents ::
    "'s header_reader \<Rightarrow> (nat \<Rightarrow> bool) \<Rightarrow> nat \<Rightarrow> nat \<Rightarrow> 's \<Rightarrow>
     (int \<times> hibernate_extent list \<times> 's) option" where
  "load_extents rd got i 0 s = Some (0, [], s)"
| "load_extents rd got i (Suc n) s =
     (if \<not> got i then Some (- ENOMEM, [], s)
      else do {
        (ret, bs, s1) \<leftarrow> rd s (2 * SIZEOF_LONG);
        if ret \<noteq> 0 then Some (1, [], s1)
        else do {
          (ret, es, s2) \<leftarrow> load_extents rd got (Suc i) n s1;
          Some (ret, bytes_extent bs # es, s2)
        }
      })"

text \<open>
  \<open>chain->first\<close> is assigned with the first extent read, so it keeps its value when none is;
  \<open>last_touched\<close> is never assigned. What a failed read leaves in \<open>size\<close> and
  \<open>num_extents\<close> is not modelled: the caller gives up on an error.
\<close>

definition toi_load_extent_chain ::
    "'s header_reader \<Rightarrow> (nat \<Rightarrow> bool) \<Rightarrow> hibernate_extent_chain \<Rightarrow> 's \<Rightarrow>
     (int \<times> hibernate_extent_chain \<times> 's) option" where
  "toi_load_extent_chain rd got c s = do {
     (ret, bs, s1) \<leftarrow> rd s (2 * SIZEOF_INT);
     if ret \<noteq> 0 then Some (1, c, s1)
     else do {
       let c1 = c\<lparr>chain_size := bytes_int (take SIZEOF_INT bs),
                  num_extents := bytes_int (drop SIZEOF_INT bs)\<rparr>;
       (ret, es, s2) \<leftarrow> load_extents rd got 0 (nat (num_extents c1)) s1;
       Some (ret, (if es = [] then c1 else c1\<lparr>extents := es\<rparr>), s2)
     }
   }"

section \<open>Well-formed chains\<close>

text \<open>The values of an extent and of a list of extents, in order, as naturals.\<close>

definition ext_vals :: "hibernate_extent \<Rightarrow> nat list" where
  "ext_vals e = [unat (ext_start e) ..< Suc (unat (ext_end e))]"

definition ext_list :: "hibernate_extent list \<Rightarrow> nat list" where
  "ext_list xs = concat (map ext_vals xs)"

text \<open>Intervals are not empty, and each one ends before the next one starts.\<close>

definition wf_extents :: "hibernate_extent list \<Rightarrow> bool" where
  "wf_extents xs \<longleftrightarrow> (\<forall>e \<in> set xs. ext_start e \<le> ext_end e) \<and>
     sorted_wrt (\<lambda>a b. ext_end a < ext_start b) xs"

text \<open>
  The counters agree with the list (\<open>size\<close> as far as an \<open>int\<close> can hold it) and
  \<open>last_touched\<close> points into it.
\<close>

definition wf_chain :: "hibernate_extent_chain \<Rightarrow> bool" where
  "wf_chain c \<longleftrightarrow> wf_extents (extents c) \<and>
     num_extents c = int (length (extents c)) \<and>
     chain_size c = s32 (int (length (ext_list (extents c)))) \<and>
     (\<forall>i. last_touched c = Some i \<longrightarrow> i < length (extents c))"

lemma ext_list_simps [simp]:
  "ext_list [] = []"
  "ext_list (e # es) = ext_vals e @ ext_list es"
  "ext_list (xs @ ys) = ext_list xs @ ext_list ys"
  by (simp_all add: ext_list_def)

lemma set_ext_vals [simp]: "set (ext_vals e) = {unat (ext_start e) .. unat (ext_end e)}"
  by (auto simp: ext_vals_def)

lemma length_ext_vals:
  "ext_start e \<le> ext_end e \<Longrightarrow> int (length (ext_vals e)) = uint (ext_end e - ext_start e) + 1"
proof -
  assume le: "ext_start e \<le> ext_end e"
  then have "unat (ext_end e - ext_start e) = unat (ext_end e) - unat (ext_start e)"
    by (rule unat_sub)
  moreover have "int (unat (ext_end e - ext_start e)) = uint (ext_end e - ext_start e)"
    by simp
  moreover have "unat (ext_start e) \<le> unat (ext_end e)"
    using le by (simp add: word_le_nat_alt)
  ultimately show ?thesis by (simp add: ext_vals_def del: upt_Suc)
qed

lemma upt_append: "i \<le> j \<Longrightarrow> j \<le> k \<Longrightarrow> [i ..< j] @ [j ..< k] = [i ..< k]"
  by (metis le_Suc_ex upt_add_eq_append)

lemma wf_extents_append:
  "wf_extents (xs @ ys) \<longleftrightarrow> wf_extents xs \<and> wf_extents ys \<and>
     (\<forall>a \<in> set xs. \<forall>b \<in> set ys. ext_end a < ext_start b)"
  by (auto simp: wf_extents_def sorted_wrt_append)

lemma wf_extents_Cons:
  "wf_extents (x # xs) \<longleftrightarrow> ext_start x \<le> ext_end x \<and> wf_extents xs \<and>
     (\<forall>b \<in> set xs. ext_end x < ext_start b)"
  by (auto simp: wf_extents_def)

lemma wf_extents_Nil [simp]: "wf_extents []"
  by (simp add: wf_extents_def)

lemma wf_extents_starts:
  assumes "wf_extents xs"
  shows "sorted_wrt (\<lambda>a b. ext_start a < ext_start b) xs"
  using assms
proof (induction xs)
  case (Cons x xs)
  then show ?case
    by (auto simp: wf_extents_Cons intro: order_le_less_trans)
qed simp

lemma wf_extents_sorted: "wf_extents xs \<Longrightarrow> sorted_wrt (<) (ext_list xs)"
proof (induction xs)
  case (Cons x xs)
  have *: "i < j" if "i \<in> set (ext_vals x)" and "j \<in> set (ext_list xs)" for i j
  proof -
    from that(2) obtain b where b: "b \<in> set xs" and j: "unat (ext_start b) \<le> j"
      by (auto simp: ext_list_def)
    from Cons.prems b have "unat (ext_end x) < unat (ext_start b)"
      by (auto simp: wf_extents_Cons word_less_nat_alt)
    with that(1) j show ?thesis by auto
  qed
  have "sorted_wrt (<) (ext_vals x)"
    by (simp add: ext_vals_def del: upt_Suc)
  with Cons * show ?case
    by (auto simp: wf_extents_Cons sorted_wrt_append)
qed simp

lemma wf_empty_chain: "wf_chain empty_chain"
  by (simp add: wf_chain_def empty_chain_def)

section \<open>Insertion\<close>

text \<open>
  The number of extents that start before a value. On a sorted list the search of
  \<open>toi_add_to_extent_chain\<close> ends on the last of them, wherever it began.
\<close>

definition before :: "hibernate_extent list \<Rightarrow> ulong \<Rightarrow> nat" where
  "before xs start = length (takeWhile (\<lambda>e. ext_start e < start) xs)"

lemma before_le: "before xs start \<le> length xs"
  by (simp add: before_def length_takeWhile_le)

lemma less_before_iff:
  assumes "sorted_wrt (\<lambda>a b. ext_start a < ext_start b) xs" and "i < length xs"
  shows "i < before xs start \<longleftrightarrow> ext_start (xs ! i) < start"
proof
  assume "i < before xs start"
  then show "ext_start (xs ! i) < start"
    unfolding before_def by (metis nth_mem set_takeWhileD takeWhile_nth)
next
  assume less: "ext_start (xs ! i) < start"
  show "i < before xs start"
  proof (rule ccontr)
    assume "\<not> i < before xs start"
    then have le: "before xs start \<le> i" by simp
    with assms(2) have "before xs start < length xs" by simp
    then have "\<not> ext_start (xs ! before xs start) < start"
      unfolding before_def by (rule nth_length_takeWhile)
    moreover have "ext_start (xs ! before xs start) \<le> ext_start (xs ! i)"
      using assms le by (cases "before xs start = i") (auto simp: sorted_wrt_iff_nth_less less_imp_le)
    ultimately show False using less by simp
  qed
qed

lemma seek_extent_before:
  assumes "sorted_wrt (\<lambda>a b. ext_start a < ext_start b) xs"
    and "i < length xs" and "ext_start (xs ! i) < start"
  shows "seek_extent xs start i = before xs start - 1"
  using assms
proof (induction xs start i rule: seek_extent.induct)
  case (1 xs start i)
  show ?case
  proof (cases "Suc i < length xs \<and> ext_start (xs ! Suc i) < start")
    case True
    with "1.IH" "1.prems" show ?thesis by (simp add: seek_extent.simps [of xs start i])
  next
    case False
    have "i < before xs start"
      using "1.prems" less_before_iff [OF "1.prems"(1), of i start] by simp
    moreover have "\<not> Suc i < before xs start"
      using False less_before_iff [OF "1.prems"(1), of "Suc i" start] before_le [of xs start] by auto
    ultimately have "i = before xs start - 1" by simp
    moreover have "seek_extent xs start i = i"
      by (simp only: seek_extent.simps [of xs start i] False if_False)
    ultimately show ?thesis by simp
  qed
qed

lemma find_cur_ext_eq:
  assumes "wf_chain c"
  shows "find_cur_ext c start =
    (if before (extents c) start = 0 then None else Some (before (extents c) start - 1))"
proof -
  let ?xs = "extents c"
  have sorted: "sorted_wrt (\<lambda>a b. ext_start a < ext_start b) ?xs"
    using assms by (simp add: wf_chain_def wf_extents_starts)
  have first: "(?xs \<noteq> [] \<and> ext_start (?xs ! 0) < start) \<longleftrightarrow> before ?xs start \<noteq> 0"
    using less_before_iff [OF sorted, of 0 start] by (cases "?xs = []") (auto simp: before_def)
  have seek: "before ?xs start \<noteq> 0 \<and> seek_extent ?xs start i = before ?xs start - 1"
    if "i < length ?xs" "ext_start (?xs ! i) < start" for i
    using that less_before_iff [OF sorted, of i start] seek_extent_before [OF sorted, of i start]
    by auto
  show ?thesis
  proof (cases "last_touched c")
    case None
    with first seek show ?thesis by (auto simp: find_cur_ext_def Let_def)
  next
    case (Some i)
    with assms have "i < length ?xs" by (simp add: wf_chain_def)
    with Some first seek show ?thesis by (auto simp: find_cur_ext_def Let_def)
  qed
qed


text \<open>
  A new range that meets no extent of the chain lies strictly between the extents that start
  before it and the others.
\<close>

lemma disjoint_range_between:
  assumes wf: "wf_extents xs" and range: "start \<le> end"
    and disj: "{unat start .. unat end} \<inter> set (ext_list xs) = {}"
    and x: "x \<in> set xs"
  shows "ext_start x < start \<Longrightarrow> ext_end x < start"
    and "\<not> ext_start x < start \<Longrightarrow> end < ext_start x"
proof -
  have sub: "{unat (ext_start x) .. unat (ext_end x)} \<subseteq> set (ext_list xs)"
    using x by (auto simp: ext_list_def)
  have le: "unat (ext_start x) \<le> unat (ext_end x)" and r: "unat start \<le> unat end"
    using wf x range by (auto simp: wf_extents_def word_le_nat_alt)
  have out: "v \<notin> {unat (ext_start x) .. unat (ext_end x)}"
    if "unat start \<le> v" and "v \<le> unat end" for v
    using disj sub that by (auto simp: disjoint_iff)
  {
    assume "ext_start x < start"
    then have "unat (ext_start x) < unat start" by (simp add: word_less_nat_alt)
    moreover have "unat start \<notin> {unat (ext_start x) .. unat (ext_end x)}"
      using r by (intro out) auto
    ultimately show "ext_end x < start" by (simp add: word_less_nat_alt)
  next
    assume "\<not> ext_start x < start"
    then have "unat start \<le> unat (ext_start x)" by (simp add: word_less_nat_alt)
    moreover have "unat (ext_start x) \<notin> {unat start .. unat end}"
      using out [of "unat (ext_start x)"] le by auto
    ultimately show "end < ext_start x" by (simp add: word_less_nat_alt)
  }
qed

text \<open>The list cut where the new range belongs.\<close>

lemma split_at_before:
  assumes "wf_extents xs"
  shows "\<forall>x \<in> set (take (before xs start) xs). ext_start x < start"
    and "\<forall>x \<in> set (drop (before xs start) xs). \<not> ext_start x < start"
proof -
  note sorted = wf_extents_starts [OF assms]
  show "\<forall>x \<in> set (take (before xs start) xs). ext_start x < start"
    by (metis before_def set_takeWhileD takeWhile_eq_take)
  show "\<forall>x \<in> set (drop (before xs start) xs). \<not> ext_start x < start"
  proof
    fix x assume "x \<in> set (drop (before xs start) xs)"
    then obtain n where n: "n < length (drop (before xs start) xs)" "x = drop (before xs start) xs ! n"
      by (auto simp: in_set_conv_nth)
    then have "before xs start + n < length xs" and "x = xs ! (before xs start + n)"
      by auto
    with less_before_iff [OF sorted, of "before xs start + n" start]
    show "\<not> ext_start x < start" by simp
  qed
qed


text \<open>
  Insertion on every branch. With a range that meets no extent, a successful call puts the
  values of the range where they belong, and the result does not depend on \<open>last_touched\<close>.
\<close>

lemma add_to_extent_chain_eq:
  fixes c :: hibernate_extent_chain and start "end" :: ulong
  assumes "wf_chain c"
  defines "xs \<equiv> extents c" and "k \<equiv> before (extents c) start"
    and "sz \<equiv> s32 (chain_size c + uint (end - start + 1))"
  shows "toi_add_to_extent_chain g c start end =
    (if 0 < k \<and> ext_end (xs ! (k - 1)) = start - 1 then
       (0, c\<lparr>extents :=
               (if k < length xs \<and> end + 1 = ext_start (xs ! k)
                then take (k - 1) xs @ (xs ! (k - 1))\<lparr>ext_end := ext_end (xs ! k)\<rparr> # drop (Suc k) xs
                else take (k - 1) xs @ (xs ! (k - 1))\<lparr>ext_end := end\<rparr> # drop k xs),
             num_extents := (if k < length xs \<and> end + 1 = ext_start (xs ! k)
                             then num_extents c - 1 else num_extents c),
             last_touched := Some (k - 1), chain_size := sz\<rparr>)
     else if \<not> g then (- ENOMEM, c)
     else (0, c\<lparr>extents := take k xs @ \<lparr>ext_start = start, ext_end = end\<rparr> # drop k xs,
               num_extents := num_extents c + 1, last_touched := Some k, chain_size := sz\<rparr>))"
proof -
  have "k \<le> length xs" unfolding k_def xs_def by (rule before_le)
  then have upd: "xs[k - 1 := z] = take (k - 1) xs @ z # drop k xs" if "0 < k" for z
    using that by (simp add: upd_conv_take_nth_drop)
  have cur: "find_cur_ext c start = (if k = 0 then None else Some (k - 1))"
    unfolding k_def by (rule find_cur_ext_eq [OF assms(1)])
  show ?thesis
  proof (cases "k = 0")
    case True
    with cur show ?thesis
      by (simp add: toi_add_to_extent_chain_def Let_def xs_def sz_def)
  next
    case False
    with cur upd show ?thesis
      by (simp add: toi_add_to_extent_chain_def Let_def xs_def sz_def)
  qed
qed


text \<open>
  The values of the three shapes a successful insertion leaves: a new extent, an extent that
  grew, and two extents that were joined.
\<close>

lemma ext_vals_grow:
  assumes "ext_start x \<le> ext_end x" and "ext_end x = start - 1" and "ext_start x < start"
    and "start \<le> end"
  shows "ext_vals (x\<lparr>ext_end := end\<rparr>) = ext_vals x @ [unat start ..< Suc (unat end)]"
proof -
  have "0 < start" using assms(3) by (rule order_le_less_trans [OF word_zero_le])
  with assms(2) have "unat start = Suc (unat (ext_end x))"
    by (simp add: unat_eq_minus_1)
  with assms(1,4) show ?thesis
    by (simp add: ext_vals_def upt_append word_le_nat_alt del: upt_Suc)
qed

lemma ext_vals_join:
  assumes "ext_start x \<le> ext_end x" and "ext_end x = start - 1" and "ext_start x < start"
    and "start \<le> end" and "end < ext_start y" and "end + 1 = ext_start y"
    and "ext_start y \<le> ext_end y"
  shows "ext_vals (x\<lparr>ext_end := ext_end y\<rparr>) =
    ext_vals x @ [unat start ..< Suc (unat end)] @ ext_vals y"
proof -
  have "unat (ext_start y) = Suc (unat end)"
    using assms(5,6) by (simp add: unat_plus_1_eq)
  moreover have "ext_vals (x\<lparr>ext_end := end\<rparr>) = ext_vals x @ [unat start ..< Suc (unat end)]"
    by (rule ext_vals_grow) (use assms in auto)
  moreover have "unat (ext_start x) \<le> unat end" "unat end < unat (ext_start y)"
    "unat (ext_start y) \<le> unat (ext_end y)"
    using assms by (auto simp: word_le_nat_alt word_less_nat_alt)
  moreover from this have "[unat (ext_start x) ..< Suc (unat (ext_end y))] =
      [unat (ext_start x) ..< Suc (unat end)] @ [Suc (unat end) ..< Suc (unat (ext_end y))]"
    by (intro upt_append [symmetric]) simp_all
  ultimately show ?thesis
    by (simp add: ext_vals_def del: upt_Suc)
qed

lemma before_split:
  fixes start "end" :: ulong and xs :: "hibernate_extent list"
  assumes wf: "wf_extents xs" and range: "start \<le> end"
    and disj: "{unat start .. unat end} \<inter> set (ext_list xs) = {}"
  defines "k \<equiv> before xs start"
  shows "\<forall>x \<in> set (take k xs). ext_start x < start \<and> ext_end x < start"
    and "\<forall>x \<in> set (drop k xs). end < ext_start x"
    and "wf_extents (take k xs)" and "wf_extents (drop k xs)"
    and "\<forall>a \<in> set (take k xs). \<forall>b \<in> set (drop k xs). ext_end a < ext_start b"
proof -
  note split = split_at_before [OF wf, of start] and between = disjoint_range_between [OF wf range disj]
  show "\<forall>x \<in> set (take k xs). ext_start x < start \<and> ext_end x < start"
    using split(1) between(1) in_set_takeD [of _ k xs] unfolding k_def by blast
  show "\<forall>x \<in> set (drop k xs). end < ext_start x"
    using split(2) between(2) in_set_dropD [of _ k xs] unfolding k_def by blast
qed (use wf_extents_append [of "take k xs" "drop k xs"] wf in simp_all)

text \<open>A new extent between the others.\<close>

lemma insert_new_extent:
  assumes "wf_extents xs" and "start \<le> end"
    and "{unat start .. unat end} \<inter> set (ext_list xs) = {}" and k: "k = before xs start"
  shows "wf_extents (take k xs @ \<lparr>ext_start = start, ext_end = end\<rparr> # drop k xs)"
    and "ext_list (take k xs @ \<lparr>ext_start = start, ext_end = end\<rparr> # drop k xs) =
      ext_list (take k xs) @ [unat start ..< Suc (unat end)] @ ext_list (drop k xs)"
  using before_split [OF assms(1-3)] assms(2)
  by (auto simp: k wf_extents_append wf_extents_Cons ext_vals_def)

text \<open>The extent just before the range grows over it.\<close>

lemma last_before:
  assumes "wf_extents xs" and "start \<le> end"
    and "{unat start .. unat end} \<inter> set (ext_list xs) = {}"
    and k: "k = before xs start" "0 < k"
  shows "take k xs = take (k - 1) xs @ [xs ! (k - 1)]"
    and "ext_start (xs ! (k - 1)) \<le> ext_end (xs ! (k - 1))"
    and "ext_start (xs ! (k - 1)) < start"
proof -
  show takek: "take k xs = take (k - 1) xs @ [xs ! (k - 1)]"
    using k before_le [of xs start] take_Suc_nth [of "k - 1" xs] by auto
  then show "ext_start (xs ! (k - 1)) \<le> ext_end (xs ! (k - 1))" "ext_start (xs ! (k - 1)) < start"
    using before_split(1,3) [OF assms(1-3), folded k(1)] by (auto simp: wf_extents_def)
qed

lemma insert_grow_extent:
  assumes "wf_extents xs" and "start \<le> end"
    and "{unat start .. unat end} \<inter> set (ext_list xs) = {}"
    and k: "k = before xs start" "0 < k" and x: "x = xs ! (k - 1)" "ext_end x = start - 1"
  shows "wf_extents (take (k - 1) xs @ x\<lparr>ext_end := end\<rparr> # drop k xs)"
    and "ext_list (take (k - 1) xs @ x\<lparr>ext_end := end\<rparr> # drop k xs) =
      ext_list (take k xs) @ [unat start ..< Suc (unat end)] @ ext_list (drop k xs)"
proof -
  note split = before_split [OF assms(1-3), folded k(1)]
  note lst = last_before [OF assms(1-3) k, folded x(1)]
  have "ext_start x \<le> end"
    using lst(3) assms(2) by (meson order.trans less_imp_le)
  then show "wf_extents (take (k - 1) xs @ x\<lparr>ext_end := end\<rparr> # drop k xs)"
    using split lst(1) by (auto simp: wf_extents_append wf_extents_Cons)
  show "ext_list (take (k - 1) xs @ x\<lparr>ext_end := end\<rparr> # drop k xs) =
      ext_list (take k xs) @ [unat start ..< Suc (unat end)] @ ext_list (drop k xs)"
    using lst(1) ext_vals_grow [OF lst(2) x(2) lst(3) assms(2)] by simp
qed

text \<open>The range closes the gap between two extents, which become one.\<close>

lemma insert_join_extent:
  assumes "wf_extents xs" and "start \<le> end"
    and "{unat start .. unat end} \<inter> set (ext_list xs) = {}"
    and k: "k = before xs start" "0 < k" "k < length xs"
    and x: "x = xs ! (k - 1)" "ext_end x = start - 1" and y: "y = xs ! k" "end + 1 = ext_start y"
  shows "wf_extents (take (k - 1) xs @ x\<lparr>ext_end := ext_end y\<rparr> # drop (Suc k) xs)"
    and "ext_list (take (k - 1) xs @ x\<lparr>ext_end := ext_end y\<rparr> # drop (Suc k) xs) =
      ext_list (take k xs) @ [unat start ..< Suc (unat end)] @ ext_list (drop k xs)"
proof -
  note split = before_split [OF assms(1-3), folded k(1)]
  note lst = last_before [OF assms(1-3) k(1,2), folded x(1)]
  have dropk: "drop k xs = y # drop (Suc k) xs"
    using k(3) by (simp add: y(1) drop_nth_split)
  have y': "ext_start y \<le> ext_end y" "end < ext_start y"
    using split(2,4) dropk by (auto simp: wf_extents_Cons)
  have "ext_start x \<le> ext_end y"
    using lst(3) assms(2) y' by (meson order.trans less_imp_le)
  then show "wf_extents (take (k - 1) xs @ x\<lparr>ext_end := ext_end y\<rparr> # drop (Suc k) xs)"
    using split lst(1) dropk by (auto simp: wf_extents_append wf_extents_Cons)
  show "ext_list (take (k - 1) xs @ x\<lparr>ext_end := ext_end y\<rparr> # drop (Suc k) xs) =
      ext_list (take k xs) @ [unat start ..< Suc (unat end)] @ ext_list (drop k xs)"
    using lst(1) dropk ext_vals_join [OF lst(2) x(2) lst(3) assms(2) y'(2) y(2) y'(1)] by simp
qed

lemma add_to_extent_chain_extents:
  assumes wf: "wf_chain c" and "start \<le> end"
    and "{unat start .. unat end} \<inter> set (ext_list (extents c)) = {}"
    and res: "toi_add_to_extent_chain g c start end = (0, c')"
  shows "wf_extents (extents c')"
    and "ext_list (extents c') =
      ext_list (take (before (extents c) start) (extents c)) @ [unat start ..< Suc (unat end)] @
      ext_list (drop (before (extents c) start) (extents c))"
proof -
  have wfx: "wf_extents (extents c)" using wf by (simp add: wf_chain_def)
  note shapes = insert_new_extent [OF wfx assms(2,3) refl] insert_grow_extent [OF wfx assms(2,3) refl]
    insert_join_extent [OF wfx assms(2,3) refl]
  show "wf_extents (extents c')"
    using res shapes(1,3,5) unfolding add_to_extent_chain_eq [OF wf] by (auto split: if_splits)
  show "ext_list (extents c') =
      ext_list (take (before (extents c) start) (extents c)) @ [unat start ..< Suc (unat end)] @
      ext_list (drop (before (extents c) start) (extents c))"
    using res shapes(2,4,6) unfolding add_to_extent_chain_eq [OF wf] by (auto split: if_splits)
qed

lemma add_to_extent_chain_counters:
  assumes wf: "wf_chain c" and res: "toi_add_to_extent_chain g c start end = (0, c')"
  shows "num_extents c' = int (length (extents c'))"
    and "\<forall>i. last_touched c' = Some i \<longrightarrow> i < length (extents c')"
    and "chain_size c' = s32 (chain_size c + uint (end - start + 1))"
  using res before_le [of "extents c" start] wf
  unfolding add_to_extent_chain_eq [OF wf]
  by (auto simp: wf_chain_def split: if_splits)

lemma add_to_extent_chain_size:
  assumes wf: "wf_chain c" and range: "start \<le> end"
    and disj: "{unat start .. unat end} \<inter> set (ext_list (extents c)) = {}"
    and res: "toi_add_to_extent_chain g c start end = (0, c')"
  shows "chain_size c' = s32 (int (length (ext_list (extents c'))))"
proof -
  let ?old = "int (length (ext_list (extents c)))" and ?k = "before (extents c) start"
  have "length (ext_list (extents c)) =
      length (ext_list (take ?k (extents c))) + length (ext_list (drop ?k (extents c)))"
    by (metis append_take_drop_id ext_list_simps(3) length_append)
  then have len: "int (length (ext_list (extents c'))) = ?old + (uint end - uint start + 1)"
    using range by (simp add: add_to_extent_chain_extents(2) [OF assms] word_le_nat_alt
        Suc_diff_le of_nat_diff del: upt_Suc)
  have "uint (end - start + 1) = (uint end - uint start + 1) mod 2 ^ 64"
    by (simp add: uint_word_ariths mod_simps)
  then have "uint (end - start + 1) mod 2 ^ 32 = (uint end - uint start + 1) mod 2 ^ 32"
    by (simp add: mod_mod_cancel)
  then have "(?old + uint (end - start + 1)) mod 2 ^ 32 = (?old + (uint end - uint start + 1)) mod 2 ^ 32"
    by (rule mod_add_cong [OF refl])
  then have "s32 (?old + uint (end - start + 1)) = s32 (?old + (uint end - uint start + 1))"
    by (rule s32_cong)
  then show ?thesis
    using wf by (simp add: add_to_extent_chain_counters(3) [OF wf res] wf_chain_def len s32_add_left)
qed

lemma add_to_extent_chain_wf [toi_inv]:
  assumes "wf_chain c" and "start \<le> end"
    and "{unat start .. unat end} \<inter> set (ext_list (extents c)) = {}"
    and "toi_add_to_extent_chain g c start end = (0, c')"
  shows "wf_chain c'"
  using add_to_extent_chain_extents(1) [OF assms] add_to_extent_chain_counters [OF assms(1,4)]
    add_to_extent_chain_size [OF assms]
  by (simp add: wf_chain_def)

lemma add_to_extent_chain_set:
  assumes "wf_chain c" and "start \<le> end"
    and "{unat start .. unat end} \<inter> set (ext_list (extents c)) = {}"
    and "toi_add_to_extent_chain g c start end = (0, c')"
  shows "set (ext_list (extents c')) = set (ext_list (extents c)) \<union> {unat start .. unat end}"
proof -
  have "set (ext_list (extents c)) =
      set (ext_list (take (before (extents c) start) (extents c))) \<union>
      set (ext_list (drop (before (extents c) start) (extents c)))"
    by (metis append_take_drop_id ext_list_simps(3) set_append)
  then show ?thesis
    unfolding add_to_extent_chain_extents(2) [OF assms]
    by (simp add: atLeastLessThanSuc_atLeastAtMost Un_ac del: upt_Suc)
qed

lemma add_to_extent_chain_ret:
  "fst (toi_add_to_extent_chain g c start end) = 0 \<or>
   \<not> g \<and> toi_add_to_extent_chain g c start end = (- ENOMEM, c)"
  by (auto simp: toi_add_to_extent_chain_def Let_def split: option.splits)

text \<open>
  C6. Adding a range that is disjoint from a well-formed chain either succeeds, and then the chain
  is well formed again (sorted, disjoint, counters and size right) and holds exactly the old
  values and the new range, or fails with \<open>-ENOMEM\<close>, which needs a failed allocation and
  leaves the chain as it was.
\<close>

theorem toi_add_to_extent_chain_correct:
  assumes "wf_chain c" and "start \<le> end"
    and "{unat start .. unat end} \<inter> set (ext_list (extents c)) = {}"
    and "toi_add_to_extent_chain got_ext c start end = (ret, c')"
  shows "if ret = 0
         then wf_chain c' \<and>
           set (ext_list (extents c')) = set (ext_list (extents c)) \<union> {unat start .. unat end}
         else ret = - ENOMEM \<and> \<not> got_ext \<and> c' = c"
proof (cases "ret = 0")
  case True
  with assms(4) have "toi_add_to_extent_chain got_ext c start end = (0, c')" by simp
  with True add_to_extent_chain_wf [OF assms(1-3)] add_to_extent_chain_set [OF assms(1-3)]
  show ?thesis by simp
next
  case False
  with add_to_extent_chain_ret [of got_ext c start "end"] assms(4) show ?thesis by simp
qed

definition demo_chain :: hibernate_extent_chain where
  "demo_chain = snd (toi_add_to_extent_chain True
     (snd (toi_add_to_extent_chain True empty_chain 20 29)) 5 7)"

lemma demo_chain_eq:
  "demo_chain = \<lparr>chain_size = 13, num_extents = 2,
     extents = [\<lparr>ext_start = 5, ext_end = 7\<rparr>, \<lparr>ext_start = 20, ext_end = 29\<rparr>],
     last_touched = Some 0\<rparr>"
  by (simp add: demo_chain_def empty_chain_def toi_add_to_extent_chain_def find_cur_ext_def s32_def)

lemma wf_demo_chain: "wf_chain demo_chain"
  by (simp add: demo_chain_eq wf_chain_def wf_extents_def ext_vals_def)

lemma demo_chain_grow:
  "toi_add_to_extent_chain False demo_chain 8 10 = (0, \<lparr>chain_size = 16, num_extents = 2,
     extents = [\<lparr>ext_start = 5, ext_end = 10\<rparr>, \<lparr>ext_start = 20, ext_end = 29\<rparr>],
     last_touched = Some 0\<rparr>)"
  by (simp add: demo_chain_eq toi_add_to_extent_chain_def find_cur_ext_def
      seek_extent.simps [of _ _ 0])

lemma demo_chain_vals: "set (ext_list (extents demo_chain)) = {5 .. 7} \<union> {20 .. 29}"
  by (simp add: demo_chain_eq)

theorem toi_add_to_extent_chain_correct_witness:
  "wf_chain (snd (toi_add_to_extent_chain False demo_chain 8 10)) \<and>
   set (ext_list (extents (snd (toi_add_to_extent_chain False demo_chain 8 10)))) =
     {5 .. 7} \<union> {20 .. 29} \<union> {8 .. 10}"
proof -
  have "{8 .. 10} \<inter> ({5 .. 7} \<union> {20 .. 29}) = ({} :: nat set)" by auto
  then show ?thesis
    using toi_add_to_extent_chain_correct [OF wf_demo_chain _ _ demo_chain_grow]
    unfolding demo_chain_vals demo_chain_grow snd_conv by simp
qed

text \<open>
  C29. \<open>last_touched\<close> is only a hint: wherever it points into a well-formed chain, insertion
  gives the same chain.
\<close>

theorem toi_add_to_extent_chain_hint:
  assumes "wf_chain c" and "\<forall>i. hint = Some i \<longrightarrow> i < length (extents c)"
  shows "toi_add_to_extent_chain True (c\<lparr>last_touched := hint\<rparr>) start end =
    toi_add_to_extent_chain True c start end"
proof -
  have "wf_chain (c\<lparr>last_touched := hint\<rparr>)"
    using assms by (simp add: wf_chain_def)
  then have "find_cur_ext (c\<lparr>last_touched := hint\<rparr>) start = find_cur_ext c start"
    by (simp add: find_cur_ext_eq assms(1))
  then show ?thesis
    by (simp add: toi_add_to_extent_chain_def Let_def split: option.splits)
qed

theorem toi_add_to_extent_chain_hint_witness:
  "toi_add_to_extent_chain True (demo_chain\<lparr>last_touched := Some 1\<rparr>) 8 19 =
   toi_add_to_extent_chain True demo_chain 8 19"
  by (rule toi_add_to_extent_chain_hint [OF wf_demo_chain]) (simp add: demo_chain_eq)

section \<open>Enumeration\<close>

lemma for_each_from_eq:
  assumes "wf_extents (e # es)" and "val \<le> ext_end e"
  shows "map unat (for_each_from (e # es) val) = [unat val ..< Suc (unat (ext_end e))] @ ext_list es"
  using assms
proof (induction "e # es" val arbitrary: e es rule: for_each_from.induct)
  case (2 e es val)
  note unfold = for_each_from.simps(2) [of e es val]
  show ?case
  proof (cases "val = ext_end e")
    case True
    show ?thesis
    proof (cases es)
      case Nil
      with True unfold show ?thesis by (simp add: for_each_from.simps(1))
    next
      case (Cons e' es')
      have wf: "wf_extents (e' # es')" and "ext_start e' \<le> ext_end e'"
        using "2.prems" Cons by (simp_all add: wf_extents_Cons)
      then have "map unat (for_each_from es (ext_start (hd es))) = ext_list es"
        using "2.hyps"(1) [OF _ True, of e' es'] Cons by (simp add: ext_vals_def del: upt_Suc)
      with True Cons unfold show ?thesis by simp
    qed
  next
    case False
    with "2.prems" have less: "val < ext_end e" by simp
    then have le: "val + 1 \<le> ext_end e" and "unat val < unat (ext_end e)"
      by (simp_all add: word_le_nat_alt word_less_nat_alt unat_plus_1 [OF less])
    have "map unat (for_each_from (e # es) (val + 1)) =
        [Suc (unat val) ..< Suc (unat (ext_end e))] @ ext_list es"
      using "2.hyps"(2) [OF _ False "2.prems"(1) le] "2.prems"(2) unat_plus_1 [OF less]
      by (simp del: upt_Suc)
    moreover have "for_each_from (e # es) val = val # for_each_from (e # es) (val + 1)"
      using False "2.prems"(2) unfold by simp
    ultimately show ?thesis
      using \<open>unat val < unat (ext_end e)\<close> by (simp add: upt_conv_Cons del: upt_Suc)
  qed
qed

text \<open>
  C28. The macro \<open>toi_extent_for_each\<close> runs its body once for every value of a well-formed
  chain, in ascending order.
\<close>

theorem toi_extent_for_each_values:
  assumes "wf_chain c"
  shows "map unat (toi_extent_for_each c) = ext_list (extents c) \<and> sorted_wrt (<) (ext_list (extents c))"
proof (cases "extents c")
  case Nil
  then show ?thesis by (simp add: toi_extent_for_each_def)
next
  case (Cons e es)
  with assms have wf: "wf_extents (e # es)" by (simp add: wf_chain_def)
  then have "ext_start e \<le> ext_end e" by (simp add: wf_extents_Cons)
  from for_each_from_eq [OF wf this] wf_extents_sorted [OF wf] Cons show ?thesis
    by (simp add: toi_extent_for_each_def ext_vals_def)
qed

theorem toi_extent_for_each_values_witness:
  "map unat (toi_extent_for_each demo_chain) = [5, 6, 7] @ [20 ..< 30]"
  using toi_extent_for_each_values [OF wf_demo_chain]
  by (simp add: demo_chain_eq ext_vals_def upt_rec)

text \<open>
  The tape: every block of every chain, in the order of the chains and in ascending order
  within each, with the number of its chain.
\<close>

fun tape :: "nat \<Rightarrow> hibernate_extent_chain list \<Rightarrow> (nat \<times> nat) list" where
  "tape n [] = []"
| "tape n (c # cs) = map (Pair n) (ext_list (extents c)) @ tape (Suc n) cs"

text \<open>What of the tape is after the position of an iterator.\<close>

definition todo :: "toi_extent_iterate_state \<Rightarrow> (nat \<times> nat) list" where
  "todo st =
     (let n = nat (current_chain st + 1)
      in (case current_extent st of
            None \<Rightarrow> []
          | Some i \<Rightarrow> map (Pair (n - 1))
              ([Suc (unat (current_offset st)) ..< Suc (unat (ext_end (cur_extents st ! i)))] @
               ext_list (drop (Suc i) (cur_extents st))))
         @ tape n (drop n (chains st)))"

text \<open>
  The positions an iterator can have: before the first block, on a block, or after the last
  chain.
\<close>

definition wf_state :: "toi_extent_iterate_state \<Rightarrow> bool" where
  "wf_state st \<longleftrightarrow> list_all wf_chain (chains st) \<and> -1 \<le> current_chain st \<and>
     current_chain st \<le> num_chains st \<and>
     (case current_extent st of
        None \<Rightarrow> current_offset st = 0 \<and> (current_chain st = -1 \<or> toi_extent_state_eof st)
      | Some i \<Rightarrow> i < length (cur_extents st) \<and>
          ext_start (cur_extents st ! i) \<le> current_offset st \<and>
          current_offset st \<le> ext_end (cur_extents st ! i))"

text \<open>The iterator stands on the given block, and the rest of the tape is to come.\<close>

definition on_block :: "toi_extent_iterate_state \<Rightarrow> nat \<times> nat \<Rightarrow> bool" where
  "on_block st p \<longleftrightarrow> current_chain st = int (fst p) \<and> fst p < length (chains st) \<and>
     current_extent st \<noteq> None \<and> unat (current_offset st) = snd p"

definition step_spec ::
    "(nat \<times> nat) list \<Rightarrow> (ulong \<times> toi_extent_iterate_state) option \<Rightarrow> hibernate_extent_chain list \<Rightarrow> bool" where
  "step_spec rest res cs \<longleftrightarrow>
     (\<exists>v st'. res = Some (v, st') \<and> wf_state st' \<and> chains st' = cs \<and>
        (case rest of
           [] \<Rightarrow> v = 0 \<and> toi_extent_state_eof st' \<and> todo st' = []
         | p # ps \<Rightarrow> v = current_offset st' \<and> on_block st' p \<and> todo st' = ps))"

lemma wf_chain_nth:
  assumes "list_all wf_chain cs" and "n < length cs"
  shows "wf_extents (extents (cs ! n))"
  using assms by (simp add: list_all_length wf_chain_def)

lemma next_chain_spec:
  assumes "list_all wf_chain (chains st)" and "-1 \<le> current_chain st"
    and "current_chain st < num_chains st" and "current_extent st = None" and "current_offset st = 0"
  shows "step_spec (tape (nat (current_chain st + 1)) (drop (nat (current_chain st + 1)) (chains st)))
    (next_chain st) (chains st)"
  using assms
proof (induction st rule: next_chain.induct)
  case (1 st)
  define n where "n = nat (current_chain st + 1)"
  have n: "current_chain st + 1 = int n" and le: "n \<le> length (chains st)"
    using "1.prems" by (auto simp: n_def num_chains_def)
  show ?case
  proof (cases "n = length (chains st)")
    case True
    with n "1.prems" show ?thesis
      by (simp add: next_chain.simps [of st] step_spec_def num_chains_def wf_state_def
          toi_extent_state_eof_def todo_def)
  next
    case False
    with le have less: "n < length (chains st)" by simp
    show ?thesis
    proof (cases "extents (chains st ! n)")
      case Nil
      have "next_chain st = next_chain (st\<lparr>current_chain := int n\<rparr>)"
        using less Nil n by (simp add: next_chain.simps [of st] num_chains_def)
      moreover have "tape n (drop n (chains st)) = tape (Suc n) (drop (Suc n) (chains st))"
        by (simp add: drop_nth_split [OF less] Nil)
      ultimately show ?thesis
        using "1.IH" [OF refl refl] less Nil n "1.prems" by (simp add: num_chains_def nat_add_distrib)
    next
      case (Cons e es)
      have "wf_extents (e # es)"
        using wf_chain_nth [OF "1.prems"(1) less] Cons by simp
      then have "ext_start e \<le> ext_end e" "unat (ext_start e) \<le> unat (ext_end e)"
        by (simp_all add: wf_extents_Cons word_le_nat_alt)
      then show ?thesis
        using less Cons n "1.prems"
        by (simp add: next_chain.simps [of st] step_spec_def num_chains_def wf_state_def todo_def
            cur_extents_def on_block_def drop_nth_split [OF less] ext_vals_def upt_conv_Cons
            nat_add_distrib del: upt_Suc)
    qed
  qed
qed

lemma extent_state_next_spec:
  assumes "wf_state st"
  shows "step_spec (todo st) (toi_extent_state_next st) (chains st)"
proof (cases "current_extent st")
  case None
  with assms show ?thesis
    using next_chain_spec [of st]
    by (auto simp: wf_state_def toi_extent_state_next_def step_spec_def toi_extent_state_eof_def
        todo_def num_chains_def)
next
  case (Some i)
  define xs where "xs = cur_extents st"
  define n where "n = nat (current_chain st)"
  have i: "i < length xs" and bounds: "ext_start (xs ! i) \<le> current_offset st"
    "current_offset st \<le> ext_end (xs ! i)"
    using assms Some by (simp_all add: wf_state_def xs_def)
  then have n: "current_chain st = int n" "n < length (chains st)" and xs: "xs = extents (chains st ! n)"
    by (auto simp: xs_def cur_extents_def n_def num_chains_def split: if_splits)
  have wf: "list_all wf_chain (chains st)" and wfx: "wf_extents xs"
    using assms n wf_chain_nth [of "chains st" n] by (simp_all add: wf_state_def xs)
  note state_defs = toi_extent_state_next_def step_spec_def wf_state_def todo_def on_block_def
    num_chains_def cur_extents_def Let_def
  show ?thesis
  proof (cases "current_offset st = ext_end (xs ! i)")
    case same: True
    show ?thesis
    proof (cases "Suc i < length xs")
      case True
      then have "ext_start (xs ! Suc i) \<le> ext_end (xs ! Suc i)"
        using wfx by (simp add: wf_extents_def)
      with True same i n xs Some wf show ?thesis
        by (simp add: state_defs drop_nth_split [of "Suc i" "extents (chains st ! n)"] ext_vals_def upt_conv_Cons word_le_nat_alt
            nat_add_distrib del: upt_Suc)
    next
      case False
      with i have "Suc i = length xs" by simp
      with same i n xs Some wf show ?thesis
        using next_chain_spec [of "st\<lparr>current_extent := None, current_offset := 0\<rparr>"]
        by (simp add: state_defs nat_add_distrib)
    qed
  next
    case False
    with bounds have less: "current_offset st < ext_end (xs ! i)" by simp
    have "ext_start (xs ! i) \<le> current_offset st + 1" "current_offset st + 1 \<le> ext_end (xs ! i)"
      using bounds less by (simp_all add: word_le_nat_alt word_less_nat_alt unat_plus_1 [OF less])
    with False less i n xs Some wf show ?thesis
      by (simp add: state_defs unat_plus_1 [OF less] upt_conv_Cons word_less_nat_alt
          nat_add_distrib del: upt_Suc)
  qed
qed

text \<open>The chain and the block of each of the next \<open>k\<close> positions, and the state after them.\<close>

fun walk :: "nat \<Rightarrow> toi_extent_iterate_state \<Rightarrow> ((nat \<times> nat) list \<times> toi_extent_iterate_state) option" where
  "walk 0 st = Some ([], st)"
| "walk (Suc k) st =
     (case toi_extent_state_next st of
        None \<Rightarrow> None
      | Some (v, st') \<Rightarrow>
          map_option (\<lambda>(ps, st''). ((nat (current_chain st'), unat v) # ps, st'')) (walk k st'))"

lemma walk_todo:
  assumes "wf_state st" and "k \<le> length (todo st)"
  shows "\<exists>st'. walk k st = Some (take k (todo st), st') \<and> wf_state st' \<and> chains st' = chains st \<and>
    todo st' = drop k (todo st)"
  using assms
proof (induction k arbitrary: st)
  case (Suc k)
  then obtain p ps where todo: "todo st = p # ps" by (cases "todo st") auto
  with extent_state_next_spec [OF Suc.prems(1)] obtain st1
    where step: "toi_extent_state_next st = Some (current_offset st1, st1)" "wf_state st1"
      "chains st1 = chains st" "on_block st1 p" "todo st1 = ps"
    by (auto simp: step_spec_def)
  moreover have "(nat (current_chain st1), unat (current_offset st1)) = p"
    using step(4) by (cases p) (simp add: on_block_def)
  ultimately show ?case
    using Suc.IH [of st1] Suc.prems(2) todo by auto
qed simp

lemma goto_start_wf:
  assumes "list_all wf_chain (chains st)"
  shows "wf_state (toi_extent_state_goto_start st)"
    and "todo (toi_extent_state_goto_start st) = tape 0 (chains st)"
    and "chains (toi_extent_state_goto_start st) = chains st"
  using assms
  by (simp_all add: toi_extent_state_goto_start_def wf_state_def todo_def num_chains_def)

text \<open>
  C14. From \<open>toi_extent_state_goto_start\<close>, repeated calls of \<open>toi_extent_state_next\<close> return
  every block of every chain exactly once, chain by chain and in ascending order, skipping empty
  chains; the call after the last block returns 0 and sets the end of file condition. No call
  reads outside the array of chains or through a null pointer.
\<close>

theorem extent_iteration_complete:
  assumes "list_all wf_chain (chains st)"
  shows "\<exists>st1 st2. walk (length (tape 0 (chains st))) (toi_extent_state_goto_start st) =
      Some (tape 0 (chains st), st1) \<and>
    toi_extent_state_next st1 = Some (0, st2) \<and> toi_extent_state_eof st2 \<and>
    toi_extent_state_next st2 = Some (0, st2)"
proof -
  note start = goto_start_wf [OF assms]
  obtain st1 where st1: "walk (length (tape 0 (chains st))) (toi_extent_state_goto_start st) =
      Some (tape 0 (chains st), st1)" "wf_state st1" "todo st1 = []"
    using walk_todo [OF start(1), of "length (tape 0 (chains st))"] start(2) by auto
  from extent_state_next_spec [OF st1(2)] st1(3) obtain st2
    where "toi_extent_state_next st1 = Some (0, st2)" and eof: "toi_extent_state_eof st2"
    by (auto simp: step_spec_def)
  moreover have "toi_extent_state_next st2 = Some (0, st2)"
    using eof by (simp add: toi_extent_state_next_def toi_extent_state_eof_def)
  ultimately show ?thesis using st1(1) by blast
qed

definition demo_state :: toi_extent_iterate_state where
  "demo_state = \<lparr>chains = [empty_chain, demo_chain], current_chain = 1, current_extent = Some 1,
     current_offset = 21\<rparr>"

lemma wf_demo_state: "wf_state demo_state"
  by (simp add: demo_state_def wf_state_def wf_empty_chain wf_demo_chain num_chains_def cur_extents_def)
    (simp add: demo_chain_eq)

theorem extent_iteration_complete_witness:
  "\<exists>st1. walk 13 (toi_extent_state_goto_start demo_state) =
     Some ([(1, 5), (1, 6), (1, 7)] @ map (Pair 1) [20 ..< 30], st1)"
proof -
  have tape: "tape 0 (chains demo_state) = [(1, 5), (1, 6), (1, 7)] @ map (Pair 1) [20 ..< 30]"
    by (simp add: demo_state_def demo_chain_eq empty_chain_def ext_vals_def upt_rec)
  then have len: "length (tape 0 (chains demo_state)) = 13" by simp
  have "list_all wf_chain (chains demo_state)"
    using wf_demo_state by (simp add: wf_state_def)
  from extent_iteration_complete [OF this, unfolded len] show ?thesis
    unfolding tape by blast
qed

section \<open>Saving and restoring a position\<close>

lemma save_loop_found: "pos \<le> i \<Longrightarrow> i < length xs \<Longrightarrow> save_loop xs (Some i) pos = Some i"
proof (induction "i - pos" arbitrary: pos)
  case 0
  then show ?case by (subst save_loop.simps) (simp add: ext_ptr_def)
next
  case (Suc k)
  then show ?case by (simp add: save_loop.simps [of xs "Some i" pos] ext_ptr_def)
qed

lemma restore_loop_found:
  "i + k < length xs \<Longrightarrow> restore_loop xs k (Some i) = Some (Some (i + k))"
  by (induction k arbitrary: i) (simp_all add: ext_ptr_def)

lemma state_save_restore:
  assumes "wf_state st" and "\<not> toi_extent_state_eof st" and "chains st0 = chains st"
  shows "\<exists>saved. toi_extent_state_save st = Some saved \<and> toi_extent_state_restore st0 saved = Some st"
proof (cases "current_extent st")
  case None
  with assms show ?thesis
    by (auto simp: wf_state_def toi_extent_state_save_def toi_extent_state_restore_def
        toi_extent_state_goto_start_def)
next
  case (Some i)
  with assms(1) have i: "i < length (cur_extents st)" by (simp add: wf_state_def)
  then have chain: "0 \<le> current_chain st" "current_chain st < num_chains st"
    "cur_extents st = extents (chains st ! nat (current_chain st))"
    by (auto simp: cur_extents_def split: if_splits)
  have "st0\<lparr>current_chain := current_chain st, current_extent := Some i,
      current_offset := current_offset st\<rparr> = st"
    using Some assms(3) by (cases st; cases st0) simp
  with chain i Some assms(3) show ?thesis
    using save_loop_found [of 0 i "cur_extents st"] restore_loop_found [of 0 i "cur_extents st"]
    by (auto simp: toi_extent_state_save_def toi_extent_state_restore_def num_chains_def ext_ptr_def
        Let_def)
qed

lemma state_save_fields:
  "toi_extent_state_save st = Some saved \<Longrightarrow> chain_num saved = current_chain st \<and> saved_offset saved = current_offset st"
  by (auto simp: toi_extent_state_save_def Let_def split: if_splits)

text \<open>
  C23. A position that \<open>toi_extent_state_save\<close> stored is restored exactly by
  \<open>toi_extent_state_restore\<close>, also into a fresh iterator over the same chains (the case of a
  resume, where the chains were reloaded), for every position but the end of file one.
\<close>

theorem extent_state_save_restore:
  assumes "wf_state st" and "\<not> toi_extent_state_eof st" and "chains st0 = chains st"
  shows "\<exists>saved. toi_extent_state_save st = Some saved \<and> toi_extent_state_restore st0 saved = Some st"
  by (rule state_save_restore [OF assms])

theorem extent_state_save_restore_witness:
  "\<exists>saved. toi_extent_state_save demo_state = Some saved \<and>
     toi_extent_state_restore (toi_extent_state_goto_start demo_state) saved = Some demo_state"
  by (rule extent_state_save_restore [OF wf_demo_state])
    (simp_all add: demo_state_def toi_extent_state_eof_def num_chains_def toi_extent_state_goto_start_def)

section \<open>The image header\<close>

lemma length_extent_bytes [simp]: "length (extent_bytes e) = 16"
  by (simp add: extent_bytes_def)

lemma bytes_extent_inverse [simp]: "bytes_extent (extent_bytes e) = e"
  by (simp add: bytes_extent_def extent_bytes_def)

text \<open>The bytes of a chain in the header.\<close>

definition chain_bytes :: "hibernate_extent_chain \<Rightarrow> byte list" where
  "chain_bytes c = int_bytes (chain_size c) @ int_bytes (num_extents c) @
     concat (map extent_bytes (extents c))"

lemma length_extents_bytes [simp]: "length (concat (map extent_bytes es)) = 16 * length es"
  by (induction es) simp_all

lemma length_chain_bytes: "length (chain_bytes c) = 8 + 16 * length (extents c)"
  by (simp add: chain_bytes_def)

text \<open>
  What a writer of the header promises. \<open>sink s n acc\<close>: since the start of the header the bytes
  \<open>acc\<close> were accepted, and there is room for \<open>n\<close> more. A chunk that fits is accepted.
\<close>

locale header_sink =
  fixes wr :: "'s \<Rightarrow> byte list \<Rightarrow> (int \<times> 's) option"
    and sink :: "'s \<Rightarrow> nat \<Rightarrow> byte list \<Rightarrow> bool"
  assumes wr_chunk: "sink s n acc \<Longrightarrow> length bs \<le> n \<Longrightarrow>
    \<exists>s'. wr s bs = Some (0, s') \<and> sink s' (n - length bs) (acc @ bs)"
begin

lemma wr_chunkE:
  assumes "sink s n acc" and "length bs \<le> n"
  obtains s' where "wr s bs = Some (0, s')" and "sink s' (n - length bs) (acc @ bs)"
  using wr_chunk [OF assms] by blast

lemma serialise_extents_sink:
  assumes "sink s n acc" and "16 * length es \<le> n"
  shows "\<exists>s'. serialise_extents wr es s = Some (0, s') \<and>
    sink s' (n - 16 * length es) (acc @ concat (map extent_bytes es))"
  using assms
proof (induction es arbitrary: s n acc)
  case (Cons e es)
  obtain s1 where "wr s (extent_bytes e) = Some (0, s1)" and "sink s1 (n - 16) (acc @ extent_bytes e)"
    using wr_chunkE [of s n acc "extent_bytes e"] Cons.prems by auto
  with Cons.IH [of s1 "n - 16" "acc @ extent_bytes e"] Cons.prems(2) show ?case
    by (auto simp: diff_diff_eq)
qed simp

lemma serialise_chain_sink:
  assumes "sink s n acc" and "length (chain_bytes c) \<le> n" and "wf_chain c"
  shows "\<exists>s'. toi_serialise_extent_chain wr c s = Some (0, s') \<and>
    sink s' (n - length (chain_bytes c)) (acc @ chain_bytes c)"
proof -
  let ?hdr = "int_bytes (chain_size c) @ int_bytes (num_extents c)"
  have room: "16 * length (extents c) \<le> n - 8"
    using assms(2) by (simp add: length_chain_bytes)
  obtain s1 where "wr s ?hdr = Some (0, s1)" and "sink s1 (n - 8) (acc @ ?hdr)"
    using wr_chunkE [of s n acc ?hdr] assms(1,2) by (auto simp: length_chain_bytes)
  moreover from serialise_extents_sink [OF this(2) room] obtain s2
    where "serialise_extents wr (extents c) s1 = Some (0, s2)"
      and "sink s2 (n - 8 - 16 * length (extents c)) ((acc @ ?hdr) @ concat (map extent_bytes (extents c)))"
    by blast
  ultimately show ?thesis
    using assms(3)
    by (auto simp: toi_serialise_extent_chain_def wf_chain_def length_chain_bytes chain_bytes_def diff_diff_eq)
qed

end

text \<open>
  What a reader promises. \<open>ahead s bs\<close>: the bytes \<open>bs\<close> can be read. While as many as are asked
  for are ahead, these are returned, and the rest stays ahead.
\<close>

locale header_source =
  fixes rd :: "'s \<Rightarrow> nat \<Rightarrow> (int \<times> byte list \<times> 's) option"
    and ahead :: "'s \<Rightarrow> byte list \<Rightarrow> bool"
  assumes rd_chunk: "ahead s (bs @ rest) \<Longrightarrow>
    \<exists>s'. rd s (length bs) = Some (0, bs, s') \<and> ahead s' rest"
begin

lemma rd_chunkE:
  assumes "ahead s (bs @ rest)" and "length bs = n"
  obtains s' where "rd s n = Some (0, bs, s')" and "ahead s' rest"
  using rd_chunk [OF assms(1)] assms(2) by blast

lemma load_extents_source:
  assumes "ahead s (concat (map extent_bytes es) @ rest)" and "\<forall>j. got j"
  shows "\<exists>s'. load_extents rd got i (length es) s = Some (0, es, s') \<and> ahead s' rest"
  using assms(1)
proof (induction es arbitrary: s i)
  case (Cons e es)
  obtain s1 where "rd s 16 = Some (0, extent_bytes e, s1)"
    and "ahead s1 (concat (map extent_bytes es) @ rest)"
    using rd_chunkE [of s "extent_bytes e" "concat (map extent_bytes es) @ rest" 16] Cons.prems
    by auto
  with Cons.IH [of s1 "Suc i"] assms(2) show ?case
    by auto
qed simp

lemma load_chain_source:
  assumes "ahead s (chain_bytes c @ rest)" and "wf_chain c" and "length (extents c) < 2 ^ 31"
    and "\<forall>j. got j"
  shows "\<exists>s'. toi_load_extent_chain rd got empty_chain s = Some (0, c\<lparr>last_touched := None\<rparr>, s') \<and>
    ahead s' rest"
proof -
  let ?hdr = "int_bytes (chain_size c) @ int_bytes (num_extents c)"
  have c: "s32 (chain_size c) = chain_size c" "s32 (num_extents c) = num_extents c"
    "num_extents c = int (length (extents c))"
    using assms(2,3) by (simp_all add: wf_chain_def)
  obtain s1 where "rd s 8 = Some (0, ?hdr, s1)" and "ahead s1 (concat (map extent_bytes (extents c)) @ rest)"
    using rd_chunkE [of s ?hdr "concat (map extent_bytes (extents c)) @ rest" 8] assms(1)
    by (auto simp: chain_bytes_def)
  moreover from load_extents_source [OF this(2) assms(4), of 0] obtain s2
    where "load_extents rd got 0 (length (extents c)) s1 = Some (0, extents c, s2)" and "ahead s2 rest"
    by blast
  ultimately show ?thesis
    using c by (cases c) (auto simp: toi_load_extent_chain_def empty_chain_def Let_def)
qed

end

end
