(* ===== verification/TOI_Block_IO.thy ===== *)
theory TOI_Block_IO
  imports TOI_State TOI_Extent
begin

text \<open>
  Block I/O (\<open>tuxonice_block_io.c\<close>): byte streams buffered into pages, and pages placed on the
  blocks that the extent iterator visits.

  The disk maps a device and a sector to the 512 bytes in it. A request is completed when it is
  submitted: the model is what one thread sees, and the completion interrupt runs at once. The
  page queues that the code links through \<open>page->private\<close> are lists. A page in the readahead list
  whose request was never submitted (it stays locked for ever) is \<open>None\<close>.

  What the kernel may refuse (a page allocation that is not retried, \<open>bio_add_page\<close>, a request)
  is decided by \<open>env_ok\<close>, a stream of outcomes of which \<open>env_n\<close> were used. The allocation that
  \<open>toi_bio_get_new_page\<close> retries until it succeeds is taken to succeed. \<open>None\<close> as a result is a \<open>BUG()\<close>,
  a wait that never ends, or an access through a null pointer.
\<close>

section \<open>Data\<close>

abbreviation (input) SECTOR_SIZE :: nat where "SECTOR_SIZE \<equiv> 512"
abbreviation (input) SECTORS_PER_PAGE :: nat where "SECTORS_PER_PAGE \<equiv> 8"

type_synonym bdev = nat
type_synonym disk = "bdev \<Rightarrow> ulong \<Rightarrow> byte list"

record toi_bdev_info =
  bdev :: bdev
  dev_t :: nat
  bmap_shift :: nat
  blocks_per_page :: nat
  ignored :: bool

text \<open>
  The static variables of the file, the variables it shares with the allocators
  (\<open>toi_writer_posn\<close> and its kin), the result bits, and the header accounts of the modules
  (\<open>header_used\<close>, \<open>header_requested\<close>). \<open>ra_pages\<close> counts the pages of allocation group 12. \<open>toi_io_done\<close>
  counts requests since the stream was opened, and the throttle is computed from it only, so that
  both are natural numbers.
\<close>

record bio_state =
  disk :: disk
  devinfo :: "toi_bdev_info list"
  posn :: toi_extent_iterate_state
  posn_save :: "hibernate_extent_iterate_saved_state list"
  current_stream :: nat
  extra_page_forward :: bool
  writer_buffer :: "page option"
  writer_buffer_posn :: nat
  bio_queue :: "page list"
  readahead_list :: "page option list"
  more_readahead :: bool
  throughput_throttle :: nat
  target_outstanding_io :: int
  io_done :: nat
  ra_pages :: int
  unowned :: int
  total_header_bytes :: int
  header_used :: "nat \<Rightarrow> int"
  header_requested :: "nat \<Rightarrow> int"
  results :: "toi_result_bit set"
  actions :: "toi_action_bit set"
  queue_flusher :: bool
  env_ok :: "nat \<Rightarrow> bool"
  env_n :: nat

definition zero_page :: page where "zero_page = replicate PAGE_SIZE 0"

definition consult :: "bio_state \<Rightarrow> bool \<times> bio_state" where
  "consult st = (env_ok st (env_n st), st\<lparr>env_n := Suc (env_n st)\<rparr>)"

section \<open>The disk\<close>

definition disk_read :: "disk \<Rightarrow> bdev \<Rightarrow> ulong \<Rightarrow> page" where
  "disk_read dsk d s = concat (map (\<lambda>i. dsk d (s + of_nat i)) [0 ..< SECTORS_PER_PAGE])"

definition disk_write :: "disk \<Rightarrow> bdev \<Rightarrow> ulong \<Rightarrow> page \<Rightarrow> disk" where
  "disk_write dsk d s p =
     (\<lambda>d' s'. if d' = d \<and> unat (s' - s) < SECTORS_PER_PAGE
              then take SECTOR_SIZE (drop (SECTOR_SIZE * unat (s' - s)) p) else dsk d' s')"

section \<open>Submitting a page\<close>

text \<open>
  \<open>submit\<close> and the completion routine \<open>toi_end_bio\<close>: the return code and the contents of the
  page afterwards.
\<close>

definition submit :: "bool \<Rightarrow> bdev \<Rightarrow> ulong \<Rightarrow> page \<Rightarrow> bio_state \<Rightarrow> (int \<times> page \<times> bio_state) option" where
  "submit writing d first_block page st =
     (let (added, st1) = consult st
      in if \<not> added then Some (- EFAULT, page, st1)
         else if TOI_TEST_FILTER_SPEED \<in> actions st1 then Some (0, page, st1\<lparr>io_done := io_done st1 + 1\<rparr>)
         else let (uptodate, st2) = consult st1; st3 = st2\<lparr>io_done := io_done st2 + 1\<rparr>
              in if \<not> uptodate then None
                 else if writing then Some (0, page, st3\<lparr>disk := disk_write (disk st3) d first_block page\<rparr>)
                 else Some (0, disk_read (disk st3) d first_block, st3))"

text \<open>\<open>toi_do_io\<close>; a readahead page is linked into the list before the request is submitted.\<close>

definition toi_do_io ::
    "bool \<Rightarrow> bdev \<Rightarrow> ulong \<Rightarrow> page \<Rightarrow> bool \<Rightarrow> bio_state \<Rightarrow> (int \<times> page \<times> bio_state) option" where
  "toi_do_io writing d block0 page is_readahead st = do {
     (ret, page', st1) \<leftarrow> submit writing d block0 page st;
     let st2 = (if is_readahead
                then st1\<lparr>readahead_list := readahead_list st1 @ [if ret = 0 then Some page' else None]\<rparr>
                else st1);
     Some (if ret \<noteq> 0 then - EFAULT else 0, page', st2)
   }"

definition toi_bdev_page_io :: "bool \<Rightarrow> bdev \<Rightarrow> ulong \<Rightarrow> page \<Rightarrow> bio_state \<Rightarrow> (int \<times> page \<times> bio_state) option" where
  "toi_bdev_page_io writing d pos page st = toi_do_io writing d pos page False st"

text \<open>The caller counts its calls from 1; a division by 0 is a fault.\<close>

definition update_throughput_throttle :: "nat \<Rightarrow> bio_state \<Rightarrow> bio_state option" where
  "update_throughput_throttle jif_index st =
     (if jif_index = 0 then None else Some (st\<lparr>throughput_throttle := io_done st div jif_index div 5\<rparr>))"

definition toi_set_devinfo :: "toi_bdev_info list \<Rightarrow> bio_state \<Rightarrow> bio_state" where
  "toi_set_devinfo info st = st\<lparr>devinfo := info\<rparr>"

section \<open>Going forward on the tape\<close>

definition debug_broken_header :: "bio_state \<Rightarrow> int \<times> bio_state" where
  "debug_broken_header st = (- EIO, st\<lparr>results := set_abort_result TOI_HEADER_TOO_BIG (results st)\<rparr>)"

text \<open>
  The blocks per page of a chain. At the end of file the code reads the entry after the last one;
  its value does not matter, as the iterator does not move then.
\<close>

definition chain_blocks_per_page :: "bio_state \<Rightarrow> int \<Rightarrow> nat" where
  "chain_blocks_per_page st n =
     (if n = -1 then 1
      else if n < int (length (devinfo st)) then blocks_per_page (devinfo st ! nat n) else 0)"

definition compare_to :: "nat \<Rightarrow> nat" where
  "compare_to stream = (if stream = 0 then 2 else if stream = 1 then 3 else if stream = 2 then 1 else 0)"

text \<open>
  The test for the last page of a stream. \<open>compare_offset\<close> is an \<open>int\<close>, so the saved offset is
  truncated to 32 bits and sign extended for the comparison.
\<close>

definition at_barrier :: "bio_state \<Rightarrow> bool" where
  "at_barrier st =
     (let saved = posn_save st ! compare_to (current_stream st);
          compare_offset = s32 (uint (saved_offset saved))
      in current_chain (posn st) = chain_num saved \<and> current_offset (posn st) = of_int compare_offset)"

fun next_blocks :: "nat \<Rightarrow> toi_extent_iterate_state \<Rightarrow> toi_extent_iterate_state option" where
  "next_blocks 0 p = Some p"
| "next_blocks (Suc n) p = do { (v, p') \<leftarrow> toi_extent_state_next p; next_blocks n p' }"

text \<open>\<open>go_next_page\<close> up to the test of \<open>extra_page_forward\<close>.\<close>

definition go_one_page :: "bool \<Rightarrow> bool \<Rightarrow> bio_state \<Rightarrow> (int \<times> bio_state) option" where
  "go_one_page writing section_barrier st =
     (if section_barrier \<and> at_barrier st \<and> writing \<and> current_stream st = 0
      then Some (debug_broken_header st)
      else if section_barrier \<and> at_barrier st \<and> \<not> writing
      then Some (- ENODATA, st\<lparr>more_readahead := False\<rparr>)
      else do {
        p \<leftarrow> next_blocks (chain_blocks_per_page st (current_chain (posn st))) (posn st);
        let st1 = st\<lparr>posn := p\<rparr>;
        Some (if toi_extent_state_eof p then - ENODATA else 0, st1)
      })"

text \<open>The recursive call is made with the flag cleared, so it is made at most once.\<close>

definition go_next_page :: "bool \<Rightarrow> bool \<Rightarrow> bio_state \<Rightarrow> (int \<times> bio_state) option" where
  "go_next_page writing section_barrier st = do {
     (ret, st1) \<leftarrow> go_one_page writing section_barrier st;
     if ret \<noteq> 0 then Some (ret, st1)
     else if extra_page_forward st1
     then go_one_page writing section_barrier (st1\<lparr>extra_page_forward := False\<rparr>)
     else Some (0, st1)
   }"

definition set_extra_page_forward :: "bio_state \<Rightarrow> bio_state" where
  "set_extra_page_forward st = st\<lparr>extra_page_forward := True\<rparr>"

text \<open>\<open>toi_bio_rw_page\<close>. \<open>None\<close> also stands for a chain without device information.\<close>

definition toi_bio_rw_page :: "bool \<Rightarrow> page \<Rightarrow> bool \<Rightarrow> bio_state \<Rightarrow> (int \<times> bio_state) option" where
  "toi_bio_rw_page writing page is_readahead st = do {
     (result, st1) \<leftarrow> go_next_page writing True st;
     if result \<noteq> 0 then Some (result, st1)
     else if current_chain (posn st1) < 0 \<or> int (length (devinfo st1)) \<le> current_chain (posn st1) then None
     else do {
       let dev_info = devinfo st1 ! nat (current_chain (posn st1));
       (ret, page', st2) \<leftarrow> toi_do_io writing (bdev dev_info)
           (push_bit (bmap_shift dev_info) (current_offset (posn st1))) page is_readahead st1;
       Some (ret, st2)
     }
   }"

section \<open>Streams\<close>

definition toi_rw_init :: "bool \<Rightarrow> nat \<Rightarrow> bio_state \<Rightarrow> (int \<times> bio_state) option" where
  "toi_rw_init writing stream_number st = do {
     p \<leftarrow> (if stream_number \<noteq> 0
           then toi_extent_state_restore (posn st) (posn_save st ! stream_number)
           else Some (toi_extent_state_goto_start (posn st)));
     let (got, st1) = consult st;
     Some (if got then 0 else - ENOMEM,
       st1\<lparr>posn := p, io_done := 0, writer_buffer := (if got then Some zero_page else None),
           writer_buffer_posn := (if writing then 0 else PAGE_SIZE),
           current_stream := stream_number, more_readahead := True\<rparr>)
   }"

definition toi_read_header_init :: "bio_state \<Rightarrow> bio_state" where
  "toi_read_header_init st =
     (let (got, st1) = consult st
      in st1\<lparr>writer_buffer := (if got then Some zero_page else None), more_readahead := True\<rparr>)"

text \<open>\<open>toi_bio_queue_write(&toi_writer_buffer)\<close>.\<close>

definition toi_bio_queue_write :: "bio_state \<Rightarrow> bio_state option" where
  "toi_bio_queue_write st =
     (case writer_buffer st of
        None \<Rightarrow> None
      | Some page \<Rightarrow> Some (st\<lparr>bio_queue := bio_queue st @ [page], writer_buffer := None\<rparr>))"

text \<open>
  \<open>toi_bio_queue_flush_pages(0)\<close>: after an error the remaining pages are freed without being
  submitted.
\<close>

fun flush_pages :: "page list \<Rightarrow> int \<Rightarrow> bio_state \<Rightarrow> (int \<times> bio_state) option" where
  "flush_pages [] result st = Some (result, st)"
| "flush_pages (page # pages) result st = do {
     let st1 = st\<lparr>bio_queue := pages\<rparr>;
     (result', st2) \<leftarrow> (if result = 0 then toi_bio_rw_page True page False st1 else Some (result, st1));
     flush_pages pages result' st2
   }"

definition toi_bio_queue_flush_pages :: "bio_state \<Rightarrow> (int \<times> bio_state) option" where
  "toi_bio_queue_flush_pages st = flush_pages (bio_queue st) 0 st"

text \<open>
  \<open>throttle_if_needed\<close> without \<open>MEMORY_ONLY\<close>: no request is in flight here, so that what is
  outstanding is the queue, and flushing it once brings it under the limit.
\<close>

definition throttle_if_needed :: "bio_state \<Rightarrow> (int \<times> bio_state) option" where
  "throttle_if_needed st =
     (if throughput_throttle st \<noteq> 0 \<and> throughput_throttle st \<le> length (bio_queue st)
      then toi_bio_queue_flush_pages st else Some (0, st))"

definition toi_finish_all_io :: "bio_state \<Rightarrow> (int \<times> bio_state) option" where
  "toi_finish_all_io st = toi_bio_queue_flush_pages st"

definition toi_rw_cleanup :: "bool \<Rightarrow> bio_state \<Rightarrow> (int \<times> bio_state) option" where
  "toi_rw_cleanup writing st = do {
     (result, st1) \<leftarrow>
       (if writing then do {
          st1 \<leftarrow> (if writer_buffer_posn st \<noteq> 0 \<and> TOI_ABORTED \<notin> results st
                 then toi_bio_queue_write st else Some st);
          (result, st2) \<leftarrow> toi_bio_queue_flush_pages st1;
          if result \<noteq> 0 then Some (result, st2)
          else if current_stream st2 = 2 then do {
            saved \<leftarrow> toi_extent_state_save (posn st2);
            Some (0, st2\<lparr>posn_save := (posn_save st2)[1 := saved]\<rparr>)
          }
          else if current_stream st2 = 1 then do {
            saved \<leftarrow> toi_extent_state_save (posn st2);
            Some (0, st2\<lparr>posn_save := (posn_save st2)[3 := saved]\<rparr>)
          }
          else Some (0, st2)
        }
        else Some (0, st));
     if writing \<and> result \<noteq> 0 then Some (result, st1)
     else do {
       (result, st3) \<leftarrow> toi_finish_all_io st1;
       Some (result, st3\<lparr>ra_pages := ra_pages st3 - int (length (readahead_list st3)),
                         readahead_list := [], current_stream := 0\<rparr>)
     }
   }"

section \<open>Readahead\<close>

text \<open>
  \<open>toi_start_one_readahead\<close>. The allocation is tried again once, and by a dedicated thread for
  ever. The page is not freed when \<open>toi_bio_rw_page\<close> finds that the stream has ended.
\<close>

partial_function (option) wait_for_page :: "bio_state \<Rightarrow> bio_state option" where
  "wait_for_page st = (let (got, st1) = consult st in if got then Some st1 else wait_for_page st1)"

definition toi_start_one_readahead :: "bool \<Rightarrow> bio_state \<Rightarrow> (int \<times> bio_state) option" where
  "toi_start_one_readahead dedicated_thread st = do {
     (result, st1) \<leftarrow> throttle_if_needed st;
     if result \<noteq> 0 then Some (result, st1)
     else do {
       let (got1, st2) = consult st1;
       let (got2, st3) = (if got1 then (True, st2) else consult st2);
       if \<not> got2 \<and> \<not> dedicated_thread then Some (- ENOMEM, st3)
       else do {
         st4 \<leftarrow> (if got2 then Some st3 else wait_for_page st3);
         toi_bio_rw_page False zero_page True (st4\<lparr>ra_pages := ra_pages st4 + 1\<rparr>)
       }
     }
   }"

partial_function (option) readahead_loop :: "bool \<Rightarrow> int \<Rightarrow> bio_state \<Rightarrow> (int \<times> bio_state) option" where
  "readahead_loop dedicated_thread num_submitted st =
     Option.bind (toi_start_one_readahead dedicated_thread st) (\<lambda>(last_result, st1).
       if last_result = - ENOMEM \<or> last_result = - ENODATA then Some (0, st1)
       else let n = (if last_result = 0 then num_submitted + 1 else num_submitted)
            in if more_readahead st1 \<and> last_result = 0 \<and>
                  (dedicated_thread \<or> n < target_outstanding_io st1 \<and> 0 < target_outstanding_io st1)
               then readahead_loop dedicated_thread n st1
               else Some (last_result, st1))"

definition toi_start_new_readahead :: "bool \<Rightarrow> bio_state \<Rightarrow> (int \<times> bio_state) option" where
  "toi_start_new_readahead dedicated_thread st =
     (if \<not> more_readahead st then Some (0, st) else readahead_loop dedicated_thread 0 st)"

definition toi_bio_get_next_page_read :: "bool \<Rightarrow> bio_state \<Rightarrow> (int \<times> bio_state) option" where
  "toi_bio_get_next_page_read no_readahead st = do {
     (r1, st1) \<leftarrow> (if no_readahead then toi_start_one_readahead False st else Some (0, st));
     if r1 \<noteq> 0 then Some (- EIO, st1)
     else do {
       (r2, st2) \<leftarrow>
         (if readahead_list st1 = []
          then if \<not> more_readahead st1 then None else toi_start_one_readahead False st1
          else Some (0, st1));
       if r2 \<noteq> 0 then Some (- EIO, st2)
       else case readahead_list st2 of
              Some page # rest \<Rightarrow>
                (case writer_buffer st2 of
                   None \<Rightarrow> None
                 | Some _ \<Rightarrow> Some (0, st2\<lparr>writer_buffer := Some page, readahead_list := rest,
                                         ra_pages := ra_pages st2 - 1\<rparr>))
            | _ \<Rightarrow> None
     }
   }"

section \<open>The buffer\<close>

definition toi_bio_get_new_page :: "bio_state \<Rightarrow> (int \<times> bio_state) option" where
  "toi_bio_get_new_page st = do {
     (result, st1) \<leftarrow> throttle_if_needed st;
     if result \<noteq> 0 then Some (result, st1)
     else Some (0, if writer_buffer st1 = None then st1\<lparr>writer_buffer := Some zero_page\<rparr> else st1)
   }"

definition put_bytes :: "page \<Rightarrow> nat \<Rightarrow> byte list \<Rightarrow> page" where
  "put_bytes buf n bs = take n buf @ bs @ drop (n + length bs) buf"

text \<open>\<open>toi_rw_buffer\<close>, writing and reading.\<close>

function rw_buffer_write :: "byte list \<Rightarrow> bio_state \<Rightarrow> (int \<times> bio_state) option" where
  "rw_buffer_write bs st =
     (if bs = [] then Some (0, st)
      else case writer_buffer st of
             None \<Rightarrow> None
           | Some buf \<Rightarrow>
               let at = writer_buffer_posn st; capacity = PAGE_SIZE - at
               in if length bs \<le> capacity
                  then Some (0, st\<lparr>writer_buffer := Some (put_bytes buf at bs), writer_buffer_posn := at + length bs\<rparr>)
                  else do {
                    st1 \<leftarrow> toi_bio_queue_write (st\<lparr>writer_buffer := Some (put_bytes buf at (take capacity bs))\<rparr>);
                    (result, st2) \<leftarrow> toi_bio_get_new_page st1;
                    if result \<noteq> 0 then Some (result, st2)
                    else rw_buffer_write (drop capacity bs) (st2\<lparr>writer_buffer_posn := 0\<rparr>)
                  })"
  by pat_completeness auto
termination
  by (relation "measures [\<lambda>(bs, st). length bs, \<lambda>(bs, st). writer_buffer_posn st]") auto

declare rw_buffer_write.simps [simp del]

function rw_buffer_read :: "bool \<Rightarrow> nat \<Rightarrow> bio_state \<Rightarrow> (int \<times> byte list \<times> bio_state) option" where
  "rw_buffer_read no_readahead n st =
     (if n = 0 then Some (0, [], st)
      else case writer_buffer st of
             None \<Rightarrow> None
           | Some buf \<Rightarrow>
               let at = writer_buffer_posn st; capacity = PAGE_SIZE - at
               in if n \<le> capacity then Some (0, take n (drop at buf), st\<lparr>writer_buffer_posn := at + n\<rparr>)
                  else do {
                    let got = take capacity (drop at buf);
                    (result, st1) \<leftarrow> toi_bio_get_next_page_read no_readahead st;
                    if result \<noteq> 0 then Some (result, got, st1)
                    else do {
                      (result, bs, st2) \<leftarrow>
                        rw_buffer_read no_readahead (n - capacity) (st1\<lparr>writer_buffer_posn := 0\<rparr>);
                      Some (result, got @ bs, st2)
                    }
                  })"
  by pat_completeness auto
termination
  by (relation "measures [\<lambda>(r, n, st). n, \<lambda>(r, n, st). writer_buffer_posn st]") auto

declare rw_buffer_read.simps [simp del]

section \<open>Image pages and the header\<close>

text \<open>
  \<open>toi_bio_write_page\<close>: the pfn, the size and that many bytes of the page go to the stream, unless
  the cycle was aborted.
\<close>

definition toi_bio_write_page :: "ulong \<Rightarrow> byte list \<Rightarrow> bio_state \<Rightarrow> (int \<times> bio_state) option" where
  "toi_bio_write_page pfn buf st =
     (if TOI_TEST_FILTER_SPEED \<in> actions st then Some (0, st)
      else if TOI_ABORTED \<in> results st then Some (- EIO, st)
      else do {
        (r1, st1) \<leftarrow> rw_buffer_write (ulong_bytes pfn) st;
        (r2, st2) \<leftarrow> (if r1 = 0 then rw_buffer_write (int_bytes (int (length buf))) st1 else Some (r1, st1));
        (r3, st3) \<leftarrow> (if r2 = 0 then rw_buffer_write buf st2 else Some (r2, st2));
        let result = (if r3 \<noteq> 0 then - EIO else 0);
        (result2, st4) \<leftarrow> (if queue_flusher st3 then toi_bio_queue_flush_pages st3 else Some (0, st3));
        Some (if result \<noteq> 0 then result else result2, st4)
      })"

text \<open>
  \<open>toi_bio_read_page\<close>: the return code, the pfn and the bytes of the page. A size above
  \<open>PAGE_SIZE\<close> would be copied over the end of the caller's page: \<open>None\<close>.
\<close>

definition toi_bio_read_page :: "bio_state \<Rightarrow> (int \<times> ulong \<times> byte list \<times> bio_state) option" where
  "toi_bio_read_page st = do {
     (result2, st0) \<leftarrow> (if queue_flusher st then toi_start_new_readahead False st else Some (0, st));
     if result2 \<noteq> 0 then Some (- EIO, 0, [], st0)
     else do {
       (r1, b1, st1) \<leftarrow> rw_buffer_read False SIZEOF_LONG st0;
       (r2, b2, st2) \<leftarrow> (if r1 = 0 then rw_buffer_read False SIZEOF_INT st1 else Some (r1, [], st1));
       if r2 = 0 \<and> PAGE_SIZE < le_nat b2 then None
       else do {
         (r3, b3, st3) \<leftarrow> (if r2 = 0 then rw_buffer_read False (le_nat b2) st2 else Some (r2, [], st2));
         if r3 \<noteq> 0
         then Some (1, bytes_ulong b1, b3, st3\<lparr>results := set_abort_result TOI_FAILED_IO (results st3)\<rparr>)
         else Some (0, bytes_ulong b1, b3, st3)
       }
     }
   }"

text \<open>
  The account of a header chunk in \<open>_toi_rw_header_chunk\<close>: \<open>True\<close> when the module stays within
  what it asked for.
\<close>

definition header_account :: "nat option \<Rightarrow> nat \<Rightarrow> bio_state \<Rightarrow> bool \<times> bio_state" where
  "header_account owner n st =
     (case owner of
        Some m \<Rightarrow>
          let used = header_used st m + int n; st1 = st\<lparr>header_used := (header_used st)(m := used)\<rparr>
          in (used \<le> header_requested st m, st1)
      | None \<Rightarrow> (True, st\<lparr>unowned := unowned st + int n\<rparr>))"

definition toi_write_header_chunk :: "nat option \<Rightarrow> bio_state \<Rightarrow> byte list \<Rightarrow> (int \<times> bio_state) option" where
  "toi_write_header_chunk owner st bs =
     (let (fits, st1) = header_account owner (length bs) st
      in if \<not> fits then Some (int (length bs), st1)
         else do {
           (result, st2) \<leftarrow> rw_buffer_write bs st1;
           Some (result, st2\<lparr>total_header_bytes := total_header_bytes st2 + int (length bs)\<rparr>)
         })"

definition toi_read_header_chunk ::
    "bool \<Rightarrow> nat option \<Rightarrow> bio_state \<Rightarrow> nat \<Rightarrow> (int \<times> byte list \<times> bio_state) option" where
  "toi_read_header_chunk no_readahead owner st n =
     (let (fits, st1) = header_account owner n st
      in if \<not> fits then Some (int n, [], st1)
         else do {
           (result, st2) \<leftarrow> (if \<not> no_readahead then toi_start_new_readahead False st1 else Some (0, st1));
           (result, bs, st3) \<leftarrow>
             (if result = 0 then rw_buffer_read no_readahead n st2 else Some (result, [], st2));
           Some (result, bs, st3\<lparr>total_header_bytes := total_header_bytes st3 + int n\<rparr>)
         })"

definition write_header_chunk_finish :: "bio_state \<Rightarrow> (int \<times> bio_state) option" where
  "write_header_chunk_finish st = do {
     st1 \<leftarrow> (if writer_buffer_posn st \<noteq> 0 then toi_bio_queue_write st else Some st);
     (result, st2) \<leftarrow> toi_finish_all_io st1;
     Some (result, st2\<lparr>unowned := 0, total_header_bytes := 0\<rparr>)
   }"

section \<open>The module's other operations\<close>

definition toi_bio_storage_needed :: int where "toi_bio_storage_needed = int SIZEOF_INT"

definition toi_bio_save_config_info :: "bio_state \<Rightarrow> byte list" where
  "toi_bio_save_config_info st = int_bytes (target_outstanding_io st)"

definition toi_bio_load_config_info :: "byte list \<Rightarrow> bio_state \<Rightarrow> bio_state" where
  "toi_bio_load_config_info buf st = st\<lparr>target_outstanding_io := bytes_int (take SIZEOF_INT buf)\<rparr>"

definition toi_bio_initialise :: "bool \<Rightarrow> bio_state \<Rightarrow> int \<times> bio_state" where
  "toi_bio_initialise starting_cycle st = (0, if starting_cycle then st\<lparr>queue_flusher := True\<rparr> else st)"

definition toi_bio_cleanup :: "bio_state \<Rightarrow> bio_state" where
  "toi_bio_cleanup st = st\<lparr>writer_buffer := None\<rparr>"

end
