(* ===== verification/TOI_Block_Stream.thy ===== *)
theory TOI_Block_Stream
  imports TOI_Block_IO
begin

text \<open>
  The byte streams of \<open>tuxonice_block_io.c\<close> as seen from outside. The position on the tape is
  separated from the rest of the state (\<open>geom\<close>), and the pages a stream occupies are the slots
  it visits. The lemmas show that bytes written to a stream are, once it is flushed, on the disk at
  the slots the reader of the same stream visits, so that they are read back; they also interpret
  the header interface of the extent and bitmap theories on the header chunks.
\<close>

section \<open>Geometry\<close>

type_synonym slot = "bdev \<times> ulong"

record geom =
  g_posn :: toi_extent_iterate_state
  g_save :: "hibernate_extent_iterate_saved_state list"
  g_stream :: nat
  g_dev :: "toi_bdev_info list"
  g_extra :: bool

definition geom_of :: "bio_state \<Rightarrow> geom" where
  "geom_of st = \<lparr>g_posn = posn st, g_save = posn_save st, g_stream = current_stream st,
     g_dev = devinfo st, g_extra = extra_page_forward st\<rparr>"

definition set_geom :: "geom \<Rightarrow> bio_state \<Rightarrow> bio_state" where
  "set_geom g st = st\<lparr>posn := g_posn g, extra_page_forward := g_extra g\<rparr>"

definition g_bpp :: "geom \<Rightarrow> nat" where
  "g_bpp g = (let n = current_chain (g_posn g) in
     if n = -1 then 1 else if n < int (length (g_dev g)) then blocks_per_page (g_dev g ! nat n) else 0)"

definition g_barrier :: "geom \<Rightarrow> bool" where
  "g_barrier g =
     (let saved = g_save g ! compare_to (g_stream g)
      in current_chain (g_posn g) = chain_num saved \<and>
         current_offset (g_posn g) = of_int (s32 (uint (saved_offset saved))))"

text \<open>The next page of the stream, unless the stream ends here.\<close>

definition g_step :: "bool \<Rightarrow> geom \<Rightarrow> geom option" where
  "g_step writing g =
     (if g_barrier g \<and> (\<not> writing \<or> g_stream g = 0) then None
      else case next_blocks (g_bpp g) (g_posn g) of
             None \<Rightarrow> None
           | Some p \<Rightarrow> if toi_extent_state_eof p then None else Some (g\<lparr>g_posn := p\<rparr>))"

definition advance :: "bool \<Rightarrow> geom \<Rightarrow> geom option" where
  "advance writing g = do {
     g1 \<leftarrow> g_step writing g;
     if g_extra g1 then g_step writing (g1\<lparr>g_extra := False\<rparr>) else Some g1
   }"

definition slot_of :: "geom \<Rightarrow> slot" where
  "slot_of g = (let d = g_dev g ! nat (current_chain (g_posn g))
     in (bdev d, push_bit (bmap_shift d) (current_offset (g_posn g))))"

definition has_slot :: "geom \<Rightarrow> bool" where
  "has_slot g \<longleftrightarrow> 0 \<le> current_chain (g_posn g) \<and> current_chain (g_posn g) < int (length (g_dev g))"

text \<open>The next \<open>k\<close> slots and the position after them.\<close>

fun run :: "bool \<Rightarrow> nat \<Rightarrow> geom \<Rightarrow> (slot list \<times> geom) option" where
  "run writing 0 g = Some ([], g)"
| "run writing (Suc k) g = do {
     g1 \<leftarrow> advance writing g;
     (ss, g2) \<leftarrow> (if has_slot g1 then run writing k g1 else None);
     Some (slot_of g1 # ss, g2)
   }"

text \<open>Nothing the kernel is asked for fails, and requests reach the disk.\<close>

definition good :: "bio_state \<Rightarrow> bool" where
  "good st \<longleftrightarrow> (\<forall>n. env_ok st n) \<and> TOI_TEST_FILTER_SPEED \<notin> actions st"

lemma geom_of_simps [simp]:
  "geom_of (st\<lparr>disk := d\<rparr>) = geom_of st" "geom_of (st\<lparr>writer_buffer := b\<rparr>) = geom_of st"
  "geom_of (st\<lparr>writer_buffer_posn := n\<rparr>) = geom_of st" "geom_of (st\<lparr>bio_queue := q\<rparr>) = geom_of st"
  "geom_of (st\<lparr>readahead_list := r\<rparr>) = geom_of st" "geom_of (st\<lparr>more_readahead := m\<rparr>) = geom_of st"
  "geom_of (st\<lparr>io_done := k\<rparr>) = geom_of st" "geom_of (st\<lparr>ra_pages := i\<rparr>) = geom_of st"
  "geom_of (st\<lparr>unowned := i\<rparr>) = geom_of st" "geom_of (st\<lparr>total_header_bytes := i\<rparr>) = geom_of st"
  "geom_of (st\<lparr>header_used := h\<rparr>) = geom_of st" "geom_of (st\<lparr>results := rs\<rparr>) = geom_of st"
  "geom_of (st\<lparr>env_n := n\<rparr>) = geom_of st"
  by (simp_all add: geom_of_def)

lemma good_simps [simp]:
  "good (st\<lparr>disk := d\<rparr>) = good st" "good (st\<lparr>writer_buffer := b\<rparr>) = good st"
  "good (st\<lparr>writer_buffer_posn := n\<rparr>) = good st" "good (st\<lparr>bio_queue := q\<rparr>) = good st"
  "good (st\<lparr>readahead_list := r\<rparr>) = good st" "good (st\<lparr>more_readahead := m\<rparr>) = good st"
  "good (st\<lparr>io_done := k\<rparr>) = good st" "good (st\<lparr>ra_pages := i\<rparr>) = good st"
  "good (st\<lparr>unowned := i\<rparr>) = good st" "good (st\<lparr>total_header_bytes := i\<rparr>) = good st"
  "good (st\<lparr>header_used := h\<rparr>) = good st" "good (st\<lparr>results := rs\<rparr>) = good st"
  "good (st\<lparr>env_n := n\<rparr>) = good st" "good (set_geom g st) = good st"
  by (simp_all add: good_def set_geom_def)

lemma geom_of_reads [simp]:
  "g_bpp (geom_of st) = chain_blocks_per_page st (current_chain (posn st))"
  "g_barrier (geom_of st) = at_barrier st" "g_posn (geom_of st) = posn st"
  "g_stream (geom_of st) = current_stream st" "g_extra (geom_of st) = extra_page_forward st"
  by (simp_all add: geom_of_def g_bpp_def chain_blocks_per_page_def g_barrier_def at_barrier_def)

lemma go_one_page_step:
  assumes "g_step writing (geom_of st) = Some g"
  shows "go_one_page writing True st = Some (0, st\<lparr>posn := g_posn g\<rparr>)" and "g = (geom_of st)\<lparr>g_posn := g_posn g\<rparr>"
  using assms
  by (auto simp: g_step_def go_one_page_def split: if_splits option.splits)

lemma go_next_page_advance:
  assumes "advance writing (geom_of st) = Some g"
  shows "go_next_page writing True st = Some (0, set_geom g st)" and "geom_of (set_geom g st) = g"
proof -
  obtain g1 where g1: "g_step writing (geom_of st) = Some g1"
    using assms by (auto simp: advance_def split: Option.bind_splits)
  note s1 = go_one_page_step [OF g1]
  show "go_next_page writing True st = Some (0, set_geom g st)" "geom_of (set_geom g st) = g"
  proof (atomize(full), cases "g_extra g1")
    case False
    with assms g1 have "g = g1" by (simp add: advance_def)
    with s1 False show "go_next_page writing True st = Some (0, set_geom g st) \<and> geom_of (set_geom g st) = g"
      by (cases g1) (auto simp: go_next_page_def set_geom_def geom_of_def)
  next
    case True
    let ?st1 = "st\<lparr>posn := g_posn g1, extra_page_forward := False\<rparr>"
    have "geom_of ?st1 = g1\<lparr>g_extra := False\<rparr>"
      using s1(2) by (cases g1) (simp add: geom_of_def)
    with assms g1 True have "g_step writing (geom_of ?st1) = Some g" by (simp add: advance_def)
    note s2 = go_one_page_step [OF this]
    show "go_next_page writing True st = Some (0, set_geom g st) \<and> geom_of (set_geom g st) = g"
      using s1 s2 True by (cases g; cases g1) (auto simp: go_next_page_def set_geom_def geom_of_def)
  qed
qed

section \<open>Reading what was written\<close>

definition slot_apart :: "slot \<Rightarrow> slot \<Rightarrow> bool" where
  "slot_apart a b \<longleftrightarrow> fst a \<noteq> fst b \<or>
     SECTORS_PER_PAGE \<le> unat (snd a - snd b) \<and> SECTORS_PER_PAGE \<le> unat (snd b - snd a)"

definition slots_apart :: "slot list \<Rightarrow> bool" where
  "slots_apart ss = sorted_wrt slot_apart ss"

abbreviation slot_page :: "disk \<Rightarrow> slot \<Rightarrow> page" where
  "slot_page dsk sl \<equiv> disk_read dsk (fst sl) (snd sl)"

lemma slot_apart_sym: "slot_apart a b \<Longrightarrow> slot_apart b a"
  by (auto simp: slot_apart_def)

lemma slots_apart_append:
  "slots_apart (xs @ ys) \<longleftrightarrow> slots_apart xs \<and> slots_apart ys \<and> (\<forall>x \<in> set xs. \<forall>y \<in> set ys. slot_apart x y)"
  by (simp add: slots_apart_def sorted_wrt_append)

lemma slots_apart_Cons: "slots_apart (x # xs) \<longleftrightarrow> slots_apart xs \<and> (\<forall>y \<in> set xs. slot_apart x y)"
  by (auto simp: slots_apart_def)

lemma concat_sectors:
  "length p = 512 * n \<Longrightarrow> concat (map (\<lambda>i. take 512 (drop (512 * i) p)) [0 ..< n]) = p"
proof (induction n arbitrary: p)
  case (Suc n)
  have "concat (map (\<lambda>i. take 512 (drop (512 * i) (take (512 * n) p))) [0 ..< n]) = take (512 * n) p"
    using Suc.prems by (intro Suc.IH) simp
  moreover have "map (\<lambda>i. take 512 (drop (512 * i) (take (512 * n) p))) [0 ..< n] =
      map (\<lambda>i. take 512 (drop (512 * i) p)) [0 ..< n]"
    by (intro map_cong) (simp_all add: drop_take min_def)
  moreover have "take 512 (drop (512 * n) p) = drop (512 * n) p"
    using Suc.prems by simp
  ultimately show ?case by simp
qed simp

lemma unat_small: "i < 8 \<Longrightarrow> unat (of_nat i :: ulong) = i"
  by (simp add: unat_of_nat)

lemma disk_read_write_same:
  assumes "length p = PAGE_SIZE"
  shows "disk_read (disk_write dsk d s p) d s = p"
proof -
  have "disk_read (disk_write dsk d s p) d s = concat (map (\<lambda>i. take 512 (drop (512 * i) p)) [0 ..< 8])"
    unfolding disk_read_def by (intro arg_cong [where f = concat] map_cong)
      (auto simp: disk_write_def unat_small simp del: upt_Suc)
  then show ?thesis using assms by (simp add: concat_sectors)
qed

lemma sector_apart:
  fixes s t :: ulong
  assumes "8 \<le> unat (s - t)" and "8 \<le> unat (t - s)" and i: "i < 8"
  shows "8 \<le> unat (t + of_nat i - s)"
proof (rule ccontr)
  assume "\<not> ?thesis"
  then obtain j where j: "j < 8" "t + of_nat i - s = of_nat j"
    by (metis linorder_not_le of_nat_unat ucast_id)
  then have diff: "t - s = of_nat j - of_nat i" by (simp add: algebra_simps)
  show False
  proof (cases "i \<le> j")
    case True
    with diff have "t - s = of_nat (j - i)" by (simp add: of_nat_diff)
    with assms(2) j(1) show False by (simp add: unat_of_nat)
  next
    case False
    with diff have "s - t = of_nat (i - j)" by (simp add: of_nat_diff algebra_simps)
    with assms(1) i show False by (simp add: unat_of_nat)
  qed
qed

lemma disk_read_write_other:
  assumes "slot_apart (d, s) (d', s')"
  shows "disk_read (disk_write dsk d s p) d' s' = disk_read dsk d' s'"
proof -
  have "disk_write dsk d s p d' (s' + of_nat i) = dsk d' (s' + of_nat i)" if "i < 8" for i
    using assms sector_apart [of s s' i] that by (auto simp: slot_apart_def disk_write_def)
  then have "map (\<lambda>i. disk_write dsk d s p d' (s' + of_nat i)) [0 ..< 8] =
      map (\<lambda>i. dsk d' (s' + of_nat i)) [0 ..< 8]"
    by (intro map_cong) (simp_all del: upt_Suc)
  then show ?thesis by (simp only: disk_read_def)
qed

text \<open>Pages written one after the other to slots that are apart.\<close>

fun write_slots :: "disk \<Rightarrow> slot list \<Rightarrow> page list \<Rightarrow> disk" where
  "write_slots dsk (sl # ss) (p # ps) = write_slots (disk_write dsk (fst sl) (snd sl) p) ss ps"
| "write_slots dsk _ _ = dsk"

lemma write_slots_other:
  "\<forall>y \<in> set ss. slot_apart x y \<Longrightarrow> slot_page (write_slots dsk ss ps) x = slot_page dsk x"
proof (induction dsk ss ps rule: write_slots.induct)
  case (1 dsk sl ss p ps)
  have "slot_page (disk_write dsk (fst sl) (snd sl) p) x = slot_page dsk x"
    using 1(2) slot_apart_sym [of x sl] disk_read_write_other [of "fst sl" "snd sl" "fst x" "snd x"] by simp
  with 1 show ?case by simp
qed simp_all

lemma write_slots_same:
  "slots_apart ss \<Longrightarrow> length ss = length ps \<Longrightarrow> \<forall>p \<in> set ps. length p = PAGE_SIZE \<Longrightarrow>
     map (slot_page (write_slots dsk ss ps)) ss = ps"
proof (induction dsk ss ps rule: write_slots.induct)
  case (1 dsk sl ss p ps)
  then show ?case
    using write_slots_other [of ss sl "disk_write dsk (fst sl) (snd sl) p" ps]
    by (simp add: slots_apart_Cons disk_read_write_same)
qed simp_all

text \<open>Every sector of the disk holds 512 bytes.\<close>

definition wf_disk :: "disk \<Rightarrow> bool" where
  "wf_disk dsk \<longleftrightarrow> (\<forall>d s. length (dsk d s) = SECTOR_SIZE)"

lemma length_slot_page: "wf_disk dsk \<Longrightarrow> length (slot_page dsk sl) = PAGE_SIZE"
  by (simp add: wf_disk_def disk_read_def upt_rec)

lemma wf_disk_write: "wf_disk dsk \<Longrightarrow> length p = PAGE_SIZE \<Longrightarrow> wf_disk (disk_write dsk d s p)"
  by (simp add: wf_disk_def disk_write_def)

lemma wf_disk_write_slots:
  "wf_disk dsk \<Longrightarrow> \<forall>p \<in> set ps. length p = PAGE_SIZE \<Longrightarrow> wf_disk (write_slots dsk ss ps)"
  by (induction dsk ss ps rule: write_slots.induct) (simp_all add: wf_disk_write)

section \<open>Flushing the queue\<close>

text \<open>What submitting pages leaves alone: everything but the fields reset here.\<close>

definition frame :: "bio_state \<Rightarrow> bio_state" where
  "frame st = st\<lparr>disk := \<lambda>_ _. [], posn := \<lparr>chains = [], current_chain = 0, current_extent = None, current_offset = 0\<rparr>,
     extra_page_forward := False, io_done := 0, env_n := 0, bio_queue := []\<rparr>"

lemma frame_eqD:
  assumes "frame a = frame b"
  shows "writer_buffer a = writer_buffer b" "writer_buffer_posn a = writer_buffer_posn b"
    "readahead_list a = readahead_list b" "more_readahead a = more_readahead b" "results a = results b"
    "good a = good b" "posn_save a = posn_save b" "current_stream a = current_stream b"
    "devinfo a = devinfo b" "ra_pages a = ra_pages b" "header_used a = header_used b"
    "header_requested a = header_requested b" "unowned a = unowned b" "queue_flusher a = queue_flusher b"
    "throughput_throttle a = throughput_throttle b" "target_outstanding_io a = target_outstanding_io b"
    "actions a = actions b" "total_header_bytes a = total_header_bytes b"
  using assms by (cases a; cases b; simp add: frame_def good_def)+

lemma frame_simps [simp]:
  "frame (st\<lparr>disk := d\<rparr>) = frame st" "frame (st\<lparr>posn := p\<rparr>) = frame st"
  "frame (st\<lparr>extra_page_forward := x\<rparr>) = frame st" "frame (st\<lparr>io_done := k\<rparr>) = frame st"
  "frame (st\<lparr>env_n := n\<rparr>) = frame st" "frame (st\<lparr>bio_queue := q\<rparr>) = frame st"
  "frame (set_geom g st) = frame st"
  by (simp_all add: frame_def set_geom_def)

lemma set_geom_simps [simp]:
  "disk (set_geom g st) = disk st" "bio_queue (set_geom g st) = bio_queue st"
  "posn (set_geom g st) = g_posn g" "devinfo (set_geom g st) = devinfo st"
  "readahead_list (set_geom g st) = readahead_list st" "ra_pages (set_geom g st) = ra_pages st"
  "more_readahead (set_geom g st) = more_readahead st"
  by (simp_all add: set_geom_def)

lemma g_dev_of [simp]: "g_dev (geom_of st) = devinfo st"
  by (simp add: geom_of_def)

lemma advance_dev: "advance writing g = Some g' \<Longrightarrow> g_dev g' = g_dev g"
  by (auto simp: advance_def g_step_def split: Option.bind_splits if_splits option.splits)

lemma rw_page_write:
  assumes good: "good st" and adv: "advance True (geom_of st) = Some g" and slot: "has_slot g"
  shows "\<exists>st'. toi_bio_rw_page True page False st = Some (0, st') \<and> geom_of st' = g \<and>
    disk st' = disk_write (disk st) (fst (slot_of g)) (snd (slot_of g)) page \<and>
    bio_queue st' = bio_queue st \<and> frame st' = frame st"
proof -
  let ?st1 = "set_geom g st"
  note nxt = go_next_page_advance [OF adv]
  have dev: "g_dev g = devinfo st" using advance_dev [OF adv] by simp
  have "(\<forall>n. env_ok ?st1 n) \<and> TOI_TEST_FILTER_SPEED \<notin> actions ?st1"
    using good good_simps(14) [of g st] by (simp add: good_def)
  with nxt slot show ?thesis
    by (auto simp: toi_bio_rw_page_def toi_do_io_def submit_def consult_def Let_def has_slot_def
        slot_of_def dev)
qed

lemma flush_pages_run:
  assumes "good st" and "run True (length ps) (geom_of st) = Some (ss, g)" and "bio_queue st = ps"
  shows "\<exists>st'. flush_pages ps 0 st = Some (0, st') \<and> geom_of st' = g \<and>
    disk st' = write_slots (disk st) ss ps \<and> bio_queue st' = [] \<and> frame st' = frame st"
  using assms
proof (induction ps arbitrary: st ss)
  case (Cons p ps)
  let ?st = "st\<lparr>bio_queue := ps\<rparr>"
  obtain g1 ss' where adv: "advance True (geom_of ?st) = Some g1" and slot: "has_slot g1"
    and rest: "run True (length ps) g1 = Some (ss', g)" and ss: "ss = slot_of g1 # ss'"
    using Cons.prems(2) by (auto split: Option.bind_splits if_splits)
  obtain st1 where st1: "toi_bio_rw_page True p False ?st = Some (0, st1)" "geom_of st1 = g1"
    "disk st1 = disk_write (disk st) (fst (slot_of g1)) (snd (slot_of g1)) p"
    "bio_queue st1 = ps" "frame st1 = frame st"
    using rw_page_write [OF _ adv slot, of p] Cons.prems(1) by auto
  have "good st1" using frame_eqD(6) [OF st1(5)] Cons.prems(1) by simp
  from Cons.IH [OF this _ st1(4), of ss'] st1 rest ss show ?case by auto
qed auto

lemma queue_flush_run:
  assumes "good st" and "run True (length (bio_queue st)) (geom_of st) = Some (ss, g)"
  shows "\<exists>st'. toi_bio_queue_flush_pages st = Some (0, st') \<and> geom_of st' = g \<and>
    disk st' = write_slots (disk st) ss (bio_queue st) \<and> bio_queue st' = [] \<and> frame st' = frame st"
  using flush_pages_run [OF assms refl] by (simp add: toi_bio_queue_flush_pages_def)

section \<open>Writing a stream\<close>

lemma run_length: "run w k g = Some (ss, g') \<Longrightarrow> length ss = k"
  by (induction k arbitrary: g ss) (auto split: Option.bind_splits if_splits)

lemma run_Suc_iff:
  "run w (Suc k) g = Some (x # xs, g') \<longleftrightarrow>
     (\<exists>g1. advance w g = Some g1 \<and> has_slot g1 \<and> x = slot_of g1 \<and> run w k g1 = Some (xs, g'))"
  by (auto split: Option.bind_splits if_splits)

lemma run_append:
  "run w (length A + n) g = Some (A @ B, g') \<longleftrightarrow>
     (\<exists>g1. run w (length A) g = Some (A, g1) \<and> run w n g1 = Some (B, g'))"
proof (induction A arbitrary: g)
  case (Cons a A)
  have "run w (length (a # A) + n) g = Some ((a # A) @ B, g') \<longleftrightarrow>
      (\<exists>g1. advance w g = Some g1 \<and> has_slot g1 \<and> a = slot_of g1 \<and> run w (length A + n) g1 = Some (A @ B, g'))"
    using run_Suc_iff [of w "length A + n" g a "A @ B" g'] by simp
  then show ?case unfolding Cons.IH length_Cons run_Suc_iff by blast
qed simp

lemma run_split:
  assumes "run w (m + n) g = Some (ss, g')"
  obtains A B g1 where "ss = A @ B" and "length A = m" and "run w m g = Some (A, g1)"
    and "run w n g1 = Some (B, g')"
proof -
  have len: "length (take m ss) = m"
    using run_length [OF assms] by simp
  with assms run_append [of w "take m ss" n g "drop m ss" g'] obtain g1
    where "run w m g = Some (take m ss, g1)" and "run w n g1 = Some (drop m ss, g')" by auto
  with len show ?thesis by (intro that [of "take m ss" "drop m ss" g1]) simp_all
qed

text \<open>
  A stream that began at position \<open>g0\<close>: the slots \<open>U\<close> are written, the pages in the queue are
  not yet; there are slots \<open>F\<close> for these and for \<open>n\<close> bytes more. \<open>acc\<close> is what was handed over
  so far.
\<close>

definition wcore :: "geom \<Rightarrow> bio_state \<Rightarrow> nat \<Rightarrow> byte list \<Rightarrow> bool" where
  "wcore g0 st n acc \<longleftrightarrow> good st \<and> wf_disk (disk st) \<and>
     (\<exists>U F g'. run True (length U) g0 = Some (U, geom_of st) \<and>
        run True (length F) (geom_of st) = Some (F, g') \<and> slots_apart (U @ F) \<and>
        (\<forall>p \<in> set (bio_queue st). length p = PAGE_SIZE) \<and>
        acc = concat (map (slot_page (disk st)) U) @ concat (bio_queue st) \<and>
        PAGE_SIZE * length (bio_queue st) + n \<le> PAGE_SIZE * length F)"

text \<open>The same with the bytes in the buffer.\<close>

definition wstream :: "geom \<Rightarrow> bio_state \<Rightarrow> nat \<Rightarrow> byte list \<Rightarrow> bool" where
  "wstream g0 st n acc \<longleftrightarrow>
     (\<exists>buf acc0. writer_buffer st = Some buf \<and> length buf = PAGE_SIZE \<and> writer_buffer_posn st \<le> PAGE_SIZE \<and>
        wcore g0 st (writer_buffer_posn st + n) acc0 \<and> acc = acc0 @ take (writer_buffer_posn st) buf)"

lemma wcore_simps [simp]:
  "wcore g0 (st\<lparr>writer_buffer := b\<rparr>) = wcore g0 st" "wcore g0 (st\<lparr>writer_buffer_posn := k\<rparr>) = wcore g0 st"
  "wcore g0 (st\<lparr>unowned := i\<rparr>) = wcore g0 st" "wcore g0 (st\<lparr>total_header_bytes := i\<rparr>) = wcore g0 st"
  "wcore g0 (st\<lparr>header_used := h\<rparr>) = wcore g0 st"
  by (simp_all add: wcore_def fun_eq_iff)

lemma wcore_push:
  assumes "wcore g0 st n acc" and "length p = PAGE_SIZE" and "PAGE_SIZE \<le> n"
  shows "wcore g0 (st\<lparr>bio_queue := bio_queue st @ [p]\<rparr>) (n - PAGE_SIZE) (acc @ p)"
  using assms by (auto simp: wcore_def)

lemma wcore_flush:
  assumes "wcore g0 st n acc"
  shows "\<exists>st'. toi_bio_queue_flush_pages st = Some (0, st') \<and> wcore g0 st' n acc \<and>
    bio_queue st' = [] \<and> frame st' = frame st"
proof -
  obtain U F g' where inv: "run True (length U) g0 = Some (U, geom_of st)"
    "run True (length F) (geom_of st) = Some (F, g')" "slots_apart (U @ F)"
    "\<forall>p \<in> set (bio_queue st). length p = PAGE_SIZE"
    "acc = concat (map (slot_page (disk st)) U) @ concat (bio_queue st)"
    "PAGE_SIZE * length (bio_queue st) + n \<le> PAGE_SIZE * length F"
    and good: "good st" and wfd: "wf_disk (disk st)"
    using assms by (auto simp: wcore_def)
  define m where "m = length F - length (bio_queue st)"
  have "length F = length (bio_queue st) + m" using inv(6) by (simp add: m_def)
  with inv(2) obtain A B g1 where F: "F = A @ B" "length A = length (bio_queue st)"
    "run True (length (bio_queue st)) (geom_of st) = Some (A, g1)" "run True m g1 = Some (B, g')"
    using run_split by metis
  obtain st' where st': "toi_bio_queue_flush_pages st = Some (0, st')" "geom_of st' = g1"
    "disk st' = write_slots (disk st) A (bio_queue st)" "bio_queue st' = []" "frame st' = frame st"
    using queue_flush_run [OF good F(3)] by blast
  have "run True (length (U @ A)) g0 = Some (U @ A, g1)"
    using inv(1) F(2,3) run_append [of True U "length A" g0 A g1] by simp
  moreover have "run True (length B) g1 = Some (B, g')"
    using F(4) run_length [OF F(4)] by simp
  moreover have "map (slot_page (disk st')) U = map (slot_page (disk st)) U"
    using inv(3) by (intro map_cong) (auto simp: st'(3) F(1) slots_apart_append intro: write_slots_other)
  moreover have "map (slot_page (disk st')) A = bio_queue st"
    unfolding st'(3) by (rule write_slots_same) (use inv(3,4) F(1,2) in \<open>simp_all add: slots_apart_append\<close>)
  moreover have "n \<le> PAGE_SIZE * length B"
    using inv(6) F(1,2) by simp
  moreover have "good st' \<and> wf_disk (disk st')"
    using frame_eqD(6) [OF st'(5)] good wf_disk_write_slots [OF wfd inv(4)] by (simp add: st'(3))
  ultimately have "wcore g0 st' n acc"
    using inv(3,5) st'(2,4) F(1) unfolding wcore_def
    by - (rule conjI, erule conjunct1, rule conjI, erule conjunct2, rule exI [of _ "U @ A"], rule exI [of _ B], rule exI [of _ g'],
        simp del: map_eq_conv)
  with st' show ?thesis by blast
qed

text \<open>What handing over bytes leaves alone: the frame without the buffer.\<close>

definition bframe :: "bio_state \<Rightarrow> bio_state" where
  "bframe st = (frame st)\<lparr>writer_buffer := None, writer_buffer_posn := 0\<rparr>"

lemma bframe_eqD:
  assumes "bframe a = bframe b"
  shows "results a = results b" "good a = good b" "posn_save a = posn_save b"
    "current_stream a = current_stream b" "devinfo a = devinfo b" "header_used a = header_used b"
    "header_requested a = header_requested b" "queue_flusher a = queue_flusher b" "actions a = actions b"
    "readahead_list a = readahead_list b" "more_readahead a = more_readahead b"
  using assms by (cases a; cases b; simp add: bframe_def frame_def good_def)+

lemma bframe_simps [simp]:
  "bframe (st\<lparr>writer_buffer := b\<rparr>) = bframe st" "bframe (st\<lparr>writer_buffer_posn := n\<rparr>) = bframe st"
  "bframe (st\<lparr>bio_queue := q\<rparr>) = bframe st"
  by (simp_all add: bframe_def frame_def)

lemma frame_bframe: "frame a = frame b \<Longrightarrow> bframe a = bframe b"
  by (simp add: bframe_def)

lemma wcore_throttle:
  assumes "wcore g0 st n acc"
  shows "\<exists>st'. throttle_if_needed st = Some (0, st') \<and> wcore g0 st' n acc \<and> frame st' = frame st"
  using assms wcore_flush [OF assms] by (auto simp: throttle_if_needed_def)

lemma length_put_bytes [simp]: "n + length bs \<le> length buf \<Longrightarrow> length (put_bytes buf n bs) = length buf"
  by (simp add: put_bytes_def)

lemma take_put_bytes:
  "n \<le> length buf \<Longrightarrow> take (n + length bs) (put_bytes buf n bs) = take n buf @ bs"
  by (simp add: put_bytes_def)

text \<open>A full page goes to the queue and the buffer is replaced.\<close>

lemma next_write_page:
  assumes "wstream g0 st n acc" and "writer_buffer st = Some buf" and "capacity = PAGE_SIZE - writer_buffer_posn st"
    and "capacity \<le> length bs" and "length bs \<le> n"
  shows "\<exists>st1 st2. toi_bio_queue_write (st\<lparr>writer_buffer := Some (put_bytes buf (writer_buffer_posn st) (take capacity bs))\<rparr>) = Some st1 \<and>
    toi_bio_get_new_page st1 = Some (0, st2) \<and>
    wstream g0 (st2\<lparr>writer_buffer_posn := 0\<rparr>) (n - capacity) (acc @ take capacity bs) \<and> bframe st2 = bframe st"
proof -
  let ?at = "writer_buffer_posn st"
  let ?full = "put_bytes buf ?at (take capacity bs)"
  let ?st1 = "st\<lparr>bio_queue := bio_queue st @ [?full], writer_buffer := None\<rparr>"
  obtain acc0 where at: "?at \<le> PAGE_SIZE" "length buf = PAGE_SIZE" "wcore g0 st (?at + n) acc0"
    "acc = acc0 @ take ?at buf"
    using assms(1,2) by (auto simp: wstream_def)
  have len: "length (take capacity bs) = capacity" "?at + capacity = PAGE_SIZE"
    using assms(3,4) at(1) by simp_all
  have full: "length ?full = PAGE_SIZE" "?full = take ?at buf @ take capacity bs"
    using len at(2) take_put_bytes [of ?at buf "take capacity bs"] by simp_all
  have "wcore g0 (st\<lparr>bio_queue := bio_queue st @ [?full]\<rparr>) (?at + n - PAGE_SIZE) (acc0 @ ?full)"
    by (rule wcore_push [OF at(3) full(1)]) (use len assms(4,5) in linarith)
  moreover have "?at + n - PAGE_SIZE = n - capacity" using len assms(4,5) by linarith
  ultimately have core: "wcore g0 ?st1 (n - capacity) (acc @ take capacity bs)"
    by (simp add: at(4) full(2))
  obtain st2 where st2: "throttle_if_needed ?st1 = Some (0, st2)" "wcore g0 st2 (n - capacity) (acc @ take capacity bs)"
    "frame st2 = frame ?st1"
    using wcore_throttle [OF core] by blast
  have "writer_buffer st2 = None" using frame_eqD(1) [OF st2(3)] by simp
  moreover have "bframe st2 = bframe st" using frame_bframe [OF st2(3)] by simp
  ultimately show ?thesis
    using st2 by (auto simp: toi_bio_queue_write_def toi_bio_get_new_page_def wstream_def zero_page_def)
qed

lemma rw_buffer_write_stream:
  assumes "wstream g0 st n acc" and "length bs \<le> n"
  shows "\<exists>st'. rw_buffer_write bs st = Some (0, st') \<and> wstream g0 st' (n - length bs) (acc @ bs) \<and>
    bframe st' = bframe st"
  using assms
proof (induction bs st arbitrary: n acc rule: rw_buffer_write.induct)
  case (1 bs st)
  obtain buf acc0 where buf: "writer_buffer st = Some buf" "length buf = PAGE_SIZE" "writer_buffer_posn st \<le> PAGE_SIZE"
    "wcore g0 st (writer_buffer_posn st + n) acc0" "acc = acc0 @ take (writer_buffer_posn st) buf"
    using "1.prems"(1) by (auto simp: wstream_def)
  let ?at = "writer_buffer_posn st"
  let ?cap = "PAGE_SIZE - ?at"
  note unfold = rw_buffer_write.simps [of bs st]
  show ?case
  proof (cases "bs = []")
    case True
    with "1.prems" unfold show ?thesis by simp
  next
    case ne: False
    show ?thesis
    proof (cases "length bs \<le> ?cap")
      case True
      then have room: "?at + length bs \<le> PAGE_SIZE" "?at + length bs + (n - length bs) = ?at + n"
        using buf(3) "1.prems"(2) ne by auto
      with True ne buf "1.prems" show ?thesis
        by (auto simp: unfold Let_def wstream_def take_put_bytes add.assoc)
    next
      case False
      then obtain st1 st2 where step: "toi_bio_queue_write (st\<lparr>writer_buffer := Some (put_bytes buf ?at (take ?cap bs))\<rparr>) = Some st1"
        "toi_bio_get_new_page st1 = Some (0, st2)"
        "wstream g0 (st2\<lparr>writer_buffer_posn := 0\<rparr>) (n - ?cap) (acc @ take ?cap bs)" "bframe st2 = bframe st"
        using next_write_page [OF "1.prems"(1) buf(1) refl _ "1.prems"(2)] by auto
      have "\<exists>st'. rw_buffer_write (drop ?cap bs) (st2\<lparr>writer_buffer_posn := 0\<rparr>) = Some (0, st') \<and>
          wstream g0 st' (n - ?cap - length (drop ?cap bs)) ((acc @ take ?cap bs) @ drop ?cap bs) \<and>
          bframe st' = bframe (st2\<lparr>writer_buffer_posn := 0\<rparr>)"
        by (rule "1.IH" [OF ne buf(1) refl refl False step(1,2) refl _ step(3)])
          (use "1.prems"(2) in simp_all)
      moreover have "n - ?cap - length (drop ?cap bs) = n - length bs"
        using False "1.prems"(2) by simp
      ultimately show ?thesis
        using ne False buf(1) step by (auto simp: unfold Let_def)
    qed
  qed
qed

lemma wstream_simps [simp]:
  "wstream g0 (st\<lparr>unowned := i\<rparr>) = wstream g0 st" "wstream g0 (st\<lparr>total_header_bytes := i\<rparr>) = wstream g0 st"
  "wstream g0 (st\<lparr>header_used := h\<rparr>) = wstream g0 st"
  by (simp_all add: wstream_def fun_eq_iff)

lemma write_header_chunk_stream:
  assumes "wstream g0 st n acc" and "length bs \<le> n"
  shows "\<exists>st'. toi_write_header_chunk None st bs = Some (0, st') \<and> wstream g0 st' (n - length bs) (acc @ bs)"
  using rw_buffer_write_stream [of g0 "st\<lparr>unowned := unowned st + int (length bs)\<rparr>" n acc bs] assms
  by (auto simp: toi_write_header_chunk_def header_account_def)

interpretation hdr_out: header_sink "toi_write_header_chunk None" "wstream g0" for g0
  by unfold_locales (rule write_header_chunk_stream)

text \<open>Closing a stream: the last page goes out as it is, and everything is on the disk.\<close>

lemma wcore_round: "wcore g0 st n acc \<Longrightarrow> 0 < n \<Longrightarrow> n \<le> PAGE_SIZE \<Longrightarrow> wcore g0 st PAGE_SIZE acc"
  unfolding wcore_def
proof (elim conjE exE, intro conjI, goal_cases)
  case (3 U F g')
  then have "length (bio_queue st) < length F" by simp
  then have "PAGE_SIZE * length (bio_queue st) + PAGE_SIZE \<le> PAGE_SIZE * length F" by simp
  with 3 show ?case by blast
qed

lemma wcore_mono: "wcore g0 st n acc \<Longrightarrow> m \<le> n \<Longrightarrow> wcore g0 st m acc"
  by (fastforce simp: wcore_def)

definition on_disk :: "geom \<Rightarrow> bio_state \<Rightarrow> slot list \<Rightarrow> byte list \<Rightarrow> bool" where
  "on_disk g0 st U bs \<longleftrightarrow> wf_disk (disk st) \<and> run True (length U) g0 = Some (U, geom_of st) \<and> slots_apart U \<and>
     concat (map (slot_page (disk st)) U) = bs"

lemma wcore_on_disk: "wcore g0 st n acc \<Longrightarrow> bio_queue st = [] \<Longrightarrow> \<exists>U. on_disk g0 st U acc"
  by (auto simp: wcore_def on_disk_def slots_apart_append)

lemma finish_stream:
  assumes "wstream g0 st n acc"
  shows "\<exists>st1 st2 U pad. (if writer_buffer_posn st \<noteq> 0 then toi_bio_queue_write st else Some st) = Some st1 \<and>
    toi_bio_queue_flush_pages st1 = Some (0, st2) \<and> bio_queue st2 = [] \<and> bframe st2 = bframe st \<and>
    on_disk g0 st2 U (acc @ pad) \<and> length pad < PAGE_SIZE"
proof -
  obtain buf acc0 where buf: "writer_buffer st = Some buf" "length buf = PAGE_SIZE" "writer_buffer_posn st \<le> PAGE_SIZE"
    "wcore g0 st (writer_buffer_posn st + n) acc0" "acc = acc0 @ take (writer_buffer_posn st) buf"
    using assms by (auto simp: wstream_def)
  show ?thesis
  proof (cases "writer_buffer_posn st = 0")
    case True
    with buf have core: "wcore g0 st n acc" by simp
    from wcore_flush [OF core] obtain st2 where st2: "toi_bio_queue_flush_pages st = Some (0, st2)"
      "wcore g0 st2 n acc" "bio_queue st2 = []" "frame st2 = frame st" by blast
    obtain U where U: "on_disk g0 st2 U (acc @ [])" using wcore_on_disk [OF st2(2,3)] by auto
    have "length ([] :: byte list) < PAGE_SIZE" by simp
    with True st2(1,3) U frame_bframe [OF st2(4)] show ?thesis by metis
  next
    case False
    let ?st1 = "st\<lparr>bio_queue := bio_queue st @ [buf], writer_buffer := None\<rparr>"
    have "wcore g0 st (writer_buffer_posn st) acc0"
      by (rule wcore_mono [OF buf(4)]) simp
    with False buf(3) have "wcore g0 st PAGE_SIZE acc0"
      by (intro wcore_round) simp_all
    from wcore_push [OF this buf(2)] have core: "wcore g0 ?st1 0 (acc0 @ buf)" by simp
    from wcore_flush [OF core] obtain st2 where st2: "toi_bio_queue_flush_pages ?st1 = Some (0, st2)"
      "wcore g0 st2 0 (acc0 @ buf)" "bio_queue st2 = []" "frame st2 = frame ?st1" by blast
    moreover have "acc0 @ buf = acc @ drop (writer_buffer_posn st) buf" by (simp add: buf(5))
    moreover have "bframe st2 = bframe st" using frame_bframe [OF st2(4)] by simp
    moreover have "length (drop (writer_buffer_posn st) buf) < PAGE_SIZE" using False buf(2,3) by simp
    moreover obtain U where "on_disk g0 st2 U (acc0 @ buf)" using wcore_on_disk [OF st2(2,3)] by blast
    moreover have "toi_bio_queue_write st = Some ?st1" by (simp add: toi_bio_queue_write_def buf(1))
    ultimately show ?thesis using False by metis
  qed
qed

section \<open>Reading a stream\<close>

definition wf_geom :: "geom \<Rightarrow> bool" where
  "wf_geom g \<longleftrightarrow> wf_state (g_posn g) \<and> length (g_dev g) = length (chains (g_posn g)) \<and>
     (\<forall>d \<in> set (g_dev g). 1 \<le> blocks_per_page d)"

lemma next_blocks_wf:
  assumes "wf_state p"
  shows "\<exists>p'. next_blocks n p = Some p' \<and> wf_state p' \<and> chains p' = chains p \<and>
    (0 < n \<longrightarrow> current_chain p' \<noteq> -1)"
  using assms
proof (induction n arbitrary: p)
  case (Suc n)
  have spec: "step_spec (todo p) (toi_extent_state_next p) (chains p)"
    by (rule extent_state_next_spec [OF Suc.prems])
  obtain v p1 where p1: "toi_extent_state_next p = Some (v, p1)" "wf_state p1" "chains p1 = chains p"
    "current_chain p1 \<noteq> -1"
  proof (cases "todo p")
    case Nil
    with spec that show ?thesis by (auto simp: step_spec_def toi_extent_state_eof_def num_chains_def)
  next
    case (Cons a ps)
    with spec that show ?thesis by (auto simp: step_spec_def on_block_def)
  qed
  with Suc.IH [OF p1(2)] show ?case by (cases n) auto
qed simp

lemma g_step_wf:
  assumes "wf_geom g" and "g_step w g = Some g'"
  shows "wf_geom g'" and "has_slot g'"
proof -
  let ?p = "g_posn g"
  obtain p where p: "next_blocks (g_bpp g) ?p = Some p" "\<not> toi_extent_state_eof p" "g' = g\<lparr>g_posn := p\<rparr>"
    using assms(2) by (auto simp: g_step_def split: if_splits option.splits)
  have wf: "wf_state ?p" "length (g_dev g) = length (chains ?p)" "\<forall>d \<in> set (g_dev g). 1 \<le> blocks_per_page d"
    using assms(1) by (simp_all add: wf_geom_def)
  have p': "wf_state p" "chains p = chains ?p" "0 < g_bpp g \<longrightarrow> current_chain p \<noteq> -1"
    using next_blocks_wf [OF wf(1), of "g_bpp g"] p(1) by auto
  show "wf_geom g'" using wf p' by (simp add: p(3) wf_geom_def)
  have "0 < g_bpp g \<or> p = ?p \<and> toi_extent_state_eof ?p"
  proof (cases "toi_extent_state_eof ?p")
    case True
    then have "g_bpp g = 0"
      using wf(2) by (simp add: g_bpp_def toi_extent_state_eof_def num_chains_def)
    with True p(1) show ?thesis by simp
  next
    case False
    then have "current_chain ?p < int (length (g_dev g))" "-1 \<le> current_chain ?p"
      using wf by (auto simp: wf_state_def toi_extent_state_eof_def num_chains_def)
    with wf(3) show ?thesis by (auto simp: g_bpp_def Let_def intro!: Suc_le_lessD)
  qed
  with p(2) p' wf(2) show "has_slot g'"
    by (auto simp: p(3) has_slot_def wf_state_def toi_extent_state_eof_def num_chains_def)
qed

lemma wf_geom_extra [simp]: "wf_geom (g\<lparr>g_extra := x\<rparr>) = wf_geom g"
  by (simp add: wf_geom_def)

lemma advance_wf:
  assumes "wf_geom g" and "advance w g = Some g'"
  shows "wf_geom g'" and "has_slot g'"
proof -
  obtain g1 where g1: "g_step w g = Some g1" using assms(2) by (auto simp: advance_def split: Option.bind_splits)
  note step1 = g_step_wf [OF assms(1) g1]
  show "wf_geom g'" "has_slot g'"
    using assms(2) g1 step1 g_step_wf [of "g1\<lparr>g_extra := False\<rparr>" w g']
    by (auto simp: advance_def split: if_splits)
qed

lemma go_one_page_end:
  assumes "wf_geom (geom_of st)" and "g_step False (geom_of st) = None"
  shows "\<exists>p m. go_one_page False True st = Some (- ENODATA, st\<lparr>posn := p, more_readahead := m\<rparr>) \<and>
    wf_geom (geom_of (st\<lparr>posn := p, more_readahead := m\<rparr>))"
proof (cases "at_barrier st")
  case True
  then have "go_one_page False True st = Some (- ENODATA, st\<lparr>posn := posn st, more_readahead := False\<rparr>)"
    by (simp add: go_one_page_def)
  moreover have "wf_geom (geom_of (st\<lparr>posn := posn st, more_readahead := False\<rparr>))" using assms(1) by simp
  ultimately show ?thesis by blast
next
  case False
  have wf: "wf_state (posn st)" using assms(1) by (simp add: wf_geom_def)
  obtain p where p: "next_blocks (chain_blocks_per_page st (current_chain (posn st))) (posn st) = Some p"
    "wf_state p" "chains p = chains (posn st)"
    using next_blocks_wf [OF wf] by blast
  with False assms(2) have "toi_extent_state_eof p"
    by (auto simp: g_step_def split: if_splits)
  with False p have "go_one_page False True st = Some (- ENODATA, st\<lparr>posn := p, more_readahead := more_readahead st\<rparr>)"
    by (simp add: go_one_page_def)
  moreover have "wf_geom (geom_of (st\<lparr>posn := p, more_readahead := more_readahead st\<rparr>))"
    using assms(1) p by (simp add: wf_geom_def geom_of_def)
  ultimately show ?thesis by blast
qed

lemma go_next_page_end:
  assumes "wf_geom (geom_of st)" and "advance False (geom_of st) = None"
  shows "\<exists>p x m. go_next_page False True st = Some (- ENODATA, st\<lparr>posn := p, extra_page_forward := x, more_readahead := m\<rparr>) \<and>
    wf_geom (geom_of (st\<lparr>posn := p, extra_page_forward := x, more_readahead := m\<rparr>))"
proof (cases "g_step False (geom_of st)")
  case None
  obtain p m where one: "go_one_page False True st = Some (- ENODATA, st\<lparr>posn := p, more_readahead := m\<rparr>)"
    "wf_geom (geom_of (st\<lparr>posn := p, more_readahead := m\<rparr>))"
    using go_one_page_end [OF assms(1) None] by blast
  have eq: "st\<lparr>posn := p, more_readahead := m\<rparr> =
      st\<lparr>posn := p, extra_page_forward := extra_page_forward st, more_readahead := m\<rparr>" by simp
  have "go_next_page False True st = Some (- ENODATA, st\<lparr>posn := p, more_readahead := m\<rparr>)"
    by (simp add: go_next_page_def one(1))
  with one(2) show ?thesis unfolding eq by blast
next
  case (Some g1)
  note step = go_one_page_step [OF Some] and wf1 = g_step_wf [OF assms(1) Some]
  let ?st = "st\<lparr>posn := g_posn g1, extra_page_forward := False\<rparr>"
  have g1x: "g_extra g1 = extra_page_forward st" by (subst step(2)) simp
  have extra: "extra_page_forward st" and none: "g_step False (g1\<lparr>g_extra := False\<rparr>) = None"
    using assms(2) Some g1x by (auto simp: advance_def split: if_splits)
  have geom: "geom_of ?st = g1\<lparr>g_extra := False\<rparr>" by (subst (2) step(2)) (simp add: geom_of_def)
  obtain p m where "go_one_page False True ?st = Some (- ENODATA, ?st\<lparr>posn := p, more_readahead := m\<rparr>)"
    "wf_geom (geom_of (?st\<lparr>posn := p, more_readahead := m\<rparr>))"
    using go_one_page_end [of ?st] wf1(1) none geom by auto
  moreover have "go_next_page False True st = go_one_page False True ?st"
    using step(1) extra by (simp add: go_next_page_def)
  moreover have "?st\<lparr>posn := p, more_readahead := m\<rparr> = st\<lparr>posn := p, extra_page_forward := False, more_readahead := m\<rparr>"
    by simp
  ultimately show ?thesis by metis
qed

text \<open>What readahead leaves alone.\<close>

definition rframe :: "bio_state \<Rightarrow> bio_state" where
  "rframe st = st\<lparr>posn := \<lparr>chains = [], current_chain = 0, current_extent = None, current_offset = 0\<rparr>,
     extra_page_forward := False, io_done := 0, env_n := 0, readahead_list := [], ra_pages := 0,
     more_readahead := False\<rparr>"

lemma rframe_eqD:
  assumes "rframe a = rframe b"
  shows "writer_buffer a = writer_buffer b" "writer_buffer_posn a = writer_buffer_posn b"
    "disk a = disk b" "bio_queue a = bio_queue b" "results a = results b" "good a = good b"
    "target_outstanding_io a = target_outstanding_io b" "queue_flusher a = queue_flusher b"
    "unowned a = unowned b" "actions a = actions b"
  using assms by (cases a; cases b; simp add: rframe_def good_def)+

lemma rframe_simps [simp]:
  "rframe (st\<lparr>posn := p\<rparr>) = rframe st" "rframe (st\<lparr>extra_page_forward := x\<rparr>) = rframe st"
  "rframe (st\<lparr>io_done := k\<rparr>) = rframe st" "rframe (st\<lparr>env_n := n\<rparr>) = rframe st"
  "rframe (st\<lparr>readahead_list := l\<rparr>) = rframe st" "rframe (st\<lparr>ra_pages := i\<rparr>) = rframe st"
  "rframe (st\<lparr>more_readahead := m\<rparr>) = rframe st" "rframe (set_geom g st) = rframe st"
  by (simp_all add: rframe_def set_geom_def)

lemma rw_page_read:
  assumes good: "good st" and adv: "advance False (geom_of st) = Some g" and slot: "has_slot g"
  shows "\<exists>st'. toi_bio_rw_page False page True st = Some (0, st') \<and> geom_of st' = g \<and>
    readahead_list st' = readahead_list st @ [Some (slot_page (disk st) (slot_of g))] \<and>
    more_readahead st' = more_readahead st \<and> ra_pages st' = ra_pages st \<and> rframe st' = rframe st"
proof -
  let ?st1 = "set_geom g st"
  note nxt = go_next_page_advance [OF adv]
  have dev: "g_dev g = devinfo st" using advance_dev [OF adv] by simp
  have "(\<forall>n. env_ok ?st1 n) \<and> TOI_TEST_FILTER_SPEED \<notin> actions ?st1"
    using good good_simps(14) [of g st] by (simp add: good_def)
  with nxt slot show ?thesis
    by (auto simp: toi_bio_rw_page_def toi_do_io_def submit_def consult_def Let_def has_slot_def
        slot_of_def dev)
qed

text \<open>
  A stream being read: the bytes \<open>bs\<close> start in the buffer, go on in the pages that were read
  ahead and in the slots \<open>F\<close>, which are still to be read.
\<close>

definition rstr :: "slot list \<Rightarrow> bio_state \<Rightarrow> byte list \<Rightarrow> bool" where
  "rstr F st bs \<longleftrightarrow> good st \<and> wf_geom (geom_of st) \<and> wf_disk (disk st) \<and> bio_queue st = [] \<and>
     (F \<noteq> [] \<longrightarrow> more_readahead st) \<and> (\<exists>g'. run False (length F) (geom_of st) = Some (F, g')) \<and>
     (\<exists>buf rl tail. writer_buffer st = Some buf \<and> length buf = PAGE_SIZE \<and> writer_buffer_posn st \<le> PAGE_SIZE \<and>
        readahead_list st = map Some rl \<and> (\<forall>p \<in> set rl. length p = PAGE_SIZE) \<and>
        drop (writer_buffer_posn st) buf @ concat rl @ concat (map (slot_page (disk st)) F) = bs @ tail)"

lemma rstrI:
  assumes "good st" "wf_geom (geom_of st)" "wf_disk (disk st)" "bio_queue st = []"
    "F \<noteq> [] \<Longrightarrow> more_readahead st" "run False (length F) (geom_of st) = Some (F, g')"
    "writer_buffer st = Some buf" "length buf = PAGE_SIZE" "writer_buffer_posn st \<le> PAGE_SIZE"
    "readahead_list st = map Some rl" "\<forall>p \<in> set rl. length p = PAGE_SIZE"
    "drop (writer_buffer_posn st) buf @ concat rl @ concat (map (slot_page (disk st)) F) = bs @ tail"
  shows "rstr F st bs"
  unfolding rstr_def using assms by blast

lemma rstr_simps [simp]:
  "rstr F (st\<lparr>unowned := i\<rparr>) = rstr F st" "rstr F (st\<lparr>total_header_bytes := i\<rparr>) = rstr F st"
  "rstr F (st\<lparr>ra_pages := i\<rparr>) = rstr F st" "rstr F (st\<lparr>env_n := n\<rparr>) = rstr F st"
  "rstr F (st\<lparr>header_used := h\<rparr>) = rstr F st"
  by (simp_all add: rstr_def fun_eq_iff)

lemma throttle_empty: "bio_queue st = [] \<Longrightarrow> throttle_if_needed st = Some (0, st)"
  by (simp add: throttle_if_needed_def toi_bio_queue_flush_pages_def)

lemma start_one_readahead_eq:
  assumes "good st" and "bio_queue st = []"
  shows "toi_start_one_readahead d st =
    toi_bio_rw_page False zero_page True (st\<lparr>env_n := Suc (env_n st), ra_pages := ra_pages st + 1\<rparr>)"
  using assms by (simp add: toi_start_one_readahead_def throttle_empty consult_def good_def)

lemma start_one_next:
  assumes "rstr (f # F) st bs"
  shows "\<exists>st'. toi_start_one_readahead d st = Some (0, st') \<and> rstr F st' bs \<and> rframe st' = rframe st \<and>
    readahead_list st' = readahead_list st @ [Some (slot_page (disk st) f)]"
proof -
  let ?st = "st\<lparr>env_n := Suc (env_n st), ra_pages := ra_pages st + 1\<rparr>"
  have inv: "good st" "wf_disk (disk st)" "bio_queue st = []" "more_readahead st" "wf_geom (geom_of st)"
    using assms by (auto simp: rstr_def)
  obtain g g' where g: "advance False (geom_of st) = Some g" "has_slot g" "f = slot_of g"
    "run False (length F) g = Some (F, g')"
    using assms run_Suc_iff [of False "length F" "geom_of st" f F] by (auto simp: rstr_def)
  obtain st' where st': "toi_bio_rw_page False zero_page True ?st = Some (0, st')" "geom_of st' = g"
    "readahead_list st' = readahead_list st @ [Some (slot_page (disk st) f)]"
    "more_readahead st' = more_readahead st" "rframe st' = rframe st"
    using rw_page_read [of ?st g zero_page] inv(1) g by auto
  note same = rframe_eqD [OF st'(5)]
  obtain buf rl tail where buf: "writer_buffer st = Some buf" "length buf = PAGE_SIZE" "writer_buffer_posn st \<le> PAGE_SIZE"
    "readahead_list st = map Some rl" "\<forall>p \<in> set rl. length p = PAGE_SIZE"
    "drop (writer_buffer_posn st) buf @ concat rl @ concat (map (slot_page (disk st)) (f # F)) = bs @ tail"
    using assms unfolding rstr_def by blast
  have "readahead_list st' = map Some (rl @ [slot_page (disk st) f])"
    "\<forall>p \<in> set (rl @ [slot_page (disk st) f]). length p = PAGE_SIZE"
    using st'(3) buf(4,5) length_slot_page [OF inv(2)] by auto
  moreover have "wf_geom g" by (rule advance_wf(1) [OF inv(5) g(1)])
  ultimately have "rstr F st' bs"
    using inv st'(2,4) same g(4) buf
    by (intro rstrI [where buf = buf and rl = "rl @ [slot_page (disk st) f]" and g' = g' and tail = tail]) simp_all
  with st' show ?thesis using start_one_readahead_eq [OF inv(1,3)] by auto
qed

lemma start_one_last:
  assumes "rstr [] st bs"
  shows "\<exists>r st'. toi_start_one_readahead d st = Some (r, st') \<and> rstr [] st' bs \<and> rframe st' = rframe st \<and>
    (r = 0 \<and> (\<exists>p. readahead_list st' = readahead_list st @ [Some p]) \<or>
     r = - ENODATA \<and> readahead_list st' = readahead_list st \<and> ra_pages st' = ra_pages st + 1)"
proof -
  let ?st = "st\<lparr>env_n := Suc (env_n st), ra_pages := ra_pages st + 1\<rparr>"
  have inv: "good st" "wf_disk (disk st)" "bio_queue st = []" "wf_geom (geom_of st)"
    using assms by (auto simp: rstr_def)
  obtain buf rl tail where buf: "writer_buffer st = Some buf" "length buf = PAGE_SIZE" "writer_buffer_posn st \<le> PAGE_SIZE"
    "readahead_list st = map Some rl" "\<forall>p \<in> set rl. length p = PAGE_SIZE"
    "drop (writer_buffer_posn st) buf @ concat rl = bs @ tail"
    using assms unfolding rstr_def by auto
  note eq = start_one_readahead_eq [OF inv(1,3), of d]
  show ?thesis
  proof (cases "advance False (geom_of st)")
    case (Some g)
    let ?p = "slot_page (disk st) (slot_of g)"
    obtain st' where st': "toi_bio_rw_page False zero_page True ?st = Some (0, st')" "geom_of st' = g"
      "readahead_list st' = readahead_list st @ [Some ?p]" "rframe st' = rframe st"
      using rw_page_read [of ?st g zero_page] inv(1) Some advance_wf [OF inv(4) Some] by auto
    note same = rframe_eqD [OF st'(4)]
    have list: "readahead_list st' = map Some (rl @ [?p])" "\<forall>p \<in> set (rl @ [?p]). length p = PAGE_SIZE"
      using st'(3) buf(4,5) length_slot_page [OF inv(2)] by auto
    have bytes: "drop (writer_buffer_posn st) buf @ concat (rl @ [?p]) @ concat (map (slot_page (disk st')) []) =
        bs @ (tail @ ?p)"
      using arg_cong [OF buf(6), of "\<lambda>l. l @ ?p"] by simp
    have "rstr [] st' bs"
      by (rule rstrI [OF _ _ _ _ _ _ _ buf(2) _ list, where tail = "tail @ ?p" and g' = g])
        (use inv st'(2) same buf advance_wf(1) [OF inv(4) Some] bytes in simp_all)
    with st' eq show ?thesis by auto
  next
    case None
    obtain p x m where last: "go_next_page False True ?st = Some (- ENODATA, ?st\<lparr>posn := p, extra_page_forward := x, more_readahead := m\<rparr>)"
      "wf_geom (geom_of (?st\<lparr>posn := p, extra_page_forward := x, more_readahead := m\<rparr>))"
      using go_next_page_end [of ?st] inv(4) None by auto
    let ?st' = "?st\<lparr>posn := p, extra_page_forward := x, more_readahead := m\<rparr>"
    have same: "rframe ?st' = rframe st" by simp
    have "rstr [] ?st' bs"
      by (rule rstrI [OF _ last(2) _ _ _ _ _ buf(2), where tail = tail and rl = rl])
        (use inv buf rframe_eqD(6) [OF same] in simp_all)
    moreover have "toi_start_one_readahead d st = Some (- ENODATA, ?st')"
      unfolding eq toi_bio_rw_page_def last(1) by simp
    ultimately show ?thesis using same by (intro exI conjI) (assumption | simp)+
  qed
qed

lemma start_one_rstr:
  assumes "rstr F st bs"
  shows "\<exists>r st' F'. toi_start_one_readahead d st = Some (r, st') \<and> rstr F' st' bs \<and> rframe st' = rframe st \<and>
    (r = 0 \<and> (\<exists>p. readahead_list st' = readahead_list st @ [Some p]) \<or>
     r = - ENODATA \<and> F = [] \<and> readahead_list st' = readahead_list st)"
proof (cases F)
  case Nil
  with start_one_last [of st bs d] assms show ?thesis by blast
next
  case (Cons f F')
  with start_one_next [of f F' st bs d] assms show ?thesis by blast
qed

text \<open>Topping up the readahead ends, and loses nothing.\<close>

lemma readahead_loop_rstr:
  assumes "rstr F st bs"
  shows "\<exists>st' F'. readahead_loop False n st = Some (0, st') \<and> rstr F' st' bs \<and> rframe st' = rframe st"
  using assms
proof (induction "nat (target_outstanding_io st - n)" arbitrary: n st F rule: less_induct)
  case less
  obtain r st1 F1 where step: "toi_start_one_readahead False st = Some (r, st1)" "rstr F1 st1 bs"
    "rframe st1 = rframe st" "r = 0 \<or> r = - ENODATA"
    using start_one_rstr [OF less.prems, of False] by blast
  note same = rframe_eqD [OF step(3)]
  show ?case
  proof (cases "r = 0 \<and> more_readahead st1 \<and> n + 1 < target_outstanding_io st1 \<and> 0 < target_outstanding_io st1")
    case True
    then have "nat (target_outstanding_io st1 - (n + 1)) < nat (target_outstanding_io st - n)"
      by (simp add: same(7))
    from less.hyps [OF this step(2)] obtain st2 F2
      where "readahead_loop False (n + 1) st1 = Some (0, st2)" "rstr F2 st2 bs" "rframe st2 = rframe st1"
      by blast
    with True step show ?thesis by (subst readahead_loop.simps) auto
  next
    case False
    with step show ?thesis by (subst readahead_loop.simps) (auto simp: Let_def)
  qed
qed

lemma start_new_readahead_rstr:
  assumes "rstr F st bs"
  shows "\<exists>st' F'. toi_start_new_readahead False st = Some (0, st') \<and> rstr F' st' bs \<and> rframe st' = rframe st"
  using readahead_loop_rstr [OF assms, of 0] assms by (auto simp: toi_start_new_readahead_def)

text \<open>
  Without readahead (while the extents are loaded) a page is read when it is needed, so nothing
  is ever left in the list.
\<close>

definition rstream :: "bool \<Rightarrow> bio_state \<Rightarrow> byte list \<Rightarrow> bool" where
  "rstream no_readahead st bs \<longleftrightarrow> (\<exists>F. rstr F st bs) \<and> (no_readahead \<longrightarrow> readahead_list st = [])"

lemma pop_readahead:
  assumes "rstr F st bs" and "readahead_list st = Some p # rest" and "PAGE_SIZE - writer_buffer_posn st \<le> length bs"
  shows "rstr F (st\<lparr>writer_buffer := Some p, readahead_list := rest, ra_pages := k, writer_buffer_posn := 0\<rparr>)
    (drop (PAGE_SIZE - writer_buffer_posn st) bs)"
proof -
  let ?cap = "PAGE_SIZE - writer_buffer_posn st"
  obtain g' buf rl tail where r: "good st" "wf_geom (geom_of st)" "wf_disk (disk st)" "bio_queue st = []"
    "F \<noteq> [] \<Longrightarrow> more_readahead st" "run False (length F) (geom_of st) = Some (F, g')"
    "length buf = PAGE_SIZE" "readahead_list st = map Some rl" "\<forall>p \<in> set rl. length p = PAGE_SIZE"
    "drop (writer_buffer_posn st) buf @ concat rl @ concat (map (slot_page (disk st)) F) = bs @ tail"
    using assms(1) unfolding rstr_def by blast
  obtain rl' where rl: "rl = p # rl'" "rest = map Some rl'"
    using assms(2) r(8) by (cases rl) auto
  have "drop ?cap (drop (writer_buffer_posn st) buf @ concat rl @ concat (map (slot_page (disk st)) F)) =
      concat rl @ concat (map (slot_page (disk st)) F)"
    using r(7) by simp
  moreover have "drop ?cap (bs @ tail) = drop ?cap bs @ tail" using assms(3) by simp
  ultimately have "concat rl @ concat (map (slot_page (disk st)) F) = drop ?cap bs @ tail"
    using r(10) by simp
  then show ?thesis
    by (intro rstrI [where buf = p and rl = rl' and g' = g' and tail = tail]) (use r rl in simp_all)
qed

lemma buffer_prefix:
  assumes "rstr F st bs" and "writer_buffer st = Some buf"
  shows "length buf = PAGE_SIZE" and "writer_buffer_posn st \<le> PAGE_SIZE"
    and "n \<le> PAGE_SIZE - writer_buffer_posn st \<Longrightarrow> n \<le> length bs \<Longrightarrow> take n (drop (writer_buffer_posn st) buf) = take n bs"
proof -
  obtain rl tail where r: "length buf = PAGE_SIZE" "writer_buffer_posn st \<le> PAGE_SIZE"
    "drop (writer_buffer_posn st) buf @ concat rl @ concat (map (slot_page (disk st)) F) = bs @ tail"
    using assms unfolding rstr_def by auto
  then show "length buf = PAGE_SIZE" "writer_buffer_posn st \<le> PAGE_SIZE" by simp_all
  assume n: "n \<le> PAGE_SIZE - writer_buffer_posn st" "n \<le> length bs"
  have "take n (drop (writer_buffer_posn st) buf) =
      take n (drop (writer_buffer_posn st) buf @ concat rl @ concat (map (slot_page (disk st)) F))"
    using n r(1) by simp
  also have "\<dots> = take n bs" unfolding r(3) using n(2) by simp
  finally show "take n (drop (writer_buffer_posn st) buf) = take n bs" .
qed

lemma consume_buffer:
  assumes "rstr F st (bs @ rest)" and "length bs \<le> PAGE_SIZE - writer_buffer_posn st"
  shows "rstr F (st\<lparr>writer_buffer_posn := writer_buffer_posn st + length bs\<rparr>) rest"
proof -
  let ?at = "writer_buffer_posn st"
  obtain g' buf rl tail where r: "good st" "wf_geom (geom_of st)" "wf_disk (disk st)" "bio_queue st = []"
    "F \<noteq> [] \<Longrightarrow> more_readahead st" "run False (length F) (geom_of st) = Some (F, g')"
    "writer_buffer st = Some buf" "length buf = PAGE_SIZE" "?at \<le> PAGE_SIZE" "readahead_list st = map Some rl"
    "\<forall>p \<in> set rl. length p = PAGE_SIZE"
    "drop ?at buf @ concat rl @ concat (map (slot_page (disk st)) F) = (bs @ rest) @ tail"
    using assms(1) unfolding rstr_def by blast
  from arg_cong [OF r(12), of "drop (length bs)"] assms(2) r(8)
  have "drop (?at + length bs) buf @ concat rl @ concat (map (slot_page (disk st)) F) = rest @ tail"
    by (simp add: add.commute)
  then show ?thesis
    by (intro rstrI [where buf = buf and rl = rl and g' = g' and tail = tail]) (use r assms(2) in simp_all)
qed

lemma slots_left:
  assumes "rstr F st bs" and "readahead_list st = []" and "PAGE_SIZE - writer_buffer_posn st < length bs"
  shows "F \<noteq> []"
proof
  assume "F = []"
  with assms(1,2) obtain buf tail where "length buf = PAGE_SIZE" "drop (writer_buffer_posn st) buf = bs @ tail"
    unfolding rstr_def by auto
  from arg_cong [OF this(2), of length] this(1) assms(3) show False by simp
qed

lemma get_next_page_read_rstream:
  assumes "rstream nora st bs" and "PAGE_SIZE - writer_buffer_posn st < length bs"
  shows "\<exists>st'. toi_bio_get_next_page_read nora st = Some (0, st') \<and>
    rstream nora (st'\<lparr>writer_buffer_posn := 0\<rparr>) (drop (PAGE_SIZE - writer_buffer_posn st) bs)"
proof -
  obtain F where r: "rstr F st bs" and nora: "nora \<longrightarrow> readahead_list st = []"
    using assms(1) by (auto simp: rstream_def)
  have "\<exists>st1 st2 F2 p rest. (if nora then toi_start_one_readahead False st else Some (0, st)) = Some (0, st1) \<and>
      (if readahead_list st1 = []
       then if \<not> more_readahead st1 then None else toi_start_one_readahead False st1 else Some (0, st1)) = Some (0, st2) \<and>
      rstr F2 st2 bs \<and> rframe st2 = rframe st \<and> readahead_list st2 = Some p # rest \<and> (nora \<longrightarrow> rest = [])"
  proof (cases "readahead_list st")
    case Nil
    then obtain f F' where F: "F = f # F'"
      using slots_left [OF r _ assms(2)] by (cases F) auto
    with r have "more_readahead st" by (simp add: rstr_def)
    moreover obtain st1 where "toi_start_one_readahead False st = Some (0, st1)" "rstr F' st1 bs"
      "rframe st1 = rframe st" "readahead_list st1 = [Some (slot_page (disk st) f)]"
      using start_one_next [of f F' st bs False] r F Nil by auto
    ultimately show ?thesis using Nil by (cases nora) auto
  next
    case (Cons a rest)
    moreover from this r obtain p where "a = Some p" by (auto simp: rstr_def)
    ultimately show ?thesis using nora r by auto
  qed
  then obtain st1 st2 F2 p rest where steps:
    "(if nora then toi_start_one_readahead False st else Some (0, st)) = Some (0, st1)"
    "(if readahead_list st1 = []
      then if \<not> more_readahead st1 then None else toi_start_one_readahead False st1 else Some (0, st1)) = Some (0, st2)"
    "rstr F2 st2 bs" "rframe st2 = rframe st" "readahead_list st2 = Some p # rest" "nora \<longrightarrow> rest = []"
    by blast
  note same = rframe_eqD(2) [OF steps(4)]
  obtain buf where buf: "writer_buffer st2 = Some buf" using steps(3) by (auto simp: rstr_def)
  let ?st' = "st2\<lparr>writer_buffer := Some p, readahead_list := rest, ra_pages := ra_pages st2 - 1\<rparr>"
  have "rstr F2 (?st'\<lparr>writer_buffer_posn := 0\<rparr>) (drop (PAGE_SIZE - writer_buffer_posn st) bs)"
    using pop_readahead [OF steps(3,5)] assms(2) same by simp
  moreover have "toi_bio_get_next_page_read nora st = Some (0, ?st')"
    unfolding toi_bio_get_next_page_read_def using steps(1,2,5) buf by simp
  ultimately show ?thesis using steps(6) by (auto simp: rstream_def)
qed

lemma rw_buffer_read_rstream:
  assumes "rstream nora st (bs @ rest)"
  shows "\<exists>st'. rw_buffer_read nora (length bs) st = Some (0, bs, st') \<and> rstream nora st' rest"
  using assms
proof (induction nora "length bs" st arbitrary: bs rule: rw_buffer_read.induct)
  case (1 nora st bs)
  note unfold = rw_buffer_read.simps [of nora "length bs" st]
  obtain F where r: "rstr F st (bs @ rest)" using "1.prems" by (auto simp: rstream_def)
  then obtain buf where buf: "writer_buffer st = Some buf" by (auto simp: rstr_def)
  note pre = buffer_prefix [OF r buf]
  let ?at = "writer_buffer_posn st"
  let ?cap = "PAGE_SIZE - ?at"
  show ?case
  proof (cases "bs = []")
    case True
    with "1.prems" unfold show ?thesis by simp
  next
    case ne: False
    show ?thesis
    proof (cases "length bs \<le> ?cap")
      case True
      have "rstr F (st\<lparr>writer_buffer_posn := ?at + length bs\<rparr>) rest"
        using consume_buffer [OF r] True .
      with True ne buf unfold pre(3) [of "length bs"] "1.prems" show ?thesis
        by (auto simp: Let_def rstream_def)
    next
      case False
      obtain st1 where st1: "toi_bio_get_next_page_read nora st = Some (0, st1)"
        "rstream nora (st1\<lparr>writer_buffer_posn := 0\<rparr>) (drop ?cap (bs @ rest))"
        using get_next_page_read_rstream [OF "1.prems"] False by auto
      have "\<exists>st'. rw_buffer_read nora (length (drop ?cap bs)) (st1\<lparr>writer_buffer_posn := 0\<rparr>) =
          Some (0, drop ?cap bs, st') \<and> rstream nora st' rest"
        by (rule "1.hyps" [OF _ buf refl refl _ refl st1(1)]) (use False ne st1(2) in auto)
      moreover have "take ?cap (drop ?at buf) = take ?cap bs"
        using pre(3) [of ?cap] False by simp
      ultimately show ?thesis
        using False ne buf unfold st1(1) by (auto simp: Let_def)
    qed
  qed
qed

lemma rstream_simps [simp]:
  "rstream nora (st\<lparr>unowned := i\<rparr>) = rstream nora st"
  "rstream nora (st\<lparr>total_header_bytes := i\<rparr>) = rstream nora st"
  by (simp_all add: rstream_def fun_eq_iff)

lemma rstream_readahead: "rstream True st bs \<Longrightarrow> rstream False st bs"
  by (simp add: rstream_def)

lemma read_header_chunk_rstream:
  assumes "rstream nora st (bs @ rest)"
  shows "\<exists>st'. toi_read_header_chunk nora None st (length bs) = Some (0, bs, st') \<and> rstream nora st' rest"
proof -
  let ?st = "st\<lparr>unowned := unowned st + int (length bs)\<rparr>"
  have st: "rstream nora ?st (bs @ rest)" using assms by simp
  have "\<exists>st1. (if \<not> nora then toi_start_new_readahead False ?st else Some (0, ?st)) = Some (0, st1) \<and>
      rstream nora st1 (bs @ rest)"
  proof (cases nora)
    case False
    from st obtain F where "rstr F ?st (bs @ rest)" by (auto simp: rstream_def)
    from start_new_readahead_rstr [OF this] False show ?thesis by (auto simp: rstream_def)
  qed (use st in auto)
  then obtain st1 where "(if \<not> nora then toi_start_new_readahead False ?st else Some (0, ?st)) = Some (0, st1)"
    "rstream nora st1 (bs @ rest)" by blast
  moreover from rw_buffer_read_rstream [OF this(2)] obtain st2
    where "rw_buffer_read nora (length bs) st1 = Some (0, bs, st2)" "rstream nora st2 rest" by blast
  ultimately show ?thesis by (simp add: toi_read_header_chunk_def header_account_def)
qed

interpretation hdr_in: header_source "toi_read_header_chunk nora None" "rstream nora" for nora
  by unfold_locales (rule read_header_chunk_rstream)

end
