(* ===== verification/TOI_Bitmap_Create.thy ===== *)
theory TOI_Bitmap_Create
  imports TOI_Prelude
begin

text \<open>
  Memory bitmaps (\<open>snapshot.c\<close>, \<open>power.h\<close>): their data, and how one is laid out over the
  zones of the machine. A bitmap is a list of blocks, each one page of bits for a range of page
  frame numbers (pfns). The list heads of the source are HOL lists; a block pointer is its
  position in the list, and the list head itself is the length of the list.

  An allocation may fail. The flag \<open>got k\<close> is the outcome of the k-th one, and the operations
  thread the counter \<open>k\<close>.

  The lemmas show that \<open>create_mem_extents\<close> computes disjoint, sorted ranges that cover exactly
  the pfns of the zones, in whatever order the zones come and however they overlap, and that
  \<open>memory_bm_create\<close> gives each of these pfns one bit, cleared.
\<close>

section \<open>Data\<close>

abbreviation (input) BM_BITS_PER_BLOCK :: nat where "BM_BITS_PER_BLOCK \<equiv> 32768"
abbreviation (input) LINKED_PAGE_DATA_SIZE :: nat where "LINKED_PAGE_DATA_SIZE \<equiv> 4088"
abbreviation (input) SIZEOF_BM_BLOCK :: nat where "SIZEOF_BM_BLOCK \<equiv> 40"

record zone =
  zone_start_pfn :: ulong
  spanned_pages :: ulong

record mem_extent =
  me_start :: ulong
  me_end :: ulong

record bm_block =
  start_pfn :: ulong
  end_pfn :: ulong
  data :: page

record bm_position =
  pos_block :: nat
  pos_bit :: nat

text \<open>\<open>p_list\<close> is the number of pages that hold the block objects.\<close>

record memory_bitmap =
  blocks :: "bm_block list"
  p_list :: nat
  cur :: bm_position
  iter :: bm_position

record chain_allocator =
  ca_chain :: nat
  used_space :: nat

section \<open>Operations\<close>

definition chain_init :: chain_allocator where
  "chain_init = \<lparr>ca_chain = 0, used_space = LINKED_PAGE_DATA_SIZE\<rparr>"

text \<open>\<open>None\<close> is the null pointer.\<close>

definition chain_alloc ::
    "(nat \<Rightarrow> bool) \<Rightarrow> nat \<Rightarrow> chain_allocator \<Rightarrow> nat \<Rightarrow> (chain_allocator \<times> nat) option" where
  "chain_alloc got k ca bytes =
     (if LINKED_PAGE_DATA_SIZE - used_space ca < bytes then
        (if got k then Some (ca\<lparr>ca_chain := ca_chain ca + 1, used_space := bytes\<rparr>, Suc k) else None)
      else Some (ca\<lparr>used_space := used_space ca + bytes\<rparr>, k))"

definition memory_bm_position_reset :: "memory_bitmap \<Rightarrow> memory_bitmap" where
  "memory_bm_position_reset bm =
     bm\<lparr>cur := \<lparr>pos_block = 0, pos_bit = 0\<rparr>, iter := \<lparr>pos_block = 0, pos_bit = 0\<rparr>\<rparr>"

text \<open>The blocks and the pages of \<open>p_list\<close> are freed; the pointer \<open>p_list\<close> is left as it was.\<close>

definition memory_bm_free :: "memory_bitmap \<Rightarrow> memory_bitmap" where
  "memory_bm_free bm = bm\<lparr>blocks := []\<rparr>"

text \<open>\<open>create_bm_block_list\<close>: the objects for \<open>nr_blocks\<close> blocks.\<close>

fun alloc_blocks ::
    "(nat \<Rightarrow> bool) \<Rightarrow> nat \<Rightarrow> chain_allocator \<Rightarrow> nat \<Rightarrow> int \<times> chain_allocator \<times> nat" where
  "alloc_blocks got k ca 0 = (0, ca, k)"
| "alloc_blocks got k ca (Suc nr_blocks) =
     (case chain_alloc got k ca SIZEOF_BM_BLOCK of
        None \<Rightarrow> (- ENOMEM, ca, Suc k)
      | Some (ca', k') \<Rightarrow> alloc_blocks got k' ca' nr_blocks)"

definition nr_bm_blocks :: "ulong \<Rightarrow> nat" where
  "nr_bm_blocks pages = DIV_ROUND_UP (unat pages) BM_BITS_PER_BLOCK mod 2 ^ 32"

definition create_bm_block_list ::
    "(nat \<Rightarrow> bool) \<Rightarrow> nat \<Rightarrow> chain_allocator \<Rightarrow> ulong \<Rightarrow> int \<times> chain_allocator \<times> nat" where
  "create_bm_block_list got k ca pages = alloc_blocks got k ca (nr_bm_blocks pages)"

text \<open>
  The loop of \<open>create_mem_extents\<close> that absorbs the extents after the merged one:
  \<^verbatim>\<open>list_for_each_entry_safe_continue(cur, aux, list, hook)\<close>.
\<close>

fun merge_more :: "ulong \<Rightarrow> mem_extent \<Rightarrow> mem_extent list \<Rightarrow> mem_extent \<times> mem_extent list" where
  "merge_more zone_end ext [] = (ext, [])"
| "merge_more zone_end ext (c # cs) =
     (if zone_end < me_start c then (ext, c # cs)
      else merge_more zone_end (if zone_end < me_end c then ext\<lparr>me_end := me_end c\<rparr> else ext) cs)"

text \<open>One turn of the loop over the zones. \<open>None\<close> is a failed allocation.\<close>

definition add_zone ::
    "(nat \<Rightarrow> bool) \<Rightarrow> nat \<Rightarrow> mem_extent list \<Rightarrow> 'z zone_scheme \<Rightarrow> (mem_extent list \<times> nat) option" where
  "add_zone got k exts z =
     (let zone_start = zone_start_pfn z;
          zone_end = zone_start_pfn z + spanned_pages z;
          passed = takeWhile (\<lambda>e. \<not> zone_start \<le> me_end e) exts
      in case dropWhile (\<lambda>e. \<not> zone_start \<le> me_end e) exts of
           [] \<Rightarrow> if got k then Some (passed @ [\<lparr>me_start = zone_start, me_end = zone_end\<rparr>], Suc k) else None
         | ext # rest \<Rightarrow>
             if zone_end < me_start ext then
               (if got k
                then Some (passed @ \<lparr>me_start = zone_start, me_end = zone_end\<rparr> # ext # rest, Suc k)
                else None)
             else
               let ext1 = (if zone_start < me_start ext then ext\<lparr>me_start := zone_start\<rparr> else ext);
                   ext2 = (if me_end ext1 < zone_end then ext1\<lparr>me_end := zone_end\<rparr> else ext1);
                   (ext3, rest') = merge_more zone_end ext2 rest
               in Some (passed @ ext3 # rest', k))"

fun create_mem_extents ::
    "(nat \<Rightarrow> bool) \<Rightarrow> nat \<Rightarrow> mem_extent list \<Rightarrow> 'z zone_scheme list \<Rightarrow> int \<times> mem_extent list \<times> nat" where
  "create_mem_extents got k exts [] = (0, exts, k)"
| "create_mem_extents got k exts (z # zs) =
     (case add_zone got k exts z of
        None \<Rightarrow> (- ENOMEM, [], Suc k)
      | Some (exts', k') \<Rightarrow> create_mem_extents got k' exts' zs)"

text \<open>The loop of \<open>memory_bm_create\<close> that gives each new block its page and its range.\<close>

fun init_blocks ::
    "(nat \<Rightarrow> bool) \<Rightarrow> nat \<Rightarrow> nat \<Rightarrow> ulong \<Rightarrow> ulong \<Rightarrow> int \<times> bm_block list \<times> nat" where
  "init_blocks got k 0 pfn pages = (0, [], k)"
| "init_blocks got k (Suc n) pfn pages =
     (if \<not> got k then (- ENOMEM, [], Suc k)
      else let full = (of_nat BM_BITS_PER_BLOCK \<le> pages);
               pfn' = (if full then pfn + of_nat BM_BITS_PER_BLOCK else pfn + pages);
               pages' = (if full then pages - of_nat BM_BITS_PER_BLOCK else pages);
               (error, bbs, k') = init_blocks got (Suc k) n pfn' pages'
           in (error, \<lparr>start_pfn = pfn, end_pfn = pfn', data = replicate PAGE_SIZE 0\<rparr> # bbs, k'))"

text \<open>The loop over the extents.\<close>

fun create_blocks ::
    "(nat \<Rightarrow> bool) \<Rightarrow> nat \<Rightarrow> chain_allocator \<Rightarrow> mem_extent list \<Rightarrow>
     int \<times> bm_block list \<times> chain_allocator \<times> nat" where
  "create_blocks got k ca [] = (0, [], ca, k)"
| "create_blocks got k ca (ext # exts) =
     (let pages = me_end ext - me_start ext;
          (error, ca1, k1) = create_bm_block_list got k ca pages
      in if error \<noteq> 0 then (error, [], ca1, k1)
         else let (error, bbs, k2) = init_blocks got k1 (nr_bm_blocks pages) (me_start ext) pages
              in if error \<noteq> 0 then (error, bbs, ca1, k2)
                 else let (error, bbs', ca2, k3) = create_blocks got k2 ca1 exts
                      in (error, bbs @ bbs', ca2, k3))"

definition memory_bm_create ::
    "(nat \<Rightarrow> bool) \<Rightarrow> nat \<Rightarrow> 'z zone_scheme list \<Rightarrow> memory_bitmap \<Rightarrow> int \<times> memory_bitmap \<times> nat" where
  "memory_bm_create got k zones bm =
     (let bm0 = bm\<lparr>blocks := []\<rparr>;
          (error, mem_extents, k1) = create_mem_extents got k [] zones
      in if error \<noteq> 0 then (error, bm0, k1)
         else let (error, bbs, ca, k2) = create_blocks got k1 chain_init mem_extents
              in if error \<noteq> 0 then (error, memory_bm_free (bm0\<lparr>blocks := bbs, p_list := ca_chain ca\<rparr>), k2)
                 else (0, memory_bm_position_reset (bm0\<lparr>blocks := bbs, p_list := ca_chain ca\<rparr>), k2))"

section \<open>Memory extents\<close>

definition zone_pfns :: "'z zone_scheme \<Rightarrow> nat set" where
  "zone_pfns z = {unat (zone_start_pfn z) ..< unat (zone_start_pfn z + spanned_pages z)}"

definition me_pfns :: "mem_extent list \<Rightarrow> nat set" where
  "me_pfns exts = (\<Union>e \<in> set exts. {unat (me_start e) ..< unat (me_end e)})"

text \<open>A zone has pages and ends below the end of the address space.\<close>

definition wf_zone :: "'z zone_scheme \<Rightarrow> bool" where
  "wf_zone z \<longleftrightarrow> zone_start_pfn z < zone_start_pfn z + spanned_pages z \<and>
     unat (zone_start_pfn z + spanned_pages z) < 2 ^ 46"

text \<open>Ranges are not empty, and there is a gap between each one and the next.\<close>

definition wf_mem_extents :: "mem_extent list \<Rightarrow> bool" where
  "wf_mem_extents exts \<longleftrightarrow> (\<forall>e \<in> set exts. me_start e < me_end e \<and> unat (me_end e) < 2 ^ 46) \<and>
     sorted_wrt (\<lambda>a b. me_end a < me_start b) exts"

lemma me_pfns_simps [simp]:
  "me_pfns [] = {}"
  "me_pfns (e # es) = {unat (me_start e) ..< unat (me_end e)} \<union> me_pfns es"
  "me_pfns (xs @ ys) = me_pfns xs \<union> me_pfns ys"
  by (auto simp: me_pfns_def)

lemma wf_mem_extents_append:
  "wf_mem_extents (xs @ ys) \<longleftrightarrow> wf_mem_extents xs \<and> wf_mem_extents ys \<and>
     (\<forall>a \<in> set xs. \<forall>b \<in> set ys. me_end a < me_start b)"
  by (auto simp: wf_mem_extents_def sorted_wrt_append)

lemma wf_mem_extents_Cons:
  "wf_mem_extents (x # xs) \<longleftrightarrow> me_start x < me_end x \<and> unat (me_end x) < 2 ^ 46 \<and> wf_mem_extents xs \<and>
     (\<forall>b \<in> set xs. me_end x < me_start b)"
  by (auto simp: wf_mem_extents_def)

lemma wf_mem_extents_Nil [simp]: "wf_mem_extents []"
  by (simp add: wf_mem_extents_def)

lemma merge_more_correct:
  assumes "merge_more ze e cs = (e', cs')" and "wf_mem_extents cs"
    and "me_start e < me_end e" and "unat (me_end e) < 2 ^ 46"
    and "me_end e = ze \<and> (\<forall>c \<in> set cs. me_start e < me_start c) \<or>
         ze \<le> me_end e \<and> (\<forall>c \<in> set cs. me_end e < me_start c)"
  shows "wf_mem_extents (e' # cs') \<and> me_pfns (e' # cs') = me_pfns (e # cs) \<and> me_start e' = me_start e"
  using assms
proof (induction ze e cs rule: merge_more.induct)
  case (2 ze e c cs)
  note wf = "2.prems"(2) [unfolded wf_mem_extents_Cons]
  show ?case
  proof (cases "ze < me_start c")
    case True
    then have "\<forall>b \<in> set (c # cs). me_end e < me_start b"
      using "2.prems"(5) wf by (auto intro: less_trans)
    with True "2.prems" show ?thesis by (simp add: wf_mem_extents_Cons)
  next
    case False
    then have e: "me_end e = ze" "me_start e < me_start c"
      using "2.prems"(5) by auto
    let ?e = "if ze < me_end c then e\<lparr>me_end := me_end c\<rparr> else e"
    have "wf_mem_extents (e' # cs') \<and> me_pfns (e' # cs') = me_pfns (?e # cs) \<and> me_start e' = me_start ?e"
    proof (rule "2.IH" [OF False])
      show "merge_more ze ?e cs = (e', cs')" using "2.prems"(1) False by simp
      show "wf_mem_extents cs" using wf by simp
      show "me_start ?e < me_end ?e" using "2.prems"(3) e by (auto intro: less_trans)
      show "unat (me_end ?e) < 2 ^ 46" using "2.prems"(4) wf by simp
      show "me_end ?e = ze \<and> (\<forall>c \<in> set cs. me_start ?e < me_start c) \<or>
          ze \<le> me_end ?e \<and> (\<forall>c \<in> set cs. me_end ?e < me_start c)"
        using "2.prems"(5) e wf by auto
    qed
    moreover have "me_pfns [?e] = me_pfns [e, c]"
      using False e wf by (auto simp: word_less_nat_alt word_le_nat_alt)
    then have "me_pfns (?e # cs) = me_pfns (e # c # cs)" and "me_start ?e = me_start e"
      by (simp_all only: me_pfns_simps Un_empty_right Un_assoc [symmetric]) simp
    ultimately show ?thesis by (simp only:)
  qed
qed (simp add: wf_mem_extents_Cons)

lemma merge_zone_correct:
  fixes s e :: ulong
  assumes wf: "wf_mem_extents (ext # rest)" and z: "s < e" "unat e < 2 ^ 46"
    and touch: "s \<le> me_end ext" "\<not> e < me_start ext"
    and ext1: "ext1 = (if s < me_start ext then ext\<lparr>me_start := s\<rparr> else ext)"
    and ext2: "ext2 = (if me_end ext1 < e then ext1\<lparr>me_end := e\<rparr> else ext1)"
    and merge: "merge_more e ext2 rest = (ext3, rest')"
  shows "wf_mem_extents (ext3 # rest')"
    and "me_pfns (ext3 # rest') = me_pfns (ext # rest) \<union> {unat s ..< unat e}"
    and "me_start ext3 = s \<or> me_start ext3 = me_start ext"
proof -
  note wf' = wf [unfolded wf_mem_extents_Cons]
  have bounds: "me_start ext2 < me_end ext2" "unat (me_end ext2) < 2 ^ 46"
    using wf' z by (auto simp: ext1 ext2 intro: less_trans)
  have after: "me_end ext2 = e \<and> (\<forall>c \<in> set rest. me_start ext2 < me_start c) \<or>
      e \<le> me_end ext2 \<and> (\<forall>c \<in> set rest. me_end ext2 < me_start c)"
    using wf' by (auto simp: ext1 ext2 intro: less_trans)
  have wf_rest: "wf_mem_extents rest" using wf' by simp
  have result: "wf_mem_extents (ext3 # rest') \<and> me_pfns (ext3 # rest') = me_pfns (ext2 # rest) \<and>
      me_start ext3 = me_start ext2"
    by (rule merge_more_correct [OF merge wf_rest bounds after])
  have union: "me_pfns [ext2] = me_pfns [ext] \<union> {unat s ..< unat e}"
    using wf' z touch by (auto simp: ext1 ext2 word_less_nat_alt word_le_nat_alt)
  show "wf_mem_extents (ext3 # rest')" using result by simp
  show "me_pfns (ext3 # rest') = me_pfns (ext # rest) \<union> {unat s ..< unat e}"
    using result union by auto
  show "me_start ext3 = s \<or> me_start ext3 = me_start ext"
    using result by (simp add: ext1 ext2)
qed

lemma new_zone_correct:
  fixes s e :: ulong
  assumes "wf_mem_extents (pre @ post)" and "s < e" and "unat e < 2 ^ 46"
    and "\<forall>a \<in> set pre. me_end a < s" and "\<forall>b \<in> set post. e < me_start b"
  shows "wf_mem_extents (pre @ \<lparr>me_start = s, me_end = e\<rparr> # post)"
    and "me_pfns (pre @ \<lparr>me_start = s, me_end = e\<rparr> # post) = me_pfns (pre @ post) \<union> {unat s ..< unat e}"
  using assms by (auto simp: wf_mem_extents_append wf_mem_extents_Cons)

lemma add_zone_cases:
  assumes "add_zone got k exts z = Some (exts', k')"
  defines "s \<equiv> zone_start_pfn z" and "e \<equiv> zone_start_pfn z + spanned_pages z"
  obtains pre post where "exts = pre @ post" and "\<forall>a \<in> set pre. me_end a < s"
      and "post \<noteq> [] \<Longrightarrow> e < me_start (hd post)"
      and "exts' = pre @ \<lparr>me_start = s, me_end = e\<rparr> # post"
  | pre ext rest ext1 ext2 ext3 rest' where "exts = pre @ ext # rest" and "\<forall>a \<in> set pre. me_end a < s"
      and "s \<le> me_end ext" and "\<not> e < me_start ext"
      and "ext1 = (if s < me_start ext then ext\<lparr>me_start := s\<rparr> else ext)"
      and "ext2 = (if me_end ext1 < e then ext1\<lparr>me_end := e\<rparr> else ext1)"
      and "merge_more e ext2 rest = (ext3, rest')" and "exts' = pre @ ext3 # rest'"
proof -
  define pre post where "pre = takeWhile (\<lambda>e. \<not> s \<le> me_end e) exts"
    and "post = dropWhile (\<lambda>e. \<not> s \<le> me_end e) exts"
  have exts: "exts = pre @ post" by (simp add: pre_def post_def)
  have pre: "\<forall>a \<in> set pre. me_end a < s" by (auto simp: pre_def dest: set_takeWhileD)
  note res = assms(1) [unfolded add_zone_def Let_def, folded s_def e_def, folded pre_def post_def]
  show thesis
  proof (cases post)
    case Nil
    with that(1) [OF exts pre] res show ?thesis by (auto split: if_splits)
  next
    case (Cons ext rest)
    have "s \<le> me_end ext"
      using Cons hd_dropWhile [of "\<lambda>e. \<not> s \<le> me_end e" exts] by (simp add: post_def [symmetric])
    with Cons that(1) [OF exts pre] that(2) [OF exts [unfolded Cons] pre] res show ?thesis
      by (auto split: if_splits prod.splits)
  qed
qed

lemma add_zone_correct:
  assumes wf: "wf_mem_extents exts" and "wf_zone z" and res: "add_zone got k exts z = Some (exts', k')"
  shows "wf_mem_extents exts' \<and> me_pfns exts' = me_pfns exts \<union> zone_pfns z"
  using res
proof (cases rule: add_zone_cases)
  case (1 pre post)
  have "\<forall>b \<in> set post. zone_start_pfn z + spanned_pages z < me_start b"
    using 1(3) wf by (cases post) (auto simp: 1(1) wf_mem_extents_append wf_mem_extents_Cons intro: less_trans)
  with new_zone_correct [of pre post "zone_start_pfn z" "zone_start_pfn z + spanned_pages z"] 1 assms(1,2)
  show ?thesis by (simp add: wf_zone_def zone_pfns_def)
next
  case (2 pre ext rest ext1 ext2 ext3 rest')
  have wf': "wf_mem_extents pre" "wf_mem_extents (ext # rest)"
    "\<forall>a \<in> set pre. \<forall>b \<in> set (ext # rest). me_end a < me_start b"
    using wf by (simp_all add: 2(1) wf_mem_extents_append)
  note merged = merge_zone_correct [OF wf'(2) _ _ 2(3-7)]
  have z: "zone_start_pfn z < zone_start_pfn z + spanned_pages z"
    "unat (zone_start_pfn z + spanned_pages z) < 2 ^ 46" using assms(2) by (simp_all add: wf_zone_def)
  have "\<forall>a \<in> set pre. \<forall>b \<in> set (ext3 # rest'). me_end a < me_start b"
  proof (intro ballI)
    fix a b
    assume a: "a \<in> set pre" and b: "b \<in> set (ext3 # rest')"
    have "me_start ext3 \<le> me_start b"
      using b merged(1) [OF z] by (auto simp: wf_mem_extents_Cons intro: order.strict_implies_order less_trans)
    moreover have "me_end a < me_start ext3"
      using a merged(3) [OF z] 2(2) wf'(3) by auto
    ultimately show "me_end a < me_start b" by simp
  qed
  with merged(1,2) [OF z] wf'(1) show ?thesis
    by (simp add: 2(1,8) wf_mem_extents_append zone_pfns_def Un_ac)
qed

lemma create_mem_extents_correct:
  assumes "create_mem_extents got k exts zs = (0, exts', k')" and "wf_mem_extents exts"
    and "\<forall>z \<in> set zs. wf_zone z"
  shows "wf_mem_extents exts' \<and> me_pfns exts' = me_pfns exts \<union> (\<Union>z \<in> set zs. zone_pfns z)"
  using assms
proof (induction got k exts zs rule: create_mem_extents.induct)
  case (2 got k exts z zs)
  then obtain exts1 k1 where step: "add_zone got k exts z = Some (exts1, k1)"
    and rest: "create_mem_extents got k1 exts1 zs = (0, exts', k')"
    by (auto split: option.splits)
  from "2.prems" have "wf_zone z" by simp
  from add_zone_correct [OF "2.prems"(2) this step] "2.IH" [OF step refl rest] "2.prems"(3)
  show ?case by auto
qed auto

section \<open>Blocks\<close>

definition block_pfns :: "bm_block list \<Rightarrow> nat set" where
  "block_pfns bbs = (\<Union>bb \<in> set bbs. {unat (start_pfn bb) ..< unat (end_pfn bb)})"

definition wf_block :: "bm_block \<Rightarrow> bool" where
  "wf_block bb \<longleftrightarrow> start_pfn bb < end_pfn bb \<and> unat (end_pfn bb) < 2 ^ 46 \<and>
     unat (end_pfn bb) \<le> unat (start_pfn bb) + BM_BITS_PER_BLOCK \<and> length (data bb) = PAGE_SIZE"

definition wf_blocks :: "bm_block list \<Rightarrow> bool" where
  "wf_blocks bbs \<longleftrightarrow> list_all wf_block bbs \<and> sorted_wrt (\<lambda>a b. end_pfn a \<le> start_pfn b) bbs"

text \<open>The bits of a block are all clear.\<close>

definition blank :: "bm_block \<Rightarrow> bool" where
  "blank bb \<longleftrightarrow> data bb = replicate PAGE_SIZE 0"

definition within :: "ulong \<Rightarrow> ulong \<Rightarrow> bm_block \<Rightarrow> bool" where
  "within lo hi bb \<longleftrightarrow> lo \<le> start_pfn bb \<and> end_pfn bb \<le> hi"

lemma block_pfns_simps [simp]:
  "block_pfns [] = {}"
  "block_pfns (bb # bbs) = {unat (start_pfn bb) ..< unat (end_pfn bb)} \<union> block_pfns bbs"
  "block_pfns (xs @ ys) = block_pfns xs \<union> block_pfns ys"
  by (auto simp: block_pfns_def)

lemma wf_blocks_Cons:
  "wf_blocks (bb # bbs) \<longleftrightarrow> wf_block bb \<and> wf_blocks bbs \<and> (\<forall>b \<in> set bbs. end_pfn bb \<le> start_pfn b)"
  by (auto simp: wf_blocks_def)

lemma wf_blocks_append:
  "wf_blocks (xs @ ys) \<longleftrightarrow> wf_blocks xs \<and> wf_blocks ys \<and>
     (\<forall>a \<in> set xs. \<forall>b \<in> set ys. end_pfn a \<le> start_pfn b)"
  by (auto simp: wf_blocks_def sorted_wrt_append)

lemma wf_blocks_Nil [simp]: "wf_blocks []"
  by (simp add: wf_blocks_def)

lemma DIV_ROUND_UP_step:
  assumes "Suc n = DIV_ROUND_UP p BM_BITS_PER_BLOCK"
  shows "0 < p" and "BM_BITS_PER_BLOCK \<le> p \<Longrightarrow> n = DIV_ROUND_UP (p - BM_BITS_PER_BLOCK) BM_BITS_PER_BLOCK"
    and "p < BM_BITS_PER_BLOCK \<Longrightarrow> n = 0"
  using assms by (auto simp: DIV_ROUND_UP_def)

lemma init_blocks_correct:
  assumes "init_blocks got k n pfn pages = (0, bbs, k')"
    and "n = DIV_ROUND_UP (unat pages) BM_BITS_PER_BLOCK" and "unat pfn + unat pages < 2 ^ 46"
  shows "wf_blocks bbs \<and> block_pfns bbs = {unat pfn ..< unat pfn + unat pages} \<and> list_all blank bbs \<and>
    list_all (within pfn (pfn + pages)) bbs"
  using assms
proof (induction got k n pfn pages arbitrary: bbs k' rule: init_blocks.induct)
  case (1 got k pfn pages)
  then show ?case by (simp add: DIV_ROUND_UP_def)
next
  case (2 got k n pfn pages)
  let ?B = "32768 :: ulong"
  let ?step = "if ?B \<le> pages then ?B else pages" and ?left = "if ?B \<le> pages then pages - ?B else pages"
  have got: "got k" using "2.prems"(1) by (auto split: if_splits)
  obtain bbs1 where bbs: "bbs = \<lparr>start_pfn = pfn, end_pfn = pfn + ?step, data = replicate 4096 0\<rparr> # bbs1"
    and rec: "init_blocks got (Suc k) n (pfn + ?step) ?left = (0, bbs1, k')"
    using "2.prems"(1) got by (auto simp: Let_def split: prod.splits if_splits)
  note div = DIV_ROUND_UP_step [OF "2.prems"(2)]
  have step: "unat (pfn + ?step) = unat pfn + unat ?step" "0 < unat ?step" "unat ?step \<le> 32768"
    and total: "unat (pfn + pages) = unat pfn + unat pages"
    using div(1) "2.prems"(3) by (auto simp: unat_word_ariths word_le_nat_alt)
  have head: "wf_block (hd bbs)" "blank (hd bbs)" "within pfn (pfn + pages) (hd bbs)"
    using step total "2.prems"(3)
    by (auto simp: bbs wf_block_def blank_def within_def word_less_nat_alt word_le_nat_alt)
  show ?case
  proof (cases "?B \<le> pages")
    case False
    then have "n = 0" using div(3) by (simp add: word_le_nat_alt)
    then have "bbs1 = []" using rec by simp
    with head step False show ?thesis by (simp add: bbs wf_blocks_Cons)
  next
    case True
    have left: "unat (pages - ?B) = unat pages - 32768" "32768 \<le> unat pages"
      using True by (simp_all add: unat_sub word_le_nat_alt)
    have IH: "wf_blocks bbs1 \<and> block_pfns bbs1 = {unat (pfn + ?B) ..< unat (pfn + ?B) + unat (pages - ?B)} \<and>
        list_all blank bbs1 \<and> list_all (within (pfn + ?B) (pfn + ?B + (pages - ?B))) bbs1"
      using "2.IH" [of True "pfn + ?B" "pages - ?B"] True got rec div(2) left step(1) "2.prems"(3) by simp
    then have "list_all (within pfn (pfn + pages)) bbs1" "\<forall>b \<in> set bbs1. pfn + ?B \<le> start_pfn b"
      using step(1) True
      by (auto simp: list_all_iff within_def word_le_nat_alt)
    moreover have "{unat pfn ..< unat pfn + 32768} \<union> block_pfns bbs1 = {unat pfn ..< unat pfn + unat pages}"
      using IH left step(1) True by auto
    ultimately show ?thesis
      using head IH step(1) True by (simp add: bbs wf_blocks_Cons)
  qed
qed

lemma nr_bm_blocks_eq:
  assumes "unat pages < 2 ^ 46"
  shows "nr_bm_blocks pages = DIV_ROUND_UP (unat pages) BM_BITS_PER_BLOCK"
proof -
  have "DIV_ROUND_UP (unat pages) BM_BITS_PER_BLOCK < 2 ^ 32"
    using assms by (simp add: DIV_ROUND_UP_def)
  then show ?thesis unfolding nr_bm_blocks_def by (rule mod_less)
qed

lemma extent_blocks_correct:
  assumes "init_blocks got k (nr_bm_blocks (me_end ext - me_start ext)) (me_start ext)
      (me_end ext - me_start ext) = (0, bbs, k')"
    and "me_start ext < me_end ext" and "unat (me_end ext) < 2 ^ 46"
  shows "wf_blocks bbs \<and> block_pfns bbs = {unat (me_start ext) ..< unat (me_end ext)} \<and>
    list_all blank bbs \<and> list_all (within (me_start ext) (me_end ext)) bbs"
proof -
  have pages: "unat (me_start ext) + unat (me_end ext - me_start ext) = unat (me_end ext)"
    using unat_sub [OF less_imp_le [OF assms(2)]] assms(2) by (simp add: word_less_nat_alt)
  with assms(3) have small: "unat (me_end ext - me_start ext) < 2 ^ 46" by linarith
  show ?thesis
    using init_blocks_correct [OF assms(1) nr_bm_blocks_eq [OF small]] pages assms(3) by simp
qed

lemma create_blocks_correct:
  assumes "create_blocks got k ca exts = (0, bbs, ca', k')" and "wf_mem_extents exts"
  shows "wf_blocks bbs \<and> block_pfns bbs = me_pfns exts \<and> list_all blank bbs \<and>
    (\<forall>bb \<in> set bbs. \<exists>ext \<in> set exts. within (me_start ext) (me_end ext) bb)"
  using assms
proof (induction got k ca exts arbitrary: bbs ca' k' rule: create_blocks.induct)
  case (2 got k ca ext exts)
  let ?pages = "me_end ext - me_start ext"
  obtain ca1 k1 where list: "create_bm_block_list got k ca ?pages = (0, ca1, k1)"
    using "2.prems"(1) by (auto simp: Let_def split: prod.splits if_splits)
  obtain bbs1 k2 where init: "init_blocks got k1 (nr_bm_blocks ?pages) (me_start ext) ?pages = (0, bbs1, k2)"
    using "2.prems"(1) list by (auto simp: Let_def split: prod.splits if_splits)
  obtain bbs2 where rest: "create_blocks got k2 ca1 exts = (0, bbs2, ca', k')" and bbs: "bbs = bbs1 @ bbs2"
    using "2.prems"(1) list init by (auto simp: Let_def split: prod.splits)
  note wf = "2.prems"(2) [unfolded wf_mem_extents_Cons]
  have first: "wf_blocks bbs1 \<and> block_pfns bbs1 = {unat (me_start ext) ..< unat (me_end ext)} \<and>
      list_all blank bbs1 \<and> list_all (within (me_start ext) (me_end ext)) bbs1"
    by (rule extent_blocks_correct [OF init]) (use wf in simp_all)
  have IH: "wf_blocks bbs2 \<and> block_pfns bbs2 = me_pfns exts \<and> list_all blank bbs2 \<and>
      (\<forall>bb \<in> set bbs2. \<exists>ext \<in> set exts. within (me_start ext) (me_end ext) bb)"
    by (rule "2.IH" [OF refl list [symmetric] refl refl _ init [symmetric] refl refl _ rest])
      (use wf in simp_all)
  have "end_pfn a \<le> start_pfn b" if "a \<in> set bbs1" "b \<in> set bbs2" for a b
  proof -
    from that(2) IH obtain e where "e \<in> set exts" "me_start e \<le> start_pfn b"
      by (auto simp: within_def)
    moreover have "end_pfn a \<le> me_end ext"
      using that(1) first by (auto simp: list_all_iff within_def)
    ultimately show ?thesis using wf by (meson order.trans less_imp_le)
  qed
  with first IH show ?case
    by (auto simp: bbs wf_blocks_append list_all_iff)
qed simp

lemma memory_bm_create_blocks:
  assumes "memory_bm_create got k zones bm = (0, bm', k')" and "\<forall>z \<in> set zones. wf_zone z"
  shows "wf_blocks (blocks bm')" and "block_pfns (blocks bm') = (\<Union>z \<in> set zones. zone_pfns z)"
    and "list_all blank (blocks bm')" and "pos_block (cur bm') = 0" and "pos_block (iter bm') = 0"
    and "pos_bit (iter bm') = 0"
proof -
  obtain exts k1 where exts: "create_mem_extents got k [] zones = (0, exts, k1)"
    using assms(1) by (auto simp: memory_bm_create_def Let_def split: prod.splits if_splits)
  obtain bbs ca where bbs: "create_blocks got k1 chain_init exts = (0, bbs, ca, k')"
    and bm': "bm' = memory_bm_position_reset (bm\<lparr>blocks := bbs, p_list := ca_chain ca\<rparr>)"
    using assms(1) exts by (auto simp: memory_bm_create_def Let_def split: prod.splits if_splits)
  have "wf_mem_extents exts \<and> me_pfns exts = (\<Union>z \<in> set zones. zone_pfns z)"
    using create_mem_extents_correct [OF exts] assms(2) by simp
  with create_blocks_correct [OF bbs]
  show "wf_blocks (blocks bm')" and "block_pfns (blocks bm') = (\<Union>z \<in> set zones. zone_pfns z)"
    and "list_all blank (blocks bm')"
    by (simp_all add: bm' memory_bm_position_reset_def)
qed (use assms(1) in \<open>auto simp: memory_bm_create_def memory_bm_position_reset_def Let_def
       split: prod.splits if_splits\<close>)

section \<open>Failure\<close>

lemma create_mem_extents_ret:
  "fst (create_mem_extents got k exts zs) = 0 \<or>
   fst (create_mem_extents got k exts zs) = - ENOMEM \<and> \<not> (\<forall>i. got i)"
  by (induction got k exts zs rule: create_mem_extents.induct)
    (auto simp: add_zone_def Let_def split: option.splits list.splits if_splits prod.splits)

lemma alloc_blocks_ret:
  "fst (alloc_blocks got k ca n) = 0 \<or> fst (alloc_blocks got k ca n) = - ENOMEM \<and> \<not> (\<forall>i. got i)"
  by (induction got k ca n rule: alloc_blocks.induct)
    (auto simp: chain_alloc_def split: option.splits if_splits)

lemma init_blocks_ret:
  "fst (init_blocks got k n pfn pages) = 0 \<or>
   fst (init_blocks got k n pfn pages) = - ENOMEM \<and> \<not> (\<forall>i. got i)"
  by (induction got k n pfn pages rule: init_blocks.induct)
    (auto simp: Let_def split: prod.splits)

lemma create_blocks_ret:
  "fst (create_blocks got k ca exts) = 0 \<or>
   fst (create_blocks got k ca exts) = - ENOMEM \<and> \<not> (\<forall>i. got i)"
proof (induction got k ca exts rule: create_blocks.induct)
  case (2 got k ca ext exts)
  let ?pages = "me_end ext - me_start ext"
  obtain e1 ca1 k1 where 1: "create_bm_block_list got k ca ?pages = (e1, ca1, k1)" by (metis prod_cases3)
  obtain e2 bbs k2 where 2: "init_blocks got k1 (nr_bm_blocks ?pages) (me_start ext) ?pages = (e2, bbs, k2)"
    by (metis prod_cases3)
  have "e1 = 0 \<or> e1 = - ENOMEM \<and> \<not> (\<forall>i. got i)" "e2 = 0 \<or> e2 = - ENOMEM \<and> \<not> (\<forall>i. got i)"
    using alloc_blocks_ret [of got k ca "nr_bm_blocks ?pages"] 1 2
      init_blocks_ret [of got k1 "nr_bm_blocks ?pages" "me_start ext" ?pages]
    by (simp_all add: create_bm_block_list_def)
  with "2.IH" [OF refl 1 [symmetric] refl refl _ 2 [symmetric] refl refl] 1 2 show ?case
    by (auto simp: Let_def split: prod.splits)
qed simp

lemma memory_bm_create_ret:
  assumes "memory_bm_create got k zones bm = (ret, bm', k')"
  shows "ret = 0 \<or> ret = - ENOMEM \<and> \<not> (\<forall>i. got i) \<and> blocks bm' = []"
proof -
  obtain e1 exts k1 where 1: "create_mem_extents got k [] zones = (e1, exts, k1)" by (metis prod_cases3)
  obtain e2 bbs ca k2 where 2: "create_blocks got k1 chain_init exts = (e2, bbs, ca, k2)" by (metis prod_cases4)
  show ?thesis
    using assms 1 2 create_mem_extents_ret [of got k "[]" zones] create_blocks_ret [of got k1 chain_init exts]
    by (auto simp: memory_bm_create_def Let_def memory_bm_free_def split: if_splits)
qed

end
