(* ===== verification/TOI_Bitmap.thy ===== *)
theory TOI_Bitmap
  imports TOI_Bitmap_Create TOI_Extent
begin

text \<open>
  Memory bitmaps (\<open>snapshot.c\<close>): finding, setting, clearing and testing a bit, iterating over
  the set bits, clearing and copying a whole bitmap, the copy in the image header, and the
  no-save regions. The page of a block is a list of bytes; bit \<open>n\<close> of a page is bit
  \<open>n mod 8\<close> of byte \<open>n div 8\<close>, as the little-endian bit operations number it.

  Abstractly a bitmap is a set of page frame numbers within a fixed universe. The lemmas show
  that every operation refines the set operation it stands for wherever the cached position
  \<open>cur\<close> is, that the iteration lists the members in ascending order, and that the bitmap read
  back from the header is the one written.
\<close>

unbundle bit_operations_syntax

section \<open>Bits of a page\<close>

definition page_test_bit :: "page \<Rightarrow> nat \<Rightarrow> bool" where
  "page_test_bit p n = bit (p ! (n div 8)) (n mod 8)"

definition page_set_bit :: "page \<Rightarrow> nat \<Rightarrow> page" where
  "page_set_bit p n = p[n div 8 := p ! (n div 8) OR push_bit (n mod 8) 1]"

definition page_clear_bit :: "page \<Rightarrow> nat \<Rightarrow> page" where
  "page_clear_bit p n = p[n div 8 := p ! (n div 8) AND NOT (push_bit (n mod 8) 1)]"

text \<open>\<open>find_next_bit(addr, size, offset)\<close>: the next set bit, or \<open>size\<close>.\<close>

function find_next_bit :: "page \<Rightarrow> nat \<Rightarrow> nat \<Rightarrow> nat" where
  "find_next_bit p bits n =
     (if bits \<le> n then bits else if page_test_bit p n then n else find_next_bit p bits (Suc n))"
  by pat_completeness auto
termination
  by (relation "measure (\<lambda>(p, bits, n). bits - n)") auto

declare find_next_bit.simps [simp del]

section \<open>Operations\<close>

definition BM_END_OF_MAP :: ulong where "BM_END_OF_MAP = - 1"

definition bm_block_bits :: "bm_block \<Rightarrow> nat" where
  "bm_block_bits bb = unat (end_pfn bb - start_pfn bb)"

text \<open>
  The two loops of \<open>memory_bm_find_bit\<close>: backwards to a block that starts at or before the pfn,
  and forwards to the block that holds it. \<open>None\<close> is the list head. When the first loop
  ends on the head, the code reads the head as a block: its \<open>end_pfn\<close> is then the pointer
  \<open>cur.block\<close>, a kernel address above every pfn, so that the second loop is not entered and the
  result is \<open>-EFAULT\<close>.
\<close>

fun seek_back :: "bm_block list \<Rightarrow> ulong \<Rightarrow> nat \<Rightarrow> nat option" where
  "seek_back bbs pfn 0 = None"
| "seek_back bbs pfn (Suc i) = (if start_pfn (bbs ! i) \<le> pfn then Some i else seek_back bbs pfn i)"

function seek_forward :: "bm_block list \<Rightarrow> ulong \<Rightarrow> nat \<Rightarrow> nat option" where
  "seek_forward bbs pfn i =
     (if Suc i < length bbs
      then if start_pfn (bbs ! Suc i) \<le> pfn \<and> pfn < end_pfn (bbs ! Suc i) then Some (Suc i)
           else seek_forward bbs pfn (Suc i)
      else None)"
  by pat_completeness auto
termination
  by (relation "measure (\<lambda>(bbs, pfn, i). length bbs - i)") auto

declare seek_forward.simps [simp del]

text \<open>
  \<open>memory_bm_find_bit\<close>: the block and the number of the bit in it, with the position that is
  cached; \<open>None\<close> is \<open>-EFAULT\<close>.
\<close>

definition memory_bm_find_bit ::
    "memory_bitmap \<Rightarrow> ulong \<Rightarrow> (nat \<times> nat \<times> memory_bitmap) option" where
  "memory_bm_find_bit bm pfn =
     (let bbs = blocks bm; b0 = pos_block (cur bm)
      in if length bbs \<le> b0 then None
         else case (if pfn < start_pfn (bbs ! b0) then seek_back bbs pfn b0 else Some b0) of
                None \<Rightarrow> None
              | Some b1 \<Rightarrow>
                  (case (if end_pfn (bbs ! b1) \<le> pfn then seek_forward bbs pfn b1 else Some b1) of
                     None \<Rightarrow> None
                   | Some b2 \<Rightarrow>
                       let off = unat (pfn - start_pfn (bbs ! b2))
                       in Some (b2, off, bm\<lparr>cur := \<lparr>pos_block = b2, pos_bit = off + 1\<rparr>\<rparr>)))"

definition update_block :: "memory_bitmap \<Rightarrow> nat \<Rightarrow> (page \<Rightarrow> page) \<Rightarrow> memory_bitmap" where
  "update_block bm i f = bm\<lparr>blocks := (blocks bm)[i := (blocks bm ! i)\<lparr>data := f (data (blocks bm ! i))\<rparr>]\<rparr>"

text \<open>\<open>BUG_ON(error)\<close> is \<open>None\<close>.\<close>

definition memory_bm_set_bit :: "memory_bitmap \<Rightarrow> ulong \<Rightarrow> memory_bitmap option" where
  "memory_bm_set_bit bm pfn =
     (case memory_bm_find_bit bm pfn of
        None \<Rightarrow> None
      | Some (i, n, bm') \<Rightarrow> Some (update_block bm' i (\<lambda>p. page_set_bit p n)))"

definition mem_bm_set_bit_check :: "memory_bitmap \<Rightarrow> ulong \<Rightarrow> int \<times> memory_bitmap" where
  "mem_bm_set_bit_check bm pfn =
     (case memory_bm_find_bit bm pfn of
        None \<Rightarrow> (- EFAULT, bm)
      | Some (i, n, bm') \<Rightarrow> (0, update_block bm' i (\<lambda>p. page_set_bit p n)))"

definition memory_bm_clear_bit :: "memory_bitmap \<Rightarrow> ulong \<Rightarrow> memory_bitmap option" where
  "memory_bm_clear_bit bm pfn =
     (case memory_bm_find_bit bm pfn of
        None \<Rightarrow> None
      | Some (i, n, bm') \<Rightarrow> Some (update_block bm' i (\<lambda>p. page_clear_bit p n)))"

definition memory_bm_test_bit :: "memory_bitmap \<Rightarrow> ulong \<Rightarrow> (bool \<times> memory_bitmap) option" where
  "memory_bm_test_bit bm pfn =
     (case memory_bm_find_bit bm pfn of
        None \<Rightarrow> None
      | Some (i, n, bm') \<Rightarrow> Some (page_test_bit (data (blocks bm' ! i)) n, bm'))"

definition memory_bm_pfn_present :: "memory_bitmap \<Rightarrow> ulong \<Rightarrow> bool \<times> memory_bitmap" where
  "memory_bm_pfn_present bm pfn =
     (case memory_bm_find_bit bm pfn of
        None \<Rightarrow> (False, bm)
      | Some (i, n, bm') \<Rightarrow> (True, bm'))"

text \<open>The loop of \<open>memory_bm_next_pfn\<close>; \<open>None\<close> is the list head.\<close>

function next_set_bit :: "bm_block list \<Rightarrow> nat \<Rightarrow> nat \<Rightarrow> (nat \<times> nat) option" where
  "next_set_bit bbs i n =
     (if length bbs \<le> i then None
      else let b = find_next_bit (data (bbs ! i)) (bm_block_bits (bbs ! i)) n
           in if b < bm_block_bits (bbs ! i) then Some (i, b) else next_set_bit bbs (Suc i) 0)"
  by pat_completeness auto
termination
  by (relation "measure (\<lambda>(bbs, i, n). length bbs - i)") auto

declare next_set_bit.simps [simp del]

text \<open>
  \<open>None\<close> is an iterator that stands on the list head, which happens only in an empty bitmap.
\<close>

definition memory_bm_next_pfn :: "memory_bitmap \<Rightarrow> (ulong \<times> memory_bitmap) option" where
  "memory_bm_next_pfn bm =
     (if length (blocks bm) \<le> pos_block (iter bm) then None
      else case next_set_bit (blocks bm) (pos_block (iter bm)) (pos_bit (iter bm)) of
             Some (i, b) \<Rightarrow> Some (start_pfn (blocks bm ! i) + of_nat b,
                                bm\<lparr>iter := \<lparr>pos_block = i, pos_bit = b + 1\<rparr>\<rparr>)
           | None \<Rightarrow> Some (BM_END_OF_MAP, memory_bm_position_reset bm))"

text \<open>The loops of \<open>memory_bm_clear\<close> and \<open>memory_bm_copy\<close>. \<open>None\<close> is a loop that does not end or a bug.\<close>

partial_function (option) clear_loop :: "memory_bitmap \<Rightarrow> ulong \<Rightarrow> memory_bitmap option" where
  "clear_loop bm pfn =
     (if pfn = BM_END_OF_MAP then Some bm
      else Option.bind (memory_bm_clear_bit bm pfn) (\<lambda>bm1.
           Option.bind (memory_bm_next_pfn bm1) (\<lambda>(pfn', bm2). clear_loop bm2 pfn')))"

definition memory_bm_clear :: "memory_bitmap \<Rightarrow> memory_bitmap option" where
  "memory_bm_clear bm =
     Option.bind (memory_bm_next_pfn (memory_bm_position_reset bm)) (\<lambda>(pfn, bm1). clear_loop bm1 pfn)"

partial_function (option) copy_loop ::
    "memory_bitmap \<Rightarrow> memory_bitmap \<Rightarrow> ulong \<Rightarrow> (memory_bitmap \<times> memory_bitmap) option" where
  "copy_loop source dest pfn =
     (if pfn = BM_END_OF_MAP then Some (source, dest)
      else Option.bind (memory_bm_set_bit dest pfn) (\<lambda>dest1.
           Option.bind (memory_bm_next_pfn source) (\<lambda>(pfn', source1). copy_loop source1 dest1 pfn')))"

definition memory_bm_copy ::
    "memory_bitmap \<Rightarrow> memory_bitmap \<Rightarrow> (memory_bitmap \<times> memory_bitmap) option" where
  "memory_bm_copy source dest =
     Option.bind (memory_bm_next_pfn (memory_bm_position_reset source))
       (\<lambda>(pfn, source1). copy_loop source1 dest pfn)"

definition memory_bm_dup ::
    "memory_bitmap \<Rightarrow> memory_bitmap \<Rightarrow> (memory_bitmap \<times> memory_bitmap) option" where
  "memory_bm_dup source dest = Option.bind (memory_bm_clear dest) (memory_bm_copy source)"

section \<open>The bitmap in the image header\<close>

definition block_bytes :: "bm_block \<Rightarrow> byte list" where
  "block_bytes bb = ulong_bytes (start_pfn bb) @ ulong_bytes (end_pfn bb)"

fun write_blocks :: "'s header_writer \<Rightarrow> bm_block list \<Rightarrow> 's \<Rightarrow> (int \<times> 's) option" where
  "write_blocks wr [] s = Some (0, s)"
| "write_blocks wr (bb # bbs) s = do {
     (result, s1) \<leftarrow> wr s (block_bytes bb);
     if result \<noteq> 0 then Some (result, s1)
     else do {
       (result, s2) \<leftarrow> wr s1 (data bb);
       if result \<noteq> 0 then Some (result, s2) else write_blocks wr bbs s2
     }
   }"

text \<open>\<open>memory_bm_write\<close>; a null bitmap is written as nothing.\<close>

definition memory_bm_write :: "'s header_writer \<Rightarrow> memory_bitmap option \<Rightarrow> 's \<Rightarrow> (int \<times> 's) option" where
  "memory_bm_write wr bmo s =
     (case bmo of
        None \<Rightarrow> Some (0, s)
      | Some bm \<Rightarrow> do {
          (result, s1) \<leftarrow> wr s (int_bytes (int (length (blocks bm))));
          if result \<noteq> 0 then Some (result, s1) else write_blocks wr (blocks bm) s1
        })"

text \<open>The search of \<open>memory_bm_read\<close> for the block that starts at a pfn.\<close>

fun find_start :: "ulong \<Rightarrow> bm_block list \<Rightarrow> nat option" where
  "find_start pfn [] = None"
| "find_start pfn (bb # bbs) = (if start_pfn bb = pfn then Some 0 else map_option Suc (find_start pfn bbs))"

fun read_blocks ::
    "'s header_reader \<Rightarrow> nat \<Rightarrow> memory_bitmap \<Rightarrow> 's \<Rightarrow> (int \<times> memory_bitmap \<times> 's) option" where
  "read_blocks rd 0 bm s = Some (0, bm, s)"
| "read_blocks rd (Suc nr) bm s = do {
     (result, bs, s1) \<leftarrow> rd s SIZEOF_LONG;
     if result \<noteq> 0 then Some (result, bm, s1)
     else case find_start (bytes_ulong bs) (blocks bm) of
            None \<Rightarrow> Some (- EINVAL, bm, s1)
          | Some i \<Rightarrow> do {
              (result, bs, s2) \<leftarrow> rd s1 SIZEOF_LONG;
              if result \<noteq> 0 then Some (result, bm, s2)
              else if bytes_ulong bs \<noteq> end_pfn (blocks bm ! i) then Some (- EINVAL, bm, s2)
              else do {
                (result, bs, s3) \<leftarrow> rd s2 PAGE_SIZE;
                if result \<noteq> 0 then Some (result, bm, s3)
                else read_blocks rd nr (update_block bm i (\<lambda>_. bs)) s3
              }
            }
   }"

definition memory_bm_read ::
    "(nat \<Rightarrow> bool) \<Rightarrow> nat \<Rightarrow> 'z zone_scheme list \<Rightarrow> 's header_reader \<Rightarrow> memory_bitmap \<Rightarrow> 's \<Rightarrow>
     (int \<times> memory_bitmap \<times> 's) option" where
  "memory_bm_read got k zones rd bm s =
     (let (result, bm1, k1) = memory_bm_create got k zones bm
      in if result \<noteq> 0 then Some (result, bm1, s)
         else do {
           (result, bs, s1) \<leftarrow> rd s SIZEOF_INT;
           if result \<noteq> 0 then Some (result, memory_bm_free bm1, s1)
           else do {
             (result, bm2, s2) \<leftarrow> read_blocks rd (le_nat bs) bm1 s1;
             if result \<noteq> 0 then Some (result, memory_bm_free bm2, s2) else Some (0, bm2, s2)
           }
         })"

text \<open>\<open>toi_pageflags_space_needed\<close> of \<open>tuxonice_pageflags.c\<close>.\<close>

definition toi_pageflags_space_needed :: "memory_bitmap \<Rightarrow> int" where
  "toi_pageflags_space_needed bm =
     foldl (\<lambda>total bb. s32 (total + int (2 * SIZEOF_LONG + PAGE_SIZE))) (int SIZEOF_INT) (blocks bm)"

section \<open>No-save regions\<close>

record nosave_region =
  region_start :: ulong
  region_end :: ulong

text \<open>
  \<open>__register_nosave_region\<close> on the list \<open>nosave_regions\<close>. The flag is the outcome of
  \<open>kmalloc\<close>; the early boot allocator does not fail.
\<close>

definition register_nosave_region ::
    "bool \<Rightarrow> ulong \<Rightarrow> ulong \<Rightarrow> bool \<Rightarrow> nosave_region list \<Rightarrow> nosave_region list option" where
  "register_nosave_region got start end use_kmalloc regions =
     (if end \<le> start then Some regions
      else if regions \<noteq> [] \<and> region_end (last regions) = start
        then Some (butlast regions @ [(last regions)\<lparr>region_end := end\<rparr>])
      else if use_kmalloc \<and> \<not> got then None
      else Some (regions @ [\<lparr>region_start = start, region_end = end\<rparr>]))"

definition region_pfns :: "nosave_region \<Rightarrow> ulong list" where
  "region_pfns r = map of_nat [unat (region_start r) ..< unat (region_end r)]"

definition mark_nosave_pages :: "(ulong \<Rightarrow> bool) \<Rightarrow> nosave_region list \<Rightarrow> memory_bitmap \<Rightarrow> memory_bitmap" where
  "mark_nosave_pages pfn_valid regions bm =
     foldl (\<lambda>bm pfn. if pfn_valid pfn then snd (mem_bm_set_bit_check bm pfn) else bm) bm
       (concat (map region_pfns regions))"

section \<open>The bitmap as a set\<close>

definition block_mem :: "bm_block \<Rightarrow> nat set" where
  "block_mem bb = {n. unat (start_pfn bb) \<le> n \<and> n < unat (end_pfn bb) \<and>
     page_test_bit (data bb) (n - unat (start_pfn bb))}"

definition bm_mem :: "memory_bitmap \<Rightarrow> nat set" where
  "bm_mem bm = (\<Union>bb \<in> set (blocks bm). block_mem bb)"

definition bm_univ :: "memory_bitmap \<Rightarrow> nat set" where
  "bm_univ bm = block_pfns (blocks bm)"

definition wf_bm :: "memory_bitmap \<Rightarrow> bool" where
  "wf_bm bm \<longleftrightarrow> wf_blocks (blocks bm) \<and> blocks bm \<noteq> [] \<and>
     pos_block (cur bm) < length (blocks bm) \<and> pos_block (iter bm) < length (blocks bm)"

text \<open>The ranges of the blocks, which no operation on bits changes.\<close>

definition bm_ranges :: "memory_bitmap \<Rightarrow> (ulong \<times> ulong) list" where
  "bm_ranges bm = map (\<lambda>bb. (start_pfn bb, end_pfn bb)) (blocks bm)"

lemma page_test_set:
  assumes "m < 8 * length p" and "n < 8 * length p"
  shows "page_test_bit (page_set_bit p m) n \<longleftrightarrow> n = m \<or> page_test_bit p n"
proof -
  have "m div 8 < length p" and "n = m \<longleftrightarrow> n div 8 = m div 8 \<and> n mod 8 = m mod 8"
    using assms by (auto simp: less_mult_imp_div_less mult.commute) (metis div_mult_mod_eq)
  then show ?thesis
    by (auto simp: page_test_bit_def page_set_bit_def nth_list_update bit_simps)
qed

lemma page_test_clear:
  assumes "m < 8 * length p" and "n < 8 * length p"
  shows "page_test_bit (page_clear_bit p m) n \<longleftrightarrow> n \<noteq> m \<and> page_test_bit p n"
proof -
  have "m div 8 < length p" and "n = m \<longleftrightarrow> n div 8 = m div 8 \<and> n mod 8 = m mod 8"
    using assms by (auto simp: less_mult_imp_div_less mult.commute) (metis div_mult_mod_eq)
  then show ?thesis
    by (auto simp: page_test_bit_def page_clear_bit_def nth_list_update bit_simps)
qed

lemma length_page_bit [simp]:
  "length (page_set_bit p n) = length p" "length (page_clear_bit p n) = length p"
  by (simp_all add: page_set_bit_def page_clear_bit_def)

lemma wf_block_nth:
  assumes "wf_blocks bbs" and "i < length bbs"
  shows "wf_block (bbs ! i)"
  using assms by (simp add: wf_blocks_def list_all_length)

lemma wf_blocks_order:
  assumes "wf_blocks bbs" and "i < j" and "j < length bbs"
  shows "end_pfn (bbs ! i) \<le> start_pfn (bbs ! j)"
  using assms by (simp add: wf_blocks_def sorted_wrt_iff_nth_less)

text \<open>A block holds a pfn; it is the only one that does.\<close>

definition holds :: "bm_block list \<Rightarrow> ulong \<Rightarrow> nat \<Rightarrow> bool" where
  "holds bbs pfn i \<longleftrightarrow> i < length bbs \<and> start_pfn (bbs ! i) \<le> pfn \<and> pfn < end_pfn (bbs ! i)"

lemma holds_unique:
  assumes "wf_blocks bbs" and "holds bbs pfn i" and "holds bbs pfn j"
  shows "i = j"
proof -
  have "\<not> a < b" if "holds bbs pfn a" "holds bbs pfn b" for a b
    using that wf_blocks_order [OF assms(1), of a b] by (auto simp: holds_def)
  with assms show ?thesis by (meson linorder_neqE_nat)
qed

lemma block_pfns_holds: "unat pfn \<in> block_pfns bbs \<longleftrightarrow> (\<exists>i. holds bbs pfn i)"
  by (force simp: block_pfns_def holds_def in_set_conv_nth word_le_nat_alt word_less_nat_alt)

lemma start_pfn_mono:
  assumes "wf_blocks bbs" and "i \<le> j" and "j < length bbs"
  shows "start_pfn (bbs ! i) \<le> start_pfn (bbs ! j)"
proof (cases "i = j")
  case False
  with assms have "end_pfn (bbs ! i) \<le> start_pfn (bbs ! j)" by (simp add: wf_blocks_order)
  moreover have "start_pfn (bbs ! i) < end_pfn (bbs ! i)"
    using wf_block_nth [OF assms(1), of i] assms by (simp add: wf_block_def)
  ultimately show ?thesis by simp
qed simp

lemma seek_back_Some:
  assumes "seek_back bbs pfn b = Some i"
  shows "i < b \<and> start_pfn (bbs ! i) \<le> pfn"
  using assms by (induction b) (auto split: if_splits)

lemma seek_back_None:
  assumes "seek_back bbs pfn b = None" and "i < b"
  shows "pfn < start_pfn (bbs ! i)"
  using assms by (induction b) (auto simp: less_Suc_eq split: if_splits)

lemma seek_back_between:
  assumes "seek_back bbs pfn b = Some i" and "i < j" and "j < b"
  shows "pfn < start_pfn (bbs ! j)"
  using assms by (induction b) (auto simp: less_Suc_eq split: if_splits)

lemma seek_forward_Some:
  "seek_forward bbs pfn i = Some j \<Longrightarrow> holds bbs pfn j"
proof (induction bbs pfn i rule: seek_forward.induct)
  case (1 bbs pfn i)
  then show ?case
    by (simp add: seek_forward.simps [of bbs pfn i] holds_def split: if_splits)
qed

lemma seek_forward_None:
  "seek_forward bbs pfn i = None \<Longrightarrow> i < j \<Longrightarrow> \<not> holds bbs pfn j"
proof (induction bbs pfn i rule: seek_forward.induct)
  case (1 bbs pfn i)
  show ?case
  proof (cases "j = Suc i")
    case True
    with 1 show ?thesis by (auto simp: seek_forward.simps [of bbs pfn i] holds_def split: if_splits)
  next
    case False
    with 1 show ?thesis by (auto simp: seek_forward.simps [of bbs pfn i] holds_def split: if_splits)
  qed
qed

text \<open>The block the first loop ends on: no later block up to the cached one can hold the pfn.\<close>

lemma first_block:
  assumes wf: "wf_blocks bbs" and b0: "b0 < length bbs"
    and b1: "(if pfn < start_pfn (bbs ! b0) then seek_back bbs pfn b0 else Some b0) = Some b1"
  shows "b1 < length bbs" and "start_pfn (bbs ! b1) \<le> pfn"
    and "end_pfn (bbs ! b1) \<le> pfn \<Longrightarrow> holds bbs pfn j \<Longrightarrow> b1 < j"
proof -
  show b1_less: "b1 < length bbs" and start: "start_pfn (bbs ! b1) \<le> pfn"
    using b0 b1 by (auto split: if_splits dest: seek_back_Some)
  assume past: "end_pfn (bbs ! b1) \<le> pfn" and j: "holds bbs pfn j"
  show "b1 < j"
  proof (rule ccontr)
    assume "\<not> b1 < j"
    then have "j \<noteq> b1 \<Longrightarrow> end_pfn (bbs ! j) \<le> start_pfn (bbs ! b1)"
      using wf b1_less by (simp add: wf_blocks_order)
    with j past start show False by (cases "j = b1") (auto simp: holds_def)
  qed
qed

lemma find_block_holds:
  assumes wf: "wf_bm bm" and found: "memory_bm_find_bit bm pfn = Some (i, n, bm')"
  shows "holds (blocks bm) pfn i"
proof -
  let ?bbs = "blocks bm" and ?b0 = "pos_block (cur bm)"
  obtain b1
    where b1: "(if pfn < start_pfn (?bbs ! ?b0) then seek_back ?bbs pfn ?b0 else Some ?b0) = Some b1"
      and i: "(if end_pfn (?bbs ! b1) \<le> pfn then seek_forward ?bbs pfn b1 else Some b1) = Some i"
    using found by (auto simp: memory_bm_find_bit_def Let_def split: if_splits option.splits)
  have "wf_blocks ?bbs" "?b0 < length ?bbs" using wf by (simp_all add: wf_bm_def)
  from first_block [OF this b1] i show ?thesis
    by (cases "end_pfn (?bbs ! b1) \<le> pfn") (auto simp: holds_def dest: seek_forward_Some)
qed

lemma find_bit_absent:
  assumes wf: "wf_bm bm" and none: "memory_bm_find_bit bm pfn = None"
  shows "\<not> holds (blocks bm) pfn i"
proof
  assume i: "holds (blocks bm) pfn i"
  let ?bbs = "blocks bm" and ?b0 = "pos_block (cur bm)"
  have wf': "wf_blocks ?bbs" "?b0 < length ?bbs" using wf by (simp_all add: wf_bm_def)
  show False
  proof (cases "if pfn < start_pfn (?bbs ! ?b0) then seek_back ?bbs pfn ?b0 else Some ?b0")
    case None
    then have rev: "pfn < start_pfn (?bbs ! ?b0)" "seek_back ?bbs pfn ?b0 = None"
      by (auto split: if_splits)
    show False
    proof (cases "i < ?b0")
      case True
      with rev(2) i show False by (auto simp: holds_def dest: seek_back_None)
    next
      case False
      with start_pfn_mono [OF wf'(1), of ?b0 i] i rev(1) show False
        unfolding holds_def by (meson leD not_le order.trans)
    qed
  next
    case (Some b1)
    note past = first_block(3) [OF wf' Some, of i]
    show False
    proof (cases "end_pfn (?bbs ! b1) \<le> pfn")
      case True
      with none Some wf' have "seek_forward ?bbs pfn b1 = None"
        by (auto simp: memory_bm_find_bit_def Let_def split: if_splits option.splits)
      with past [OF True i] i show False by (auto dest: seek_forward_None)
    next
      case False
      with none Some wf' show False
        by (simp add: memory_bm_find_bit_def Let_def)
    qed
  qed
qed

lemma find_bit_found:
  assumes wf: "wf_bm bm" and i: "holds (blocks bm) pfn i"
  shows "memory_bm_find_bit bm pfn = Some (i, unat pfn - unat (start_pfn (blocks bm ! i)),
    bm\<lparr>cur := \<lparr>pos_block = i, pos_bit = unat pfn - unat (start_pfn (blocks bm ! i)) + 1\<rparr>\<rparr>)"
proof -
  obtain j n bm' where res: "memory_bm_find_bit bm pfn = Some (j, n, bm')"
    using find_bit_absent [OF wf] i by (cases "memory_bm_find_bit bm pfn") auto
  have "j = i"
    using holds_unique [OF _ find_block_holds [OF wf res] i] wf by (simp add: wf_bm_def)
  moreover have "n = unat (pfn - start_pfn (blocks bm ! j))" "bm' = bm\<lparr>cur := \<lparr>pos_block = j, pos_bit = n + 1\<rparr>\<rparr>"
    using res by (auto simp: memory_bm_find_bit_def Let_def split: if_splits option.splits)
  moreover have "unat (pfn - start_pfn (blocks bm ! i)) = unat pfn - unat (start_pfn (blocks bm ! i))"
    using i by (simp add: holds_def unat_sub)
  ultimately show ?thesis using res by simp
qed

section \<open>Changing one bit\<close>

lemma bm_mem_iff: "m \<in> bm_mem bm \<longleftrightarrow> (\<exists>j < length (blocks bm). m \<in> block_mem (blocks bm ! j))"
  by (auto simp: bm_mem_def set_conv_nth)

lemma bm_univ_ranges: "bm_univ bm = (\<Union>(s, e) \<in> set (bm_ranges bm). {unat s ..< unat e})"
  by (auto simp: bm_univ_def block_pfns_def bm_ranges_def)

lemma bm_mem_univ: "bm_mem bm \<subseteq> bm_univ bm"
  by (auto simp: bm_mem_def block_mem_def bm_univ_def block_pfns_def)

lemma block_mem_set:
  assumes "wf_block bb" and "start_pfn bb \<le> pfn" and "pfn < end_pfn bb"
  shows "block_mem (bb\<lparr>data := page_set_bit (data bb) (unat pfn - unat (start_pfn bb))\<rparr>) =
    insert (unat pfn) (block_mem bb)"
  using assms
  by (auto simp: block_mem_def wf_block_def page_test_set word_le_nat_alt word_less_nat_alt)

lemma block_mem_clear:
  assumes "wf_block bb" and "start_pfn bb \<le> pfn" and "pfn < end_pfn bb"
  shows "block_mem (bb\<lparr>data := page_clear_bit (data bb) (unat pfn - unat (start_pfn bb))\<rparr>) =
    block_mem bb - {unat pfn}"
  using assms
  by (auto simp: block_mem_def wf_block_def page_test_clear word_le_nat_alt word_less_nat_alt)

lemma ranges_update_block [simp]: "bm_ranges (update_block bm i f) = bm_ranges bm"
  by (cases "i < length (blocks bm)")
    (simp_all add: update_block_def bm_ranges_def map_update list_update_same_conv list_update_beyond)

lemma univ_update_block [simp]: "bm_univ (update_block bm i f) = bm_univ bm"
  by (simp add: bm_univ_ranges)

lemma update_block_simps [simp]:
  "cur (update_block bm i f) = cur bm" "iter (update_block bm i f) = iter bm"
  "length (blocks (update_block bm i f)) = length (blocks bm)"
  by (simp_all add: update_block_def)

lemma wf_blocks_update:
  assumes "wf_blocks bbs" and "\<And>p. length (f p) = length p"
  shows "wf_blocks (bbs[i := (bbs ! i)\<lparr>data := f (data (bbs ! i))\<rparr>])"
proof (cases "i < length bbs")
  case True
  let ?bbs = "bbs[i := (bbs ! i)\<lparr>data := f (data (bbs ! i))\<rparr>]"
  have "start_pfn (?bbs ! j) = start_pfn (bbs ! j) \<and> end_pfn (?bbs ! j) = end_pfn (bbs ! j) \<and>
      length (data (?bbs ! j)) = length (data (bbs ! j))" if "j < length bbs" for j
    using that True by (simp add: nth_list_update assms(2))
  with assms(1) show ?thesis
    by (simp add: wf_blocks_def list_all_length sorted_wrt_iff_nth_less wf_block_def)
qed (use assms(1) in \<open>simp add: list_update_beyond\<close>)

lemma wf_update_block:
  assumes "wf_bm bm" and "\<And>p. length (f p) = length p"
  shows "wf_bm (update_block bm i f)"
  using assms wf_blocks_update [of "blocks bm" f i]
  by (simp add: wf_bm_def) (simp add: update_block_def)

lemma bm_mem_update_block:
  assumes "i < length (blocks bm)"
  shows "m \<in> bm_mem (update_block bm i f) \<longleftrightarrow>
    m \<in> block_mem ((blocks bm ! i)\<lparr>data := f (data (blocks bm ! i))\<rparr>) \<or>
    (\<exists>j < length (blocks bm). j \<noteq> i \<and> m \<in> block_mem (blocks bm ! j))"
  using assms by (auto simp: bm_mem_iff update_block_def nth_list_update)

lemma block_mem_holds:
  "unat pfn \<in> block_mem (bbs ! j) \<Longrightarrow> j < length bbs \<Longrightarrow> holds bbs pfn j"
  by (simp add: block_mem_def holds_def word_le_nat_alt word_less_nat_alt)

lemma cur_update_simps [simp]:
  "bm_mem (bm\<lparr>cur := c\<rparr>) = bm_mem bm" "bm_ranges (bm\<lparr>cur := c\<rparr>) = bm_ranges bm"
  "bm_univ (bm\<lparr>cur := c\<rparr>) = bm_univ bm"
  by (simp_all add: bm_mem_def bm_ranges_def bm_univ_def)

lemma holdsE:
  assumes "wf_bm bm" and "unat pfn \<in> bm_univ bm"
  obtains i where "holds (blocks bm) pfn i" and "i < length (blocks bm)" and "wf_block (blocks bm ! i)"
    and "start_pfn (blocks bm ! i) \<le> pfn" and "pfn < end_pfn (blocks bm ! i)"
  using assms block_pfns_holds [of pfn "blocks bm"] wf_block_nth [of "blocks bm"]
  by (auto simp: bm_univ_def wf_bm_def holds_def)

lemma set_bit_correct:
  assumes wf: "wf_bm bm" and univ: "unat pfn \<in> bm_univ bm"
  shows "\<exists>bm'. memory_bm_set_bit bm pfn = Some bm' \<and> wf_bm bm' \<and>
    bm_mem bm' = insert (unat pfn) (bm_mem bm) \<and> bm_ranges bm' = bm_ranges bm \<and> iter bm' = iter bm"
proof -
  obtain i where i: "holds (blocks bm) pfn i" "i < length (blocks bm)" "wf_block (blocks bm ! i)"
    "start_pfn (blocks bm ! i) \<le> pfn" "pfn < end_pfn (blocks bm ! i)"
    using holdsE [OF assms] by blast
  let ?n = "unat pfn - unat (start_pfn (blocks bm ! i))"
  let ?bm = "bm\<lparr>cur := \<lparr>pos_block = i, pos_bit = ?n + 1\<rparr>\<rparr>"
  let ?bm' = "update_block ?bm i (\<lambda>p. page_set_bit p ?n)"
  have res: "memory_bm_set_bit bm pfn = Some ?bm'"
    by (simp add: memory_bm_set_bit_def find_bit_found [OF wf i(1)])
  have "wf_bm ?bm" using wf i(2) by (simp add: wf_bm_def)
  then have "wf_bm ?bm'" by (simp add: wf_update_block)
  moreover have "bm_mem ?bm' = insert (unat pfn) (bm_mem bm)"
    using i(2) by (auto simp: bm_mem_update_block block_mem_set [OF i(3-5)] bm_mem_iff [of _ bm])
  ultimately show ?thesis using res by simp
qed

lemma clear_bit_correct:
  assumes wf: "wf_bm bm" and univ: "unat pfn \<in> bm_univ bm"
  shows "\<exists>bm'. memory_bm_clear_bit bm pfn = Some bm' \<and> wf_bm bm' \<and>
    bm_mem bm' = bm_mem bm - {unat pfn} \<and> bm_ranges bm' = bm_ranges bm \<and> iter bm' = iter bm"
proof -
  obtain i where i: "holds (blocks bm) pfn i" "i < length (blocks bm)" "wf_block (blocks bm ! i)"
    "start_pfn (blocks bm ! i) \<le> pfn" "pfn < end_pfn (blocks bm ! i)"
    using holdsE [OF assms] by blast
  let ?n = "unat pfn - unat (start_pfn (blocks bm ! i))"
  let ?bm = "bm\<lparr>cur := \<lparr>pos_block = i, pos_bit = ?n + 1\<rparr>\<rparr>"
  let ?bm' = "update_block ?bm i (\<lambda>p. page_clear_bit p ?n)"
  have res: "memory_bm_clear_bit bm pfn = Some ?bm'"
    by (simp add: memory_bm_clear_bit_def find_bit_found [OF wf i(1)])
  have "wf_bm ?bm" using wf i(2) by (simp add: wf_bm_def)
  then have "wf_bm ?bm'" by (simp add: wf_update_block)
  moreover have "unat pfn \<notin> block_mem (blocks bm ! j)" if "j < length (blocks bm)" "j \<noteq> i" for j
    using that block_mem_holds [of pfn "blocks bm" j] holds_unique [OF _ i(1), of j] wf
    by (auto simp: wf_bm_def)
  then have "bm_mem ?bm' = bm_mem bm - {unat pfn}"
    using i(2) by (auto simp: bm_mem_update_block block_mem_clear [OF i(3-5)] bm_mem_iff [of _ bm])
  ultimately show ?thesis using res by simp
qed

lemma test_bit_correct:
  assumes wf: "wf_bm bm" and univ: "unat pfn \<in> bm_univ bm"
  shows "\<exists>bm'. memory_bm_test_bit bm pfn = Some (unat pfn \<in> bm_mem bm, bm') \<and> wf_bm bm' \<and>
    bm_mem bm' = bm_mem bm \<and> bm_ranges bm' = bm_ranges bm \<and> iter bm' = iter bm"
proof -
  obtain i where i: "holds (blocks bm) pfn i" "i < length (blocks bm)" "wf_block (blocks bm ! i)"
    "start_pfn (blocks bm ! i) \<le> pfn" "pfn < end_pfn (blocks bm ! i)"
    using holdsE [OF assms] by blast
  have "page_test_bit (data (blocks bm ! i)) (unat pfn - unat (start_pfn (blocks bm ! i))) \<longleftrightarrow>
      unat pfn \<in> bm_mem bm"
  proof
    assume "unat pfn \<in> bm_mem bm"
    then obtain j where "j < length (blocks bm)" "unat pfn \<in> block_mem (blocks bm ! j)"
      by (auto simp: bm_mem_iff)
    moreover from this have "j = i"
      using holds_unique [OF _ block_mem_holds i(1)] wf by (simp add: wf_bm_def)
    ultimately show "page_test_bit (data (blocks bm ! i)) (unat pfn - unat (start_pfn (blocks bm ! i)))"
      by (simp add: block_mem_def)
  next
    assume "page_test_bit (data (blocks bm ! i)) (unat pfn - unat (start_pfn (blocks bm ! i)))"
    with i show "unat pfn \<in> bm_mem bm"
      unfolding bm_mem_iff block_mem_def by (auto simp: word_le_nat_alt word_less_nat_alt)
  qed
  moreover have "wf_bm (bm\<lparr>cur := \<lparr>pos_block = i, pos_bit = b\<rparr>\<rparr>)" for b
    using wf i(2) by (simp add: wf_bm_def)
  ultimately show ?thesis
    by (simp add: memory_bm_test_bit_def find_bit_found [OF wf i(1)])
qed

section \<open>The interface of a bitmap\<close>

text \<open>A loop that applies an operation to one pfn after the other; \<open>None\<close> is a bug on the way.\<close>

fun bm_fold :: "('b \<Rightarrow> ulong \<Rightarrow> 'b option) \<Rightarrow> 'b \<Rightarrow> ulong list \<Rightarrow> 'b option" where
  "bm_fold f b [] = Some b"
| "bm_fold f b (pfn # pfns) = Option.bind (f b pfn) (\<lambda>b'. bm_fold f b' pfns)"

text \<open>What the users of a bitmap rely on: it is a set of pfns within a fixed universe.\<close>

locale pfn_bitmap =
  fixes set_b clear_b :: "'b \<Rightarrow> ulong \<Rightarrow> 'b option"
    and test_b :: "'b \<Rightarrow> ulong \<Rightarrow> (bool \<times> 'b) option"
    and inv_b :: "'b \<Rightarrow> bool"
    and univ_b mem_b :: "'b \<Rightarrow> nat set"
  assumes set_law: "inv_b b \<Longrightarrow> unat pfn \<in> univ_b b \<Longrightarrow>
      \<exists>b'. set_b b pfn = Some b' \<and> inv_b b' \<and> univ_b b' = univ_b b \<and> mem_b b' = insert (unat pfn) (mem_b b)"
    and clear_law: "inv_b b \<Longrightarrow> unat pfn \<in> univ_b b \<Longrightarrow>
      \<exists>b'. clear_b b pfn = Some b' \<and> inv_b b' \<and> univ_b b' = univ_b b \<and> mem_b b' = mem_b b - {unat pfn}"
    and test_law: "inv_b b \<Longrightarrow> unat pfn \<in> univ_b b \<Longrightarrow>
      \<exists>b'. test_b b pfn = Some (unat pfn \<in> mem_b b, b') \<and> inv_b b' \<and> univ_b b' = univ_b b \<and> mem_b b' = mem_b b"
begin

lemma set_all:
  assumes "inv_b b" and "\<forall>pfn \<in> set pfns. unat pfn \<in> univ_b b"
  shows "\<exists>b'. bm_fold set_b b pfns = Some b' \<and> inv_b b' \<and> univ_b b' = univ_b b \<and>
    mem_b b' = mem_b b \<union> unat ` set pfns"
  using assms
proof (induction pfns arbitrary: b)
  case (Cons pfn pfns)
  then obtain b1 where "set_b b pfn = Some b1" "inv_b b1" "univ_b b1 = univ_b b"
    "mem_b b1 = insert (unat pfn) (mem_b b)"
    using set_law [of b pfn] by auto
  with Cons.IH [of b1] Cons.prems(2) show ?case by auto
qed simp

lemma clear_all:
  assumes "inv_b b" and "\<forall>pfn \<in> set pfns. unat pfn \<in> univ_b b"
  shows "\<exists>b'. bm_fold clear_b b pfns = Some b' \<and> inv_b b' \<and> univ_b b' = univ_b b \<and>
    mem_b b' = mem_b b - unat ` set pfns"
  using assms
proof (induction pfns arbitrary: b)
  case (Cons pfn pfns)
  then obtain b1 where "clear_b b pfn = Some b1" "inv_b b1" "univ_b b1 = univ_b b"
    "mem_b b1 = mem_b b - {unat pfn}"
    using clear_law [of b pfn] by auto
  with Cons.IH [of b1] Cons.prems(2) show ?case by auto
qed simp

lemma set_then_test:
  assumes "inv_b b" and "unat pfn \<in> univ_b b" and "unat q \<in> univ_b b" and "set_b b pfn = Some b'"
  shows "map_option fst (test_b b' q) = Some (q = pfn \<or> unat q \<in> mem_b b)"
  using set_law [OF assms(1,2)] test_law [of b' q] assms(3,4) by (auto simp: word_unat_eq_iff)

lemma clear_then_test:
  assumes "inv_b b" and "unat pfn \<in> univ_b b" and "unat q \<in> univ_b b" and "clear_b b pfn = Some b'"
  shows "map_option fst (test_b b' q) = Some (q \<noteq> pfn \<and> unat q \<in> mem_b b)"
  using clear_law [OF assms(1,2)] test_law [of b' q] assms(3,4) by (auto simp: word_unat_eq_iff)

end

interpretation mem_bm: pfn_bitmap memory_bm_set_bit memory_bm_clear_bit memory_bm_test_bit wf_bm bm_univ bm_mem
proof
  fix b :: memory_bitmap and pfn :: ulong
  assume *: "wf_bm b" "unat pfn \<in> bm_univ b"
  show "\<exists>b'. memory_bm_set_bit b pfn = Some b' \<and> wf_bm b' \<and> bm_univ b' = bm_univ b \<and>
      bm_mem b' = insert (unat pfn) (bm_mem b)"
    using set_bit_correct [OF *] by (auto simp: bm_univ_ranges)
  show "\<exists>b'. memory_bm_clear_bit b pfn = Some b' \<and> wf_bm b' \<and> bm_univ b' = bm_univ b \<and>
      bm_mem b' = bm_mem b - {unat pfn}"
    using clear_bit_correct [OF *] by (auto simp: bm_univ_ranges)
  show "\<exists>b'. memory_bm_test_bit b pfn = Some (unat pfn \<in> bm_mem b, b') \<and> wf_bm b' \<and>
      bm_univ b' = bm_univ b \<and> bm_mem b' = bm_mem b"
    using test_bit_correct [OF *] by (auto simp: bm_univ_ranges)
qed

section \<open>Iteration\<close>

text \<open>The members of a block from a bit on, and the members that are ahead of the iterator.\<close>

definition block_from :: "bm_block \<Rightarrow> nat \<Rightarrow> nat list" where
  "block_from bb n = map (\<lambda>i. unat (start_pfn bb) + i)
     (filter (page_test_bit (data bb)) [n ..< bm_block_bits bb])"

definition from_pos :: "bm_block list \<Rightarrow> nat \<Rightarrow> nat \<Rightarrow> nat list" where
  "from_pos bbs i n =
     (case drop i bbs of [] \<Rightarrow> [] | bb # rest \<Rightarrow> block_from bb n @ concat (map (\<lambda>bb. block_from bb 0) rest))"

definition bm_ahead :: "memory_bitmap \<Rightarrow> nat list" where
  "bm_ahead bm = from_pos (blocks bm) (pos_block (iter bm)) (pos_bit (iter bm))"

lemma bm_block_bits_eq: "wf_block bb \<Longrightarrow> bm_block_bits bb = unat (end_pfn bb) - unat (start_pfn bb)"
  by (simp add: bm_block_bits_def wf_block_def unat_sub [OF less_imp_le])

lemma find_next_bit_filter:
  "filter (page_test_bit p) [n ..< bits] =
     (let b = find_next_bit p bits n
      in if b < bits then b # filter (page_test_bit p) [Suc b ..< bits] else [])"
proof (induction p bits n rule: find_next_bit.induct)
  case (1 p bits n)
  then show ?case
    by (simp add: find_next_bit.simps [of p bits n] Let_def upt_conv_Cons)
qed

lemma next_set_bit_from_pos:
  "case next_set_bit bbs i n of
     None \<Rightarrow> from_pos bbs i n = []
   | Some (j, b) \<Rightarrow> j < length bbs \<and> b < bm_block_bits (bbs ! j) \<and>
       from_pos bbs i n = (unat (start_pfn (bbs ! j)) + b) # from_pos bbs j (Suc b)"
proof (induction bbs i n rule: next_set_bit.induct)
  case (1 bbs i n)
  show ?case
  proof (cases "length bbs \<le> i")
    case True
    then show ?thesis by (simp add: next_set_bit.simps [of bbs i n] from_pos_def)
  next
    case False
    let ?b = "find_next_bit (data (bbs ! i)) (bm_block_bits (bbs ! i)) n"
    have i: "drop i bbs = bbs ! i # drop (Suc i) bbs" using False by (simp add: drop_nth_split)
    show ?thesis
    proof (cases "?b < bm_block_bits (bbs ! i)")
      case True
      with False show ?thesis
        by (simp add: next_set_bit.simps [of bbs i n] from_pos_def i block_from_def
            find_next_bit_filter [of _ n] Let_def)
    next
      case b: False
      have "from_pos bbs i n = from_pos bbs (Suc i) 0"
        using b by (cases "drop (Suc i) bbs")
          (simp_all add: from_pos_def i block_from_def find_next_bit_filter [of _ n] Let_def)
      with 1 False b show ?thesis
        by (simp add: next_set_bit.simps [of bbs i n] Let_def split: option.splits prod.splits)
    qed
  qed
qed

lemma wf_bm_reset [simp]: "wf_bm (memory_bm_position_reset bm) \<longleftrightarrow> wf_blocks (blocks bm) \<and> blocks bm \<noteq> []"
  by (auto simp: wf_bm_def memory_bm_position_reset_def)

lemma reset_simps [simp]:
  "bm_mem (memory_bm_position_reset bm) = bm_mem bm"
  "bm_ranges (memory_bm_position_reset bm) = bm_ranges bm"
  "bm_univ (memory_bm_position_reset bm) = bm_univ bm"
  "blocks (memory_bm_position_reset bm) = blocks bm"
  by (simp_all add: memory_bm_position_reset_def bm_mem_def bm_ranges_def bm_univ_def)

text \<open>One call of the iterator, in terms of what is ahead.\<close>

lemma next_pfn_spec:
  assumes wf: "wf_bm bm"
  shows "case bm_ahead bm of
      [] \<Rightarrow> memory_bm_next_pfn bm = Some (BM_END_OF_MAP, memory_bm_position_reset bm)
    | n # ns \<Rightarrow> \<exists>i b. memory_bm_next_pfn bm =
          Some (of_nat n, bm\<lparr>iter := \<lparr>pos_block = i, pos_bit = b\<rparr>\<rparr>) \<and> i < length (blocks bm) \<and>
        n < 2 ^ 46 \<and> bm_ahead (bm\<lparr>iter := \<lparr>pos_block = i, pos_bit = b\<rparr>\<rparr>) = ns"
proof (cases "next_set_bit (blocks bm) (pos_block (iter bm)) (pos_bit (iter bm))")
  case None
  then show ?thesis
    using wf next_set_bit_from_pos [of "blocks bm" "pos_block (iter bm)" "pos_bit (iter bm)"]
    by (simp add: memory_bm_next_pfn_def bm_ahead_def wf_bm_def)
next
  case (Some ib)
  obtain i b where ib: "ib = (i, b)" by force
  let ?bb = "blocks bm ! i" and ?ns = "from_pos (blocks bm) i (Suc b)"
  have step: "i < length (blocks bm)" "b < bm_block_bits ?bb"
    "bm_ahead bm = (unat (start_pfn ?bb) + b) # ?ns"
    using Some ib next_set_bit_from_pos [of "blocks bm" "pos_block (iter bm)" "pos_bit (iter bm)"]
    by (simp_all add: bm_ahead_def)
  have "wf_block ?bb" using wf step(1) by (simp add: wf_bm_def wf_block_nth)
  then have "unat (start_pfn ?bb) + b < 2 ^ 46"
    using step(2) unfolding bm_block_bits_eq [OF \<open>wf_block ?bb\<close>] wf_block_def by linarith
  moreover have "of_nat (unat (start_pfn ?bb) + b) = start_pfn ?bb + of_nat b" by simp
  ultimately show ?thesis
    using wf Some ib step
    by (auto simp: memory_bm_next_pfn_def wf_bm_def bm_ahead_def)
qed

lemma block_from_0: "wf_block bb \<Longrightarrow> set (block_from bb 0) = block_mem bb"
proof -
  assume "wf_block bb"
  note bits = bm_block_bits_eq [OF this]
  show ?thesis
  proof
    show "set (block_from bb 0) \<subseteq> block_mem bb"
      by (auto simp: block_from_def block_mem_def bits)
    show "block_mem bb \<subseteq> set (block_from bb 0)"
    proof
      fix n
      assume "n \<in> block_mem bb"
      then have "n - unat (start_pfn bb) < bm_block_bits bb"
        "page_test_bit (data bb) (n - unat (start_pfn bb))" "n = unat (start_pfn bb) + (n - unat (start_pfn bb))"
        by (auto simp: block_mem_def bits)
      then show "n \<in> set (block_from bb 0)" by (force simp: block_from_def)
    qed
  qed
qed

lemma from_pos_start: "from_pos bbs 0 0 = concat (map (\<lambda>bb. block_from bb 0) bbs)"
  by (cases bbs) (simp_all add: from_pos_def)

lemma sorted_block_from: "sorted_wrt (<) (block_from bb n)"
  unfolding block_from_def sorted_wrt_map by (simp add: sorted_wrt_filter)

lemma sorted_block_list:
  assumes "wf_blocks bbs"
  shows "sorted_wrt (<) (concat (map (\<lambda>bb. block_from bb 0) bbs))"
  using assms
proof (induction bbs)
  case (Cons bb bbs)
  have "m < n" if "m \<in> set (block_from bb 0)" "bb' \<in> set bbs" "n \<in> set (block_from bb' 0)" for m n bb'
  proof -
    have "wf_block bb" "wf_block bb'" "unat (end_pfn bb) \<le> unat (start_pfn bb')"
      using Cons.prems that(2) by (auto simp: wf_blocks_Cons wf_blocks_def list_all_iff word_le_nat_alt)
    with that(1,3) show ?thesis by (auto simp: block_from_0 block_mem_def)
  qed
  with Cons show ?case
    by (auto simp: wf_blocks_Cons sorted_wrt_append sorted_block_from)
qed simp

lemma ahead_start:
  assumes "wf_blocks (blocks bm)"
  shows "set (bm_ahead (memory_bm_position_reset bm)) = bm_mem bm"
    and "sorted_wrt (<) (bm_ahead (memory_bm_position_reset bm))"
  using assms sorted_block_list [OF assms] block_from_0
  by (auto simp: bm_ahead_def memory_bm_position_reset_def from_pos_start bm_mem_def wf_blocks_def list_all_iff)

text \<open>Clearing a bit takes it, and nothing else, out of what is ahead.\<close>

lemma from_pos_filter:
  assumes "list_all2 (\<lambda>a b. \<forall>n. block_from b n = filter P (block_from a n)) xs ys"
  shows "from_pos ys i n = filter P (from_pos xs i n)"
proof -
  have tail: "concat (map (\<lambda>bb. block_from bb 0) bs) = filter P (concat (map (\<lambda>bb. block_from bb 0) as))"
    if "list_all2 (\<lambda>a b. \<forall>n. block_from b n = filter P (block_from a n)) as bs" for as bs
    using that by (induction rule: list_all2_induct) simp_all
  show ?thesis
    using list_all2_dropI [OF assms, of i]
    by (auto simp: from_pos_def tail list_all2_Cons1 list_all2_Cons2 split: list.splits)
qed

lemma block_from_clear:
  assumes "wf_block bb" and "start_pfn bb \<le> pfn" and "pfn < end_pfn bb"
  shows "block_from (bb\<lparr>data := page_clear_bit (data bb) (unat pfn - unat (start_pfn bb))\<rparr>) n =
    filter (\<lambda>m. m \<noteq> unat pfn) (block_from bb n)"
proof -
  have pfn: "unat (start_pfn bb) + (unat pfn - unat (start_pfn bb)) = unat pfn"
    "unat pfn - unat (start_pfn bb) < 8 * length (data bb)"
    and bits: "bm_block_bits bb \<le> 8 * length (data bb)"
    using assms bm_block_bits_eq [OF assms(1)]
    by (auto simp: wf_block_def word_le_nat_alt word_less_nat_alt)
  have "filter (page_test_bit (page_clear_bit (data bb) (unat pfn - unat (start_pfn bb)))) [n ..< bm_block_bits bb] =
      filter (\<lambda>i. unat (start_pfn bb) + i \<noteq> unat pfn \<and> page_test_bit (data bb) i) [n ..< bm_block_bits bb]"
    using pfn bits by (intro filter_cong) (auto simp: page_test_clear)
  then show ?thesis
    by (simp add: block_from_def bm_block_bits_def filter_map comp_def conj_commute)
qed

lemma ahead_clear:
  assumes wf: "wf_bm bm" and univ: "unat pfn \<in> bm_univ bm" and res: "memory_bm_clear_bit bm pfn = Some bm'"
  shows "bm_ahead bm' = filter (\<lambda>m. m \<noteq> unat pfn) (bm_ahead bm)"
proof -
  obtain i where i: "holds (blocks bm) pfn i" "i < length (blocks bm)" "wf_block (blocks bm ! i)"
    "start_pfn (blocks bm ! i) \<le> pfn" "pfn < end_pfn (blocks bm ! i)"
    using holdsE [OF wf univ] by blast
  let ?bb = "blocks bm ! i"
  let ?bbs = "(blocks bm)[i := ?bb\<lparr>data := page_clear_bit (data ?bb) (unat pfn - unat (start_pfn ?bb))\<rparr>]"
  have other: "unat pfn \<notin> set (block_from (blocks bm ! j) n)" if "j < length (blocks bm)" "j \<noteq> i" for j n
  proof
    assume "unat pfn \<in> set (block_from (blocks bm ! j) n)"
    moreover have "set (block_from (blocks bm ! j) n) \<subseteq> set (block_from (blocks bm ! j) 0)"
      by (auto simp: block_from_def)
    moreover have "wf_blocks (blocks bm)" using wf by (simp add: wf_bm_def)
    ultimately have "holds (blocks bm) pfn j"
      using that(1) block_mem_holds [of pfn "blocks bm" j] by (auto simp: block_from_0 wf_block_nth)
    with holds_unique [OF \<open>wf_blocks (blocks bm)\<close> i(1)] that(2) show False by simp
  qed
  have "list_all2 (\<lambda>a b. \<forall>n. block_from b n = filter (\<lambda>m. m \<noteq> unat pfn) (block_from a n)) (blocks bm) ?bbs"
    using i(2) block_from_clear [OF i(3-5)] other
    by (auto simp: list_all2_conv_all_nth nth_list_update intro!: filter_True [symmetric])
  from from_pos_filter [OF this]
  have "from_pos ?bbs (pos_block (iter bm)) (pos_bit (iter bm)) = filter (\<lambda>m. m \<noteq> unat pfn) (bm_ahead bm)"
    by (simp add: bm_ahead_def)
  moreover have "blocks bm' = ?bbs" "iter bm' = iter bm"
    using res by (auto simp: memory_bm_clear_bit_def find_bit_found [OF wf i(1)] update_block_def)
  ultimately show ?thesis by (simp add: bm_ahead_def)
qed

lemma not_end_of_map: "n < 2 ^ 46 \<Longrightarrow> of_nat n \<noteq> BM_END_OF_MAP \<and> unat (of_nat n :: ulong) = n"
proof -
  assume n: "n < 2 ^ 46"
  then have eq: "unat (of_nat n :: ulong) = n" by (simp add: unat_of_nat)
  have "unat BM_END_OF_MAP = 2 ^ 64 - 1"
    by (simp add: BM_END_OF_MAP_def unsigned_minus_1_eq_mask mask_eq_exp_minus_1)
  then have "n < unat BM_END_OF_MAP" using n by simp
  with eq show ?thesis by auto
qed

section \<open>Clearing and copying\<close>

lemma iter_update_simps [simp]:
  "bm_mem (bm\<lparr>iter := c\<rparr>) = bm_mem bm" "bm_ranges (bm\<lparr>iter := c\<rparr>) = bm_ranges bm"
  "bm_univ (bm\<lparr>iter := c\<rparr>) = bm_univ bm"
  by (simp_all add: bm_mem_def bm_ranges_def bm_univ_def)

lemma ranges_univ: "bm_ranges a = bm_ranges b \<Longrightarrow> bm_univ a = bm_univ b"
  by (simp add: bm_univ_ranges)

lemma next_pfn_Nil:
  assumes "wf_bm bm" and "bm_ahead bm = []"
  shows "memory_bm_next_pfn bm = Some (BM_END_OF_MAP, memory_bm_position_reset bm)"
  using next_pfn_spec [OF assms(1)] assms(2) by simp

lemma next_pfn_Cons:
  assumes "wf_bm bm" and "bm_ahead bm = n # ns"
  obtains bm' where "memory_bm_next_pfn bm = Some (of_nat n, bm')" and "wf_bm bm'"
    and "blocks bm' = blocks bm" and "bm_ahead bm' = ns" and "n < 2 ^ 46" and "bm_mem bm' = bm_mem bm"
    and "bm_ranges bm' = bm_ranges bm"
proof -
  obtain i b where step: "memory_bm_next_pfn bm = Some (of_nat n, bm\<lparr>iter := \<lparr>pos_block = i, pos_bit = b\<rparr>\<rparr>)"
    "i < length (blocks bm)" "n < 2 ^ 46" "bm_ahead (bm\<lparr>iter := \<lparr>pos_block = i, pos_bit = b\<rparr>\<rparr>) = ns"
    using next_pfn_spec [OF assms(1)] assms(2) by auto
  with that [of "bm\<lparr>iter := \<lparr>pos_block = i, pos_bit = b\<rparr>\<rparr>"] assms(1) show ?thesis
    by (simp add: wf_bm_def)
qed

lemma clear_loop_correct:
  assumes "wf_bm bm" and "unat pfn \<in> bm_univ bm" and "pfn \<noteq> BM_END_OF_MAP" and "bm_ahead bm = ns"
    and "distinct (unat pfn # ns)" and "set ns \<subseteq> bm_univ bm"
  shows "\<exists>bm'. clear_loop bm pfn = Some bm' \<and> wf_bm bm' \<and>
    bm_mem bm' = bm_mem bm - insert (unat pfn) (set ns) \<and> bm_ranges bm' = bm_ranges bm"
  using assms
proof (induction ns arbitrary: bm pfn)
  case (Cons n ns)
  obtain bm1 where bm1: "memory_bm_clear_bit bm pfn = Some bm1" "wf_bm bm1"
    "bm_mem bm1 = bm_mem bm - {unat pfn}" "bm_ranges bm1 = bm_ranges bm"
    using clear_bit_correct [OF Cons.prems(1,2)] by blast
  have "bm_ahead bm1 = n # ns"
    using ahead_clear [OF Cons.prems(1,2) bm1(1)] Cons.prems(4,5) by (auto intro: filter_True)
  then obtain bm2 where bm2: "memory_bm_next_pfn bm1 = Some (of_nat n, bm2)" "wf_bm bm2" "bm_ahead bm2 = ns"
    "n < 2 ^ 46" "bm_mem bm2 = bm_mem bm1" "bm_ranges bm2 = bm_ranges bm1"
    using next_pfn_Cons [OF bm1(2)] by blast
  have univ: "bm_univ bm2 = bm_univ bm" by (rule ranges_univ) (simp add: bm1 bm2)
  obtain bm3 where "clear_loop bm2 (of_nat n) = Some bm3" "wf_bm bm3"
    "bm_mem bm3 = bm_mem bm2 - insert n (set ns)" "bm_ranges bm3 = bm_ranges bm2"
    using Cons.IH [OF bm2(2) _ _ bm2(3), of "of_nat n"] Cons.prems(5,6) not_end_of_map [OF bm2(4)]
    by (auto simp: univ)
  then show ?case
    using Cons.prems(3) bm1 bm2 by (subst clear_loop.simps) auto
next
  case Nil
  obtain bm1 where bm1: "memory_bm_clear_bit bm pfn = Some bm1" "wf_bm bm1"
    "bm_mem bm1 = bm_mem bm - {unat pfn}" "bm_ranges bm1 = bm_ranges bm"
    using clear_bit_correct [OF Nil.prems(1,2)] by blast
  have "bm_ahead bm1 = []"
    using ahead_clear [OF Nil.prems(1,2) bm1(1)] Nil.prems(4) by simp
  from next_pfn_Nil [OF bm1(2) this] bm1 Nil.prems(3) show ?case
    by (subst clear_loop.simps)
      (simp add: clear_loop.simps [of _ BM_END_OF_MAP] wf_bm_def [of bm1])
qed

lemma bm_clear_correct:
  assumes wf: "wf_bm bm"
  shows "\<exists>bm'. memory_bm_clear bm = Some bm' \<and> wf_bm bm' \<and> bm_mem bm' = {} \<and> bm_ranges bm' = bm_ranges bm"
proof -
  let ?bm = "memory_bm_position_reset bm"
  have blocks: "wf_blocks (blocks bm)" "blocks bm \<noteq> []" using wf by (simp_all add: wf_bm_def)
  then have wf': "wf_bm ?bm" by simp
  note start = ahead_start [OF blocks(1)]
  show ?thesis
  proof (cases "bm_ahead ?bm")
    case Nil
    with next_pfn_Nil [OF wf' Nil] start blocks show ?thesis
      by (simp add: memory_bm_clear_def clear_loop.simps [of _ BM_END_OF_MAP])
  next
    case (Cons n ns)
    obtain bm1 where bm1: "memory_bm_next_pfn ?bm = Some (of_nat n, bm1)" "wf_bm bm1" "bm_ahead bm1 = ns"
      "n < 2 ^ 46" "bm_mem bm1 = bm_mem ?bm" "bm_ranges bm1 = bm_ranges ?bm"
      using next_pfn_Cons [OF wf' Cons] by blast
    have "insert n (set ns) = bm_mem bm1" "distinct (n # ns)"
      using start Cons bm1(5) by (auto simp: strict_sorted_iff)
    then show ?thesis
      using clear_loop_correct [OF bm1(2) _ _ bm1(3), of "of_nat n"] not_end_of_map [OF bm1(4)]
        bm_mem_univ [of bm1] bm1 by (auto simp: memory_bm_clear_def)
  qed
qed

lemma copy_loop_correct:
  assumes "wf_bm src" and "wf_bm dst" and "unat pfn \<in> bm_univ dst" and "pfn \<noteq> BM_END_OF_MAP"
    and "bm_ahead src = ns" and "set ns \<subseteq> bm_univ dst"
  shows "\<exists>src' dst'. copy_loop src dst pfn = Some (src', dst') \<and> wf_bm src' \<and> wf_bm dst' \<and>
    blocks src' = blocks src \<and> bm_mem dst' = bm_mem dst \<union> insert (unat pfn) (set ns) \<and>
    bm_ranges dst' = bm_ranges dst"
  using assms
proof (induction ns arbitrary: src dst pfn)
  case (Cons n ns)
  obtain dst1 where dst1: "memory_bm_set_bit dst pfn = Some dst1" "wf_bm dst1"
    "bm_mem dst1 = insert (unat pfn) (bm_mem dst)" "bm_ranges dst1 = bm_ranges dst"
    using set_bit_correct [OF Cons.prems(2,3)] by blast
  obtain src1 where src1: "memory_bm_next_pfn src = Some (of_nat n, src1)" "wf_bm src1"
    "blocks src1 = blocks src" "bm_ahead src1 = ns" "n < 2 ^ 46"
    using next_pfn_Cons [OF Cons.prems(1,5)] by blast
  have univ: "bm_univ dst1 = bm_univ dst" by (rule ranges_univ) (simp add: dst1)
  obtain src2 dst2 where "copy_loop src1 dst1 (of_nat n) = Some (src2, dst2)" "wf_bm src2" "wf_bm dst2"
    "blocks src2 = blocks src1" "bm_mem dst2 = bm_mem dst1 \<union> insert n (set ns)"
    "bm_ranges dst2 = bm_ranges dst1"
    using Cons.IH [OF src1(2) dst1(2) _ _ src1(4), of "of_nat n"] Cons.prems(6) not_end_of_map [OF src1(5)]
    by (auto simp: univ)
  then show ?case
    using Cons.prems(4) src1 dst1 by (subst copy_loop.simps) auto
next
  case Nil
  obtain dst1 where dst1: "memory_bm_set_bit dst pfn = Some dst1" "wf_bm dst1"
    "bm_mem dst1 = insert (unat pfn) (bm_mem dst)" "bm_ranges dst1 = bm_ranges dst"
    using set_bit_correct [OF Nil.prems(2,3)] by blast
  have "wf_bm (memory_bm_position_reset src)" using Nil.prems(1) by (simp add: wf_bm_def [of src])
  with next_pfn_Nil [OF Nil.prems(1,5)] dst1 Nil.prems(4) show ?case
    by (subst copy_loop.simps) (simp add: copy_loop.simps [of _ _ BM_END_OF_MAP])
qed

lemma bm_copy_correct:
  assumes wf: "wf_bm src" "wf_bm dst" and sub: "bm_mem src \<subseteq> bm_univ dst"
  shows "\<exists>src' dst'. memory_bm_copy src dst = Some (src', dst') \<and> wf_bm src' \<and> wf_bm dst' \<and>
    blocks src' = blocks src \<and> bm_mem dst' = bm_mem dst \<union> bm_mem src \<and> bm_ranges dst' = bm_ranges dst"
proof -
  let ?src = "memory_bm_position_reset src"
  have blocks: "wf_blocks (blocks src)" "blocks src \<noteq> []" using wf by (simp_all add: wf_bm_def)
  then have wf': "wf_bm ?src" by simp
  note start = ahead_start [OF blocks(1)]
  show ?thesis
  proof (cases "bm_ahead ?src")
    case Nil
    with next_pfn_Nil [OF wf' Nil] start blocks wf(2) show ?thesis
      by (simp add: memory_bm_copy_def copy_loop.simps [of _ _ BM_END_OF_MAP])
  next
    case (Cons n ns)
    obtain src1 where src1: "memory_bm_next_pfn ?src = Some (of_nat n, src1)" "wf_bm src1"
      "blocks src1 = blocks ?src" "bm_ahead src1 = ns" "n < 2 ^ 46"
      using next_pfn_Cons [OF wf' Cons] by blast
    have "insert n (set ns) = bm_mem src" using start Cons by auto
    with sub show ?thesis
      using copy_loop_correct [OF src1(2) wf(2) _ _ src1(4), of "of_nat n"] not_end_of_map [OF src1(5)] src1
      by (auto simp: memory_bm_copy_def)
  qed
qed

section \<open>The copy in the header\<close>

text \<open>The bytes of a bitmap.\<close>

definition blocks_bytes :: "bm_block list \<Rightarrow> byte list" where
  "blocks_bytes bbs = concat (map (\<lambda>bb. block_bytes bb @ data bb) bbs)"

definition bm_bytes :: "bm_block list \<Rightarrow> byte list" where
  "bm_bytes bbs = int_bytes (int (length bbs)) @ blocks_bytes bbs"

lemma length_block_bytes [simp]: "length (block_bytes bb) = 16"
  by (simp add: block_bytes_def)

lemma length_blocks_bytes:
  "wf_blocks bbs \<Longrightarrow> length (blocks_bytes bbs) = 4112 * length bbs"
  by (induction bbs) (simp_all add: blocks_bytes_def wf_blocks_Cons wf_block_def)

lemma length_bm_bytes: "wf_blocks bbs \<Longrightarrow> length (bm_bytes bbs) = 4 + 4112 * length bbs"
  by (simp add: bm_bytes_def length_blocks_bytes)

lemma le_nat_int_bytes: "n < 2 ^ 32 \<Longrightarrow> le_nat (int_bytes (int n)) = n"
  by (simp add: int_bytes_def le_nat_le_bytes nat_mod_as_int)

lemma find_start_append:
  "start_pfn bb = pfn \<Longrightarrow> \<forall>b \<in> set pre. start_pfn b \<noteq> pfn \<Longrightarrow>
     find_start pfn (pre @ bb # post) = Some (length pre)"
  by (induction pre) auto

context header_sink
begin

lemma write_blocks_sink:
  assumes "sink s n acc" and "length (blocks_bytes bbs) \<le> n"
  shows "\<exists>s'. write_blocks wr bbs s = Some (0, s') \<and>
    sink s' (n - length (blocks_bytes bbs)) (acc @ blocks_bytes bbs)"
  using assms
proof (induction bbs arbitrary: s n acc)
  case (Cons bb bbs)
  let ?d = "length (data bb)" and ?r = "length (blocks_bytes bbs)"
  have room: "length (block_bytes bb) \<le> n" "?d \<le> n - 16" "?r \<le> n - 16 - ?d"
    using Cons.prems(2) by (simp_all add: blocks_bytes_def)
  obtain s1 where s1: "wr s (block_bytes bb) = Some (0, s1)" "sink s1 (n - 16) (acc @ block_bytes bb)"
    using wr_chunkE [OF Cons.prems(1) room(1)] by auto
  obtain s2 where s2: "wr s1 (data bb) = Some (0, s2)" "sink s2 (n - 16 - ?d) ((acc @ block_bytes bb) @ data bb)"
    using wr_chunkE [OF s1(2) room(2)] by blast
  obtain s3 where "write_blocks wr bbs s2 = Some (0, s3)"
    "sink s3 (n - 16 - ?d - ?r) (((acc @ block_bytes bb) @ data bb) @ blocks_bytes bbs)"
    using Cons.IH [OF s2(2) room(3)] by blast
  with s1 s2 show ?case by (simp add: blocks_bytes_def add.assoc)
qed (simp add: blocks_bytes_def)

lemma bm_write_sink:
  assumes "sink s n acc" and "length (bm_bytes (blocks bm)) \<le> n"
  shows "\<exists>s'. memory_bm_write wr (Some bm) s = Some (0, s') \<and>
    sink s' (n - length (bm_bytes (blocks bm))) (acc @ bm_bytes (blocks bm))"
proof -
  have room: "length (int_bytes (int (length (blocks bm)))) \<le> n" "length (blocks_bytes (blocks bm)) \<le> n - 4"
    using assms(2) by (simp_all add: bm_bytes_def)
  obtain s1 where s1: "wr s (int_bytes (int (length (blocks bm)))) = Some (0, s1)"
    "sink s1 (n - 4) (acc @ int_bytes (int (length (blocks bm))))"
    using wr_chunkE [OF assms(1) room(1)] by auto
  with write_blocks_sink [OF s1(2) room(2)] show ?thesis
    by (auto simp: memory_bm_write_def bm_bytes_def)
qed

end

context header_source
begin

lemma read_blocks_source:
  assumes "ahead s (blocks_bytes bbs @ rest)" and "wf_blocks (pre @ bbs)" and "blocks bm = pre @ blanks"
    and "map (\<lambda>bb. (start_pfn bb, end_pfn bb)) blanks = map (\<lambda>bb. (start_pfn bb, end_pfn bb)) bbs"
  shows "\<exists>s'. read_blocks rd (length bbs) bm s = Some (0, bm\<lparr>blocks := pre @ bbs\<rparr>, s') \<and> ahead s' rest"
  using assms
proof (induction bbs arbitrary: s pre blanks bm)
  case Nil
  then show ?case by (cases bm) (simp add: blocks_bytes_def)
next
  case (Cons bb bbs)
  then obtain bl blanks' where bl: "blanks = bl # blanks'" "start_pfn bl = start_pfn bb" "end_pfn bl = end_pfn bb"
    "map (\<lambda>bb. (start_pfn bb, end_pfn bb)) blanks' = map (\<lambda>bb. (start_pfn bb, end_pfn bb)) bbs"
    by (auto simp: Cons_eq_map_conv)
  have "wf_block bb" and order: "\<forall>a \<in> set pre. end_pfn a \<le> start_pfn bb \<and> start_pfn a < end_pfn a"
    using Cons.prems(2) by (auto simp: wf_blocks_append wf_blocks_Cons) (auto simp: wf_blocks_def list_all_iff wf_block_def)
  then have len: "length (data bb) = 4096" by (simp add: wf_block_def)
  have find: "find_start (start_pfn bb) (blocks bm) = Some (length pre)"
    unfolding Cons.prems(3) bl(1) by (rule find_start_append [OF bl(2)]) (use order in force)
  let ?rest = "blocks_bytes bbs @ rest"
  obtain s1 where s1: "rd s 8 = Some (0, ulong_bytes (start_pfn bb), s1)" "ahead s1 (ulong_bytes (end_pfn bb) @ data bb @ ?rest)"
    using rd_chunkE [of s "ulong_bytes (start_pfn bb)" "ulong_bytes (end_pfn bb) @ data bb @ ?rest" 8] Cons.prems(1)
    by (auto simp: blocks_bytes_def block_bytes_def)
  obtain s2 where s2: "rd s1 8 = Some (0, ulong_bytes (end_pfn bb), s2)" "ahead s2 (data bb @ ?rest)"
    using rd_chunkE [OF s1(2), of 8] by auto
  obtain s3 where s3: "rd s2 4096 = Some (0, data bb, s3)" "ahead s3 ?rest"
    using rd_chunkE [OF s2(2) len] by blast
  let ?bm = "update_block bm (length pre) (\<lambda>_. data bb)"
  have bm: "blocks ?bm = (pre @ [bb]) @ blanks'"
    using bl by (cases bl; cases bb) (simp add: update_block_def Cons.prems(3))
  obtain s4 where "read_blocks rd (length bbs) ?bm s3 = Some (0, ?bm\<lparr>blocks := (pre @ [bb]) @ bbs\<rparr>, s4)" "ahead s4 rest"
    using Cons.IH [OF s3(2) _ bm bl(4)] Cons.prems(2) by auto
  moreover have "?bm\<lparr>blocks := (pre @ [bb]) @ bbs\<rparr> = bm\<lparr>blocks := pre @ bb # bbs\<rparr>"
    by (simp add: update_block_def)
  ultimately show ?case
    using s1(1) s2(1) s3(1) find bl by (simp add: Cons.prems(3))
qed

lemma bm_read_source:
  assumes "ahead s (bm_bytes bbs @ rest)" and "wf_blocks bbs" and "length bbs < 2 ^ 32"
    and "memory_bm_create got k zones bm = (0, bm1, k1)"
    and "bm_ranges bm1 = map (\<lambda>bb. (start_pfn bb, end_pfn bb)) bbs"
  shows "\<exists>s'. memory_bm_read got k zones rd bm s = Some (0, bm1\<lparr>blocks := bbs\<rparr>, s') \<and> ahead s' rest"
proof -
  obtain s1 where s1: "rd s 4 = Some (0, int_bytes (int (length bbs)), s1)" "ahead s1 (blocks_bytes bbs @ rest)"
    using rd_chunkE [of s "int_bytes (int (length bbs))" "blocks_bytes bbs @ rest" 4] assms(1)
    by (auto simp: bm_bytes_def)
  obtain s2 where "read_blocks rd (length bbs) bm1 s1 = Some (0, bm1\<lparr>blocks := bbs\<rparr>, s2)" "ahead s2 rest"
    using read_blocks_source [OF s1(2), of "[]" bm1 "blocks bm1"] assms(2,5) by (auto simp: bm_ranges_def)
  with s1(1) assms(3,4) show ?thesis by (simp add: memory_bm_read_def le_nat_int_bytes)
qed

end

section \<open>Properties\<close>

lemma page_test_blank: "n < 8 * PAGE_SIZE \<Longrightarrow> \<not> page_test_bit (replicate PAGE_SIZE 0) n"
  by (simp add: page_test_bit_def)

lemma blank_mem:
  assumes "wf_block bb" and "blank bb"
  shows "block_mem bb = {}"
  using assms page_test_blank by (auto simp: block_mem_def blank_def wf_block_def)

lemma bm_create_mem:
  assumes "memory_bm_create got k zones bm = (0, bm', k')" and "\<forall>z \<in> set zones. wf_zone z"
  shows "bm_mem bm' = {}" and "bm_univ bm' = (\<Union>z \<in> set zones. zone_pfns z)"
    and "zones \<noteq> [] \<Longrightarrow> wf_bm bm'"
proof -
  note created = memory_bm_create_blocks [OF assms]
  show univ: "bm_univ bm' = (\<Union>z \<in> set zones. zone_pfns z)"
    using created(2) by (simp add: bm_univ_def)
  show "bm_mem bm' = {}"
    using created(1,3) blank_mem by (auto simp: bm_mem_def wf_blocks_def list_all_iff)
  assume "zones \<noteq> []"
  then obtain z where "z \<in> set zones" by (cases zones) auto
  moreover from this assms(2) have "unat (zone_start_pfn z) \<in> zone_pfns z"
    by (auto simp: wf_zone_def zone_pfns_def word_less_nat_alt)
  ultimately have "blocks bm' \<noteq> []"
    using univ by (auto simp: bm_univ_def)
  with created show "wf_bm bm'" by (simp add: wf_bm_def)
qed

text \<open>
  C13. \<open>memory_bm_create\<close> over any list of populated zones (in any order, overlapping or not)
  either gives a well-formed bitmap with exactly one bit for each page frame of the zones, all
  clear, or fails with \<open>-ENOMEM\<close>, which needs a failed allocation and leaves no block behind.
\<close>

theorem memory_bm_create_layout:
  assumes "zones \<noteq> []" and "\<forall>z \<in> set zones. wf_zone z"
    and "memory_bm_create got k zones bm = (ret, bm', k')"
  shows "if ret = 0
         then wf_bm bm' \<and> bm_univ bm' = (\<Union>z \<in> set zones. zone_pfns z) \<and> bm_mem bm' = {}
         else ret = - ENOMEM \<and> \<not> (\<forall>i. got i) \<and> blocks bm' = []"
  using assms bm_create_mem [OF _ assms(2), of got k bm bm' k'] memory_bm_create_ret [OF assms(3)] by auto

definition demo_zones :: "zone list" where
  "demo_zones = [\<lparr>zone_start_pfn = 100, spanned_pages = 40\<rparr>, \<lparr>zone_start_pfn = 16, spanned_pages = 84\<rparr>]"

definition no_bm :: memory_bitmap where
  "no_bm = \<lparr>blocks = [], p_list = 0, cur = \<lparr>pos_block = 0, pos_bit = 0\<rparr>, iter = \<lparr>pos_block = 0, pos_bit = 0\<rparr>\<rparr>"

definition demo_bm :: memory_bitmap where
  "demo_bm = fst (snd (memory_bm_create (\<lambda>_. True) 0 demo_zones no_bm))"

lemma demo_create:
  "memory_bm_create (\<lambda>_. True) 0 demo_zones no_bm =
     (0, demo_bm, snd (snd (memory_bm_create (\<lambda>_. True) 0 demo_zones no_bm)))"
  using memory_bm_create_ret [of "\<lambda>_. True" 0 demo_zones no_bm]
  by (cases "memory_bm_create (\<lambda>_. True) 0 demo_zones no_bm") (auto simp: demo_bm_def)

lemma wf_demo_zones: "demo_zones \<noteq> []" "\<forall>z \<in> set demo_zones. wf_zone z"
  by (simp_all add: demo_zones_def wf_zone_def)

lemma demo_bm_wf: "wf_bm demo_bm" and demo_bm_univ: "bm_univ demo_bm = {16 ..< 140}"
  using bm_create_mem [OF demo_create wf_demo_zones(2)] wf_demo_zones(1)
  by (auto simp: demo_zones_def zone_pfns_def)

theorem memory_bm_create_layout_witness:
  "wf_bm demo_bm \<and> bm_univ demo_bm = {100 ..< 140} \<union> {16 ..< 100} \<and> bm_mem demo_bm = {}"
  using memory_bm_create_layout [OF wf_demo_zones demo_create]
  by (simp add: demo_zones_def zone_pfns_def)

text \<open>
  C12. Wherever the cached position is, setting a bit makes its page frame a member and clearing
  it removes it, without changing any other bit; testing tells the members. A page frame outside
  the bitmap is reported (\<open>-EFAULT\<close>, or the kernel bug of the variants that must not fail).
\<close>

theorem memory_bm_bits:
  assumes "wf_bm bm" and "unat q \<in> bm_univ bm"
  shows "if unat pfn \<in> bm_univ bm
         then (\<exists>bm1. memory_bm_set_bit bm pfn = Some bm1 \<and> mem_bm_set_bit_check bm pfn = (0, bm1) \<and> wf_bm bm1 \<and>
                map_option fst (memory_bm_test_bit bm1 q) = Some (q = pfn \<or> unat q \<in> bm_mem bm)) \<and>
              (\<exists>bm1. memory_bm_clear_bit bm pfn = Some bm1 \<and> wf_bm bm1 \<and>
                map_option fst (memory_bm_test_bit bm1 q) = Some (q \<noteq> pfn \<and> unat q \<in> bm_mem bm))
         else memory_bm_set_bit bm pfn = None \<and> memory_bm_clear_bit bm pfn = None \<and>
              memory_bm_test_bit bm pfn = None \<and> mem_bm_set_bit_check bm pfn = (- EFAULT, bm)"
proof (cases "unat pfn \<in> bm_univ bm")
  case True
  have "mem_bm_set_bit_check bm pfn = (0, the (memory_bm_set_bit bm pfn))" if "memory_bm_set_bit bm pfn \<noteq> None"
    using that by (auto simp: mem_bm_set_bit_check_def memory_bm_set_bit_def split: option.splits)
  with True mem_bm.set_law [OF assms(1) True] mem_bm.clear_law [OF assms(1) True]
    mem_bm.set_then_test [OF assms(1) True assms(2)] mem_bm.clear_then_test [OF assms(1) True assms(2)]
  show ?thesis by auto
next
  case False
  then have "memory_bm_find_bit bm pfn = None"
    using find_block_holds [OF assms(1), of pfn] block_pfns_holds [of pfn "blocks bm"]
    by (cases "memory_bm_find_bit bm pfn") (auto simp: bm_univ_def)
  with False show ?thesis
    by (simp add: memory_bm_set_bit_def memory_bm_clear_bit_def memory_bm_test_bit_def mem_bm_set_bit_check_def)
qed

theorem memory_bm_bits_witness:
  "\<exists>bm1. memory_bm_set_bit demo_bm 99 = Some bm1 \<and>
     map_option fst (memory_bm_test_bit bm1 99) = Some True"
  using memory_bm_bits [OF demo_bm_wf, of 99 99] by (auto simp: demo_bm_univ)

text \<open>The loop around \<open>memory_bm_next_pfn\<close> that all its users write: the pfns until the end of the map.\<close>

partial_function (option) bm_collect :: "memory_bitmap \<Rightarrow> (ulong list \<times> memory_bitmap) option" where
  "bm_collect bm =
     Option.bind (memory_bm_next_pfn bm) (\<lambda>(pfn, bm1).
       if pfn = BM_END_OF_MAP then Some ([], bm1)
       else Option.bind (bm_collect bm1) (\<lambda>(pfns, bm2). Some (pfn # pfns, bm2)))"

lemma bm_collect_ahead:
  assumes "wf_bm bm" and "bm_ahead bm = ns"
  shows "\<exists>pfns bm'. bm_collect bm = Some (pfns, bm') \<and> map unat pfns = ns \<and> wf_bm bm' \<and> blocks bm' = blocks bm"
  using assms
proof (induction ns arbitrary: bm)
  case Nil
  then show ?case
    by (subst bm_collect.simps) (simp add: next_pfn_Nil, simp add: wf_bm_def)
next
  case (Cons n ns)
  obtain bm1 where bm1: "memory_bm_next_pfn bm = Some (of_nat n, bm1)" "wf_bm bm1"
    "blocks bm1 = blocks bm" "bm_ahead bm1 = ns" "n < 2 ^ 46"
    using next_pfn_Cons [OF Cons.prems] by blast
  with Cons.IH [OF bm1(2,4)] not_end_of_map [OF bm1(5)] show ?case
    by (subst bm_collect.simps) auto
qed

text \<open>
  C22. After \<open>memory_bm_position_reset\<close>, the calls of \<open>memory_bm_next_pfn\<close> return the set
  pfns of the bitmap once each, in ascending order, and then \<open>BM_END_OF_MAP\<close>; the loop ends.
\<close>

theorem memory_bm_iteration:
  assumes "wf_bm bm"
  shows "\<exists>pfns bm'. bm_collect (memory_bm_position_reset bm) = Some (pfns, bm') \<and>
    map unat pfns = sorted_list_of_set (bm_mem bm) \<and> blocks bm' = blocks bm"
proof -
  have blocks: "wf_blocks (blocks bm)" "wf_bm (memory_bm_position_reset bm)"
    using assms by (simp_all add: wf_bm_def [of bm])
  have "sorted_list_of_set (bm_mem bm) = bm_ahead (memory_bm_position_reset bm)"
    using ahead_start [OF blocks(1)]
    by (metis sorted_list_of_set.idem_if_sorted_distinct strict_sorted_iff)
  with bm_collect_ahead [OF blocks(2) refl] show ?thesis by auto
qed

theorem memory_bm_iteration_witness:
  "\<exists>bm1 pfns bm'. bm_fold memory_bm_set_bit demo_bm [130, 20, 99] = Some bm1 \<and>
     bm_collect (memory_bm_position_reset bm1) = Some (pfns, bm') \<and> map unat pfns = [20, 99, 130]"
proof -
  obtain bm1 where bm1: "bm_fold memory_bm_set_bit demo_bm [130, 20, 99] = Some bm1" "wf_bm bm1"
    "bm_mem bm1 = bm_mem demo_bm \<union> unat ` set [130, 20, 99 :: ulong]"
    using mem_bm.set_all [OF demo_bm_wf, of "[130, 20, 99]"] by (auto simp: demo_bm_univ)
  moreover have "bm_mem demo_bm = {}"
    by (rule bm_create_mem(1) [OF demo_create wf_demo_zones(2)])
  ultimately have "sorted_list_of_set (bm_mem bm1) = [20, 99, 130]" by simp
  with memory_bm_iteration [OF bm1(2)] bm1(1) show ?thesis by auto
qed

text \<open>
  C24. \<open>memory_bm_dup\<close> ends, leaves the source's bits as they were and makes the destination's
  set bits exactly those of the source, whatever they were before, provided the destination covers
  them.
\<close>

theorem memory_bm_dup_correct:
  assumes "wf_bm source" and "wf_bm dest" and "bm_mem source \<subseteq> bm_univ dest"
  shows "\<exists>source' dest'. memory_bm_dup source dest = Some (source', dest') \<and>
    blocks source' = blocks source \<and> wf_bm dest' \<and> bm_mem dest' = bm_mem source \<and>
    bm_ranges dest' = bm_ranges dest"
proof -
  obtain d where "memory_bm_clear dest = Some d" "wf_bm d" "bm_mem d = {}" "bm_ranges d = bm_ranges dest"
    using bm_clear_correct [OF assms(2)] by blast
  then show ?thesis
    using bm_copy_correct [OF assms(1), of d] assms(3) ranges_univ [of d dest]
    by (auto simp: memory_bm_dup_def)
qed

theorem memory_bm_dup_correct_witness:
  "\<exists>s d source' dest'. memory_bm_set_bit demo_bm 42 = Some s \<and> memory_bm_set_bit demo_bm 77 = Some d \<and>
     memory_bm_dup s d = Some (source', dest') \<and> bm_mem dest' = {42}"
proof -
  have "bm_mem demo_bm = {}" by (rule bm_create_mem(1) [OF demo_create wf_demo_zones(2)])
  then obtain s d where s: "memory_bm_set_bit demo_bm 42 = Some s" "wf_bm s" "bm_mem s = {42}"
    and d: "memory_bm_set_bit demo_bm 77 = Some d" "wf_bm d" "bm_univ d = bm_univ demo_bm"
    using mem_bm.set_law [OF demo_bm_wf, of 42] mem_bm.set_law [OF demo_bm_wf, of 77]
    by (auto simp: demo_bm_univ)
  with memory_bm_dup_correct [OF s(2) d(2)] show ?thesis by (auto simp: demo_bm_univ)
qed

lemma set_check_correct:
  assumes "wf_bm bm"
  shows "wf_bm (snd (mem_bm_set_bit_check bm pfn))"
    and "bm_univ (snd (mem_bm_set_bit_check bm pfn)) = bm_univ bm"
    and "bm_mem (snd (mem_bm_set_bit_check bm pfn)) = bm_mem bm \<union> ({unat pfn} \<inter> bm_univ bm)"
proof -
  have "(\<exists>bm1. memory_bm_set_bit bm pfn = Some bm1 \<and> snd (mem_bm_set_bit_check bm pfn) = bm1) \<or>
      memory_bm_set_bit bm pfn = None \<and> snd (mem_bm_set_bit_check bm pfn) = bm"
    by (auto simp: mem_bm_set_bit_check_def memory_bm_set_bit_def split: option.splits)
  moreover have "memory_bm_set_bit bm pfn = None" if "unat pfn \<notin> bm_univ bm"
  proof -
    have "memory_bm_find_bit bm pfn = None"
      using that find_block_holds [OF assms, of pfn] block_pfns_holds [of pfn "blocks bm"]
      by (cases "memory_bm_find_bit bm pfn") (auto simp: bm_univ_def)
    then show ?thesis by (simp add: memory_bm_set_bit_def)
  qed
  ultimately show "wf_bm (snd (mem_bm_set_bit_check bm pfn))"
    and "bm_univ (snd (mem_bm_set_bit_check bm pfn)) = bm_univ bm"
    and "bm_mem (snd (mem_bm_set_bit_check bm pfn)) = bm_mem bm \<union> ({unat pfn} \<inter> bm_univ bm)"
    using mem_bm.set_law [OF assms, of pfn] assms by (cases "unat pfn \<in> bm_univ bm"; force)+
qed

lemma mark_fold_correct:
  assumes "wf_bm bm"
  shows "wf_bm (foldl (\<lambda>bm pfn. if valid pfn then snd (mem_bm_set_bit_check bm pfn) else bm) bm pfns) \<and>
    bm_mem (foldl (\<lambda>bm pfn. if valid pfn then snd (mem_bm_set_bit_check bm pfn) else bm) bm pfns) =
      bm_mem bm \<union> (unat ` {pfn \<in> set pfns. valid pfn} \<inter> bm_univ bm)"
  using assms
proof (induction pfns arbitrary: bm)
  case (Cons pfn pfns)
  show ?case
    using Cons.IH [OF Cons.prems] Cons.IH [OF set_check_correct(1) [OF Cons.prems], of pfn]
      set_check_correct(2,3) [OF Cons.prems, of pfn]
    by auto
qed simp

text \<open>
  C30. \<open>mark_nosave_pages\<close> sets the bits of exactly those valid page frames of the registered
  regions that the bitmap covers, and ignores the others.
\<close>

theorem mark_nosave_pages_correct:
  assumes "wf_bm bm"
  shows "bm_mem (mark_nosave_pages pfn_valid regions bm) = bm_mem bm \<union>
    {n \<in> bm_univ bm. pfn_valid (of_nat n) \<and>
      (\<exists>r \<in> set regions. unat (region_start r) \<le> n \<and> n < unat (region_end r))}"
proof -
  have "unat (of_nat n :: ulong) = n" if "n < unat (e :: ulong)" for n e
    using that unat_ulong_less [of e] by (simp add: unat_of_nat)
  then have "unat ` {pfn \<in> set (concat (map region_pfns regions)). pfn_valid pfn} =
      {n. pfn_valid (of_nat n) \<and> (\<exists>r \<in> set regions. unat (region_start r) \<le> n \<and> n < unat (region_end r))}"
    by (force simp: region_pfns_def image_iff)
  with mark_fold_correct [OF assms] show ?thesis
    unfolding mark_nosave_pages_def by auto
qed

theorem mark_nosave_pages_correct_witness:
  "bm_mem (mark_nosave_pages (\<lambda>_. True) [\<lparr>region_start = 10, region_end = 19\<rparr>] demo_bm) = {16, 17, 18}"
proof -
  have "bm_mem demo_bm = {}" by (rule bm_create_mem(1) [OF demo_create wf_demo_zones(2)])
  moreover have "{n \<in> {16 ..< 140}. 10 \<le> n \<and> n < 19} = {16, 17, 18 :: nat}" by auto
  ultimately show ?thesis
    using mark_nosave_pages_correct [OF demo_bm_wf, of "\<lambda>_. True"] by (simp add: demo_bm_univ)
qed

lemma space_needed_foldl:
  "foldl (\<lambda>total bb. s32 (total + 4112)) (s32 t) bbs = s32 (t + 4112 * int (length bbs))"
proof (induction bbs arbitrary: t)
  case (Cons bb bbs)
  show ?case
    using Cons.IH [of "t + 4112"] by (simp add: s32_add_left algebra_simps)
qed simp

lemma pageflags_space_needed_eq:
  assumes "wf_blocks (blocks bm)"
  shows "toi_pageflags_space_needed bm = s32 (int (length (bm_bytes (blocks bm))))"
  using space_needed_foldl [of 4 "blocks bm"]
  by (simp add: toi_pageflags_space_needed_def length_bm_bytes [OF assms])

lemma register_nosave_region_pfns:
  assumes "register_nosave_region got start end km regions = Some regions'"
    and "\<forall>r \<in> set regions. region_start r < region_end r"
  shows "(\<Union>r \<in> set regions'. {unat (region_start r) ..< unat (region_end r)}) =
    (\<Union>r \<in> set regions. {unat (region_start r) ..< unat (region_end r)}) \<union> {unat start ..< unat end}"
    and "\<forall>r \<in> set regions'. region_start r < region_end r"
proof -
  consider (none) "end \<le> start" "regions' = regions"
    | (grow) pre r where "start < end" "regions = pre @ [r]" "region_end r = start"
        "regions' = pre @ [r\<lparr>region_end := end\<rparr>]"
    | (new) "start < end" "regions' = regions @ [\<lparr>region_start = start, region_end = end\<rparr>]"
    using assms(1) by (cases regions rule: rev_cases)
      (auto simp: register_nosave_region_def not_le split: if_splits)
  note cases = this
  show "(\<Union>r \<in> set regions'. {unat (region_start r) ..< unat (region_end r)}) =
    (\<Union>r \<in> set regions. {unat (region_start r) ..< unat (region_end r)}) \<union> {unat start ..< unat end}"
    using cases
  proof cases
    case none
    then show ?thesis by (auto simp: word_le_nat_alt)
  next
    case (grow pre r)
    have "region_start r < region_end r" using assms(2) grow(2) by simp
    then have "{unat (region_start r) ..< unat end} =
        {unat (region_start r) ..< unat start} \<union> {unat start ..< unat end}"
      using grow(1,3) by (auto simp: word_less_nat_alt)
    then show ?thesis using grow by auto
  qed auto
  show "\<forall>r \<in> set regions'. region_start r < region_end r"
    using cases assms(2) by cases (auto intro: less_trans)
qed

end
