(* ===== verification/TOI_Image_Stream.thy ===== *)
theory TOI_Image_Stream
  imports TOI_Block_Stream TOI_Bitmap
begin

text \<open>
  The streams of the image, written and read back as a whole: the pages of a page set
  (\<open>toi_rw_init\<close>, \<open>toi_bio_write_page\<close>, \<open>toi_rw_cleanup\<close>, \<open>toi_bio_read_page\<close>), and an
  extent chain and a bitmap in the header. The reader stops where the writer stopped because
  \<open>toi_rw_cleanup\<close> saved that position; the lemmas show that the iterator meets it nowhere
  before.
\<close>

section \<open>The iterator makes progress\<close>

lemma next_blocks_progress:
  assumes "wf_state p" and "next_blocks n p = Some p'" and "\<not> toi_extent_state_eof p'"
  shows "length (todo p') + n \<le> length (todo p)"
  using assms
proof (induction n arbitrary: p)
  case (Suc n)
  obtain v p1 where p1: "toi_extent_state_next p = Some (v, p1)" "next_blocks n p1 = Some p'"
    using Suc.prems(2) by (auto split: Option.bind_splits)
  have spec: "step_spec (todo p) (Some (v, p1)) (chains p)"
    using extent_state_next_spec [OF Suc.prems(1)] p1(1) by simp
  then have wf1: "wf_state p1" by (auto simp: step_spec_def)
  show ?case
  proof (cases "todo p")
    case Nil
    with spec have "toi_extent_state_eof p1" by (simp add: step_spec_def)
    then have "toi_extent_state_next p1 = Some (0, p1)"
      by (simp add: toi_extent_state_next_def toi_extent_state_eof_def)
    then have "next_blocks m p1 = Some p1" for m by (induction m) simp_all
    with p1(2) \<open>toi_extent_state_eof p1\<close> Suc.prems(3) show ?thesis by simp
  next
    case (Cons a ps)
    with spec have "todo p1 = ps" by (simp add: step_spec_def)
    with Suc.IH [OF wf1 p1(2) Suc.prems(3)] Cons show ?thesis by simp
  qed
qed simp

text \<open>Two positions on the same block of the same chain are the same.\<close>

lemma same_block_extent:
  assumes "wf_extents xs" and "i < length xs" and "j < length xs"
    and "ext_start (xs ! i) \<le> v" and "v \<le> ext_end (xs ! i)" and "ext_start (xs ! j) \<le> v" and "v \<le> ext_end (xs ! j)"
  shows "i = j"
proof -
  have "\<not> a < b" if "a < length xs" "b < length xs" "v \<le> ext_end (xs ! a)" "ext_start (xs ! b) \<le> v" for a b
  proof
    assume "a < b"
    with that assms(1) have "ext_end (xs ! a) < ext_start (xs ! b)"
      by (simp add: wf_extents_def sorted_wrt_iff_nth_less)
    also have "\<dots> \<le> v" by fact
    finally show False using that(3) by (meson leD)
  qed
  with assms show ?thesis by (meson linorder_neqE_nat)
qed

lemma same_position_todo:
  assumes "wf_state p" and "wf_state q" and "chains p = chains q" and "current_chain p = current_chain q"
    and "current_offset p = current_offset q" and "0 \<le> current_chain p" and "current_chain p < num_chains p"
  shows "todo p = todo q"
proof -
  have xs: "cur_extents q = cur_extents p"
    using assms(3,4) by (simp add: cur_extents_def num_chains_def)
  obtain i j where i: "current_extent p = Some i" and j: "current_extent q = Some j"
    using assms by (auto simp: wf_state_def toi_extent_state_eof_def num_chains_def split: option.splits)
  have "wf_extents (cur_extents p)"
    using assms(1,6,7) wf_chain_nth [of "chains p" "nat (current_chain p)"]
    by (auto simp: wf_state_def cur_extents_def num_chains_def)
  then have "i = j"
    using assms(1,2,5) i j xs by (intro same_block_extent) (auto simp: wf_state_def)
  with i j xs assms(3-5) show ?thesis by (simp add: todo_def)
qed

lemma g_step_progress:
  assumes "wf_geom g" and "g_step w g = Some g'"
  shows "length (todo (g_posn g')) < length (todo (g_posn g))"
proof -
  let ?p = "g_posn g"
  obtain p where p: "next_blocks (g_bpp g) ?p = Some p" "\<not> toi_extent_state_eof p" "g' = g\<lparr>g_posn := p\<rparr>"
    using assms(2) by (auto simp: g_step_def split: if_splits option.splits)
  have wf: "wf_state ?p" using assms(1) by (simp add: wf_geom_def)
  have "0 < g_bpp g"
  proof (rule ccontr)
    assume "\<not> 0 < g_bpp g"
    then have zero: "g_bpp g = 0" by simp
    with p(1,2) have ne: "\<not> toi_extent_state_eof ?p" by simp
    have "g_posn g' = ?p" using p zero by simp
    moreover have "has_slot g'" by (rule g_step_wf(2) [OF assms])
    ultimately have "0 \<le> current_chain ?p" "current_chain ?p < int (length (g_dev g))"
      by (simp_all add: has_slot_def p(3))
    then have "g_bpp g \<ge> 1" using assms(1) by (auto simp: g_bpp_def Let_def wf_geom_def)
    with zero show False by simp
  qed
  with next_blocks_progress [OF wf p(1,2)] show ?thesis by (simp add: p(3))
qed

lemma run_step:
  assumes "run w (Suc k) g = Some (U, g')" and "\<not> g_extra g"
  obtains g1 V where "g_step w g = Some g1" and "has_slot g1" and "U = slot_of g1 # V" and "run w k g1 = Some (V, g')"
  using assms by (auto simp: advance_def split: Option.bind_splits if_splits) (auto simp: g_step_def split: if_splits option.splits)

lemma g_step_fields:
  "g_step w g = Some g' \<Longrightarrow> g_extra g' = g_extra g \<and> g_stream g' = g_stream g \<and> g_save g' = g_save g \<and>
     g_dev g' = g_dev g"
  by (auto simp: g_step_def split: if_splits option.splits)

lemma g_step_chains: "wf_geom g \<Longrightarrow> g_step w g = Some g' \<Longrightarrow> chains (g_posn g') = chains (g_posn g)"
  using next_blocks_wf [of "g_posn g" "g_bpp g"] by (auto simp: g_step_def wf_geom_def split: if_splits option.splits)

lemma run_progress:
  assumes "wf_geom g" and "\<not> g_extra g" and "run w k g = Some (U, g')"
  shows "wf_geom g'" and "chains (g_posn g') = chains (g_posn g)" and "g_stream g' = g_stream g"
    and "0 < k \<Longrightarrow> has_slot g' \<and> length (todo (g_posn g')) < length (todo (g_posn g))"
proof -
  have "wf_geom g' \<and> chains (g_posn g') = chains (g_posn g) \<and> g_stream g' = g_stream g \<and>
      (0 < k \<longrightarrow> has_slot g' \<and> length (todo (g_posn g')) < length (todo (g_posn g)))"
    using assms
  proof (induction k arbitrary: g U)
    case (Suc k)
    obtain g1 V where g1: "g_step w g = Some g1" "has_slot g1" "run w k g1 = Some (V, g')"
      using run_step [OF Suc.prems(3,2)] by metis
    note f = g_step_fields [OF g1(1)] g_step_wf(1) [OF Suc.prems(1) g1(1)] g_step_progress [OF Suc.prems(1) g1(1)]
      g_step_chains [OF Suc.prems(1) g1(1)]
    have "\<not> g_extra g1" using f(1) Suc.prems(2) by simp
    from Suc.IH [OF f(2) this g1(3)] f g1 show ?case by (cases k) auto
  qed simp
  then show "wf_geom g'" "chains (g_posn g') = chains (g_posn g)" "g_stream g' = g_stream g"
    "0 < k \<Longrightarrow> has_slot g' \<and> length (todo (g_posn g')) < length (todo (g_posn g))" by simp_all
qed

lemma run_extra:
  assumes "run w k g = Some (U, g')" and "\<not> g_extra g"
  shows "g_extra g' = g_extra g"
  using assms
proof (induction k arbitrary: g U)
  case (Suc k)
  obtain g1 V where "g_step w g = Some g1" "run w k g1 = Some (V, g')"
    using run_step [OF Suc.prems] by metis
  with Suc.IH [of g1 V] g_step_fields [of w g g1] Suc.prems(2) show ?case by simp
qed simp

text \<open>
  The reader of a stream goes where its writer went, when the saved position it compares with is
  the writer's last one and its offset is below \<open>2 ^ 31\<close>.
\<close>

lemma s32_offset:
  fixes v :: ulong
  assumes "unat v < 2 ^ 31"
  shows "of_int (s32 (uint v)) = v"
proof -
  have v: "uint v = int (unat v)" by (simp only: uint_nat)
  have "s32 (int n) = int n" if "n < 2 ^ 31" for n using that by (simp add: s32_def)
  from this [OF assms] have "s32 (uint v) = uint v" unfolding v .
  then show ?thesis by simp
qed

lemma run_read:
  assumes "wf_geom g" and "\<not> g_extra g" and "g_stream g \<noteq> 0" and "run True k g = Some (U, g')"
    and "chain_num (sv ! compare_to (g_stream g)) = current_chain (g_posn g')"
    and "saved_offset (sv ! compare_to (g_stream g)) = current_offset (g_posn g')"
    and "unat (current_offset (g_posn g')) < 2 ^ 31"
  shows "run False k (g\<lparr>g_save := sv\<rparr>) = Some (U, g'\<lparr>g_save := sv\<rparr>)"
  using assms
proof (induction k arbitrary: g U)
  case (Suc k)
  obtain g1 V where g1: "g_step True g = Some g1" "has_slot g1" "U = slot_of g1 # V" "run True k g1 = Some (V, g')"
    using run_step [OF Suc.prems(4,2)] by metis
  note f = g_step_fields [OF g1(1)] g_step_wf(1) [OF Suc.prems(1) g1(1)]
  have "\<not> g_barrier (g\<lparr>g_save := sv\<rparr>)"
  proof
    assume "g_barrier (g\<lparr>g_save := sv\<rparr>)"
    then have same: "current_chain (g_posn g) = current_chain (g_posn g')" "current_offset (g_posn g) = current_offset (g_posn g')"
      using Suc.prems(5-7) by (simp_all add: g_barrier_def Let_def s32_offset)
    note pr = run_progress [OF Suc.prems(1,2,4)]
    have "todo (g_posn g) = todo (g_posn g')"
      using same pr Suc.prems(1) by (intro same_position_todo) (auto simp: wf_geom_def has_slot_def num_chains_def)
    with pr(4) show False by simp
  qed
  moreover have "g_bpp (g\<lparr>g_save := sv\<rparr>) = g_bpp g" by (simp add: g_bpp_def Let_def)
  moreover obtain p where "next_blocks (g_bpp g) (g_posn g) = Some p" "\<not> toi_extent_state_eof p" "g1 = g\<lparr>g_posn := p\<rparr>"
    using g1(1) by (auto simp: g_step_def split: if_splits option.splits)
  ultimately have "g_step False (g\<lparr>g_save := sv\<rparr>) = Some (g1\<lparr>g_save := sv\<rparr>)"
    by (simp add: g_step_def)
  moreover have "run False k (g1\<lparr>g_save := sv\<rparr>) = Some (V, g'\<lparr>g_save := sv\<rparr>)"
    by (rule Suc.IH) (use f g1(4) Suc.prems in simp_all)
  moreover have "slot_of (g1\<lparr>g_save := sv\<rparr>) = slot_of g1" "has_slot (g1\<lparr>g_save := sv\<rparr>) = has_slot g1"
    by (simp_all add: slot_of_def has_slot_def)
  ultimately show ?case using g1(2,3) f Suc.prems(2) by (simp add: advance_def)
qed simp

section \<open>A page set on the tape\<close>

text \<open>The pages of a page set, written and read in order.\<close>

fun write_pages :: "(ulong \<times> byte list) list \<Rightarrow> bio_state \<Rightarrow> (int \<times> bio_state) option" where
  "write_pages [] st = Some (0, st)"
| "write_pages ((pfn, buf) # ps) st = do {
     (ret, st1) \<leftarrow> toi_bio_write_page pfn buf st;
     if ret \<noteq> 0 then Some (ret, st1) else write_pages ps st1
   }"

fun read_pages :: "nat \<Rightarrow> bio_state \<Rightarrow> (int \<times> (ulong \<times> byte list) list \<times> bio_state) option" where
  "read_pages 0 st = Some (0, [], st)"
| "read_pages (Suc n) st = do {
     (ret, pfn, buf, st1) \<leftarrow> toi_bio_read_page st;
     if ret \<noteq> 0 then Some (ret, [], st1)
     else do { (ret, ps, st2) \<leftarrow> read_pages n st1; Some (ret, (pfn, buf) # ps, st2) }
   }"

definition page_bytes :: "ulong \<times> byte list \<Rightarrow> byte list" where
  "page_bytes p = ulong_bytes (fst p) @ int_bytes (int (length (snd p))) @ snd p"

lemma length_page_bytes [simp]: "length (page_bytes p) = 12 + length (snd p)"
  by (simp add: page_bytes_def)

lemma wstream_flush:
  assumes "wstream g0 st n acc"
  shows "\<exists>st'. toi_bio_queue_flush_pages st = Some (0, st') \<and> wstream g0 st' n acc \<and> bframe st' = bframe st"
proof -
  obtain buf acc0 where buf: "writer_buffer st = Some buf" "length buf = PAGE_SIZE" "writer_buffer_posn st \<le> PAGE_SIZE"
    "wcore g0 st (writer_buffer_posn st + n) acc0" "acc = acc0 @ take (writer_buffer_posn st) buf"
    using assms by (auto simp: wstream_def)
  obtain st' where st': "toi_bio_queue_flush_pages st = Some (0, st')"
    "wcore g0 st' (writer_buffer_posn st + n) acc0" "frame st' = frame st"
    using wcore_flush [OF buf(4)] by blast
  have "writer_buffer st' = Some buf" "writer_buffer_posn st' = writer_buffer_posn st"
    using frame_eqD(1,2) [OF st'(3)] buf(1) by simp_all
  then have "wstream g0 st' n acc" unfolding wstream_def using buf(2,3,5) st'(2) by simp
  with st' show ?thesis using frame_bframe by blast
qed

lemma write_page_stream:
  assumes "wstream g0 st n acc" and "12 + length buf \<le> n" and "TOI_ABORTED \<notin> results st"
  shows "\<exists>st'. toi_bio_write_page pfn buf st = Some (0, st') \<and>
    wstream g0 st' (n - (12 + length buf)) (acc @ page_bytes (pfn, buf)) \<and> bframe st' = bframe st"
proof -
  have "good st" using assms(1) by (auto simp: wstream_def wcore_def)
  then have speed: "TOI_TEST_FILTER_SPEED \<notin> actions st" by (simp add: good_def)
  have room: "8 \<le> n" "4 \<le> n - 8" "length buf \<le> n - 8 - 4" using assms(2) by linarith+
  obtain s1 where s1: "rw_buffer_write (ulong_bytes pfn) st = Some (0, s1)"
    "wstream g0 s1 (n - 8) (acc @ ulong_bytes pfn)" "bframe s1 = bframe st"
    using rw_buffer_write_stream [OF assms(1), of "ulong_bytes pfn"] room by auto
  obtain s2 where s2: "rw_buffer_write (int_bytes (int (length buf))) s1 = Some (0, s2)"
    "wstream g0 s2 (n - 8 - 4) ((acc @ ulong_bytes pfn) @ int_bytes (int (length buf)))" "bframe s2 = bframe s1"
    using rw_buffer_write_stream [OF s1(2), of "int_bytes (int (length buf))"] room by auto
  obtain s3 where s3: "rw_buffer_write buf s2 = Some (0, s3)"
    "wstream g0 s3 (n - 8 - 4 - length buf) (((acc @ ulong_bytes pfn) @ int_bytes (int (length buf))) @ buf)" "bframe s3 = bframe s2"
    using rw_buffer_write_stream [OF s2(2), of buf] room by auto
  have num: "n - 8 - 4 - length buf = n - (12 + length buf)" by simp
  have s3': "wstream g0 s3 (n - (12 + length buf)) (acc @ page_bytes (pfn, buf))" "bframe s3 = bframe st"
    using s1(3) s2(3) s3(2,3) unfolding num by (simp_all add: page_bytes_def)
  obtain s4 where "toi_bio_queue_flush_pages s3 = Some (0, s4)" "bframe s4 = bframe s3"
    "wstream g0 s4 (n - (12 + length buf)) (acc @ page_bytes (pfn, buf))"
    using wstream_flush [OF s3'(1)] by blast
  with s1(1) s2(1) s3(1) s3' speed assms(3) show ?thesis
    by (cases "queue_flusher s3") (simp_all add: toi_bio_write_page_def)
qed

lemma write_pages_stream:
  assumes "wstream g0 st n acc" and "length (concat (map page_bytes ps)) \<le> n" and "TOI_ABORTED \<notin> results st"
  shows "\<exists>st'. write_pages ps st = Some (0, st') \<and>
    wstream g0 st' (n - length (concat (map page_bytes ps))) (acc @ concat (map page_bytes ps)) \<and> bframe st' = bframe st"
  using assms
proof (induction ps arbitrary: st n acc)
  case (Cons p ps)
  obtain pfn buf where p: "p = (pfn, buf)" by force
  obtain st1 where st1: "toi_bio_write_page pfn buf st = Some (0, st1)"
    "wstream g0 st1 (n - (12 + length buf)) (acc @ page_bytes p)" "bframe st1 = bframe st"
    using write_page_stream [OF Cons.prems(1) _ Cons.prems(3), of buf pfn] Cons.prems(2) p by auto
  have "\<exists>st'. write_pages ps st1 = Some (0, st') \<and>
      wstream g0 st' (n - (12 + length buf) - length (concat (map page_bytes ps))) ((acc @ page_bytes p) @ concat (map page_bytes ps)) \<and>
      bframe st' = bframe st1"
    by (rule Cons.IH [OF st1(2)]) (use Cons.prems(2,3) p bframe_eqD(1) [OF st1(3)] in simp_all)
  with st1(1,3) p show ?case by (auto simp: algebra_simps)
qed auto

lemma le_nat_size_bytes: "n \<le> PAGE_SIZE \<Longrightarrow> le_nat (int_bytes (int n)) = n"
  by (simp add: int_bytes_def le_nat_le_bytes nat_mod_distrib nat_power_eq)

lemma read_page_stream:
  assumes "rstream False st (page_bytes (pfn, buf) @ rest)" and "length buf \<le> PAGE_SIZE"
  shows "\<exists>st'. toi_bio_read_page st = Some (0, pfn, buf, st') \<and> rstream False st' rest"
proof -
  let ?bs = "ulong_bytes pfn @ int_bytes (int (length buf)) @ buf @ rest"
  have r: "rstream False st ?bs" using assms(1) by (simp add: page_bytes_def)
  obtain s0 where s0: "(if queue_flusher st then toi_start_new_readahead False st else Some (0, st)) = Some (0, s0)"
    "rstream False s0 ?bs"
  proof (cases "queue_flusher st")
    case True
    from r obtain F where "rstr F st ?bs" by (auto simp: rstream_def)
    from start_new_readahead_rstr [OF this] that True show ?thesis by (auto simp: rstream_def)
  qed (use r that in auto)
  obtain s1 where s1: "rw_buffer_read False 8 s0 = Some (0, ulong_bytes pfn, s1)" "rstream False s1 (int_bytes (int (length buf)) @ buf @ rest)"
    using rw_buffer_read_rstream [OF s0(2)] by auto
  obtain s2 where s2: "rw_buffer_read False 4 s1 = Some (0, int_bytes (int (length buf)), s2)" "rstream False s2 (buf @ rest)"
    using rw_buffer_read_rstream [OF s1(2)] by auto
  obtain s3 where s3: "rw_buffer_read False (length buf) s2 = Some (0, buf, s3)" "rstream False s3 rest"
    using rw_buffer_read_rstream [OF s2(2)] by auto
  with s0 s1 s2 assms(2) show ?thesis
    by (simp add: toi_bio_read_page_def le_nat_size_bytes)
qed

lemma read_pages_stream:
  assumes "rstream False st (concat (map page_bytes ps) @ rest)" and "\<forall>p \<in> set ps. length (snd p) \<le> PAGE_SIZE"
  shows "\<exists>st'. read_pages (length ps) st = Some (0, ps, st') \<and> rstream False st' rest"
  using assms
proof (induction ps arbitrary: st)
  case (Cons p ps)
  obtain st1 where "toi_bio_read_page st = Some (0, fst p, snd p, st1)" "rstream False st1 (concat (map page_bytes ps) @ rest)"
    using read_page_stream [of st "fst p" "snd p"] Cons.prems by auto
  with Cons.IH [of st1] Cons.prems show ?case by auto
qed simp

lemma cleanup_stream:
  assumes "wstream g0 st n acc" and "wf_geom g0" and "\<not> g_extra g0" and "g_stream g0 = s" and "s = 1 \<or> s = 2"
    and "TOI_ABORTED \<notin> results st" and "\<not> toi_extent_state_eof (g_posn g0)"
  shows "\<exists>st' U g' saved pad. toi_rw_cleanup True st = Some (0, st') \<and> run True (length U) g0 = Some (U, g') \<and>
    concat (map (slot_page (disk st')) U) = acc @ pad \<and> wf_disk (disk st') \<and> bio_queue st' = [] \<and> readahead_list st' = [] \<and>
    chain_num saved = current_chain (g_posn g') \<and> saved_offset saved = current_offset (g_posn g') \<and>
    posn st' = g_posn g' \<and> extra_page_forward st' = g_extra g' \<and>
    posn_save st' = (posn_save st)[compare_to s := saved] \<and> good st' \<and> devinfo st' = devinfo st"
proof -
  obtain s1 s2 U pad where fin: "(if writer_buffer_posn st \<noteq> 0 then toi_bio_queue_write st else Some st) = Some s1"
    "toi_bio_queue_flush_pages s1 = Some (0, s2)" "bio_queue s2 = []" "bframe s2 = bframe st"
    "on_disk g0 s2 U (acc @ pad)"
    using finish_stream [OF assms(1)] by blast
  have run: "run True (length U) g0 = Some (U, geom_of s2)" and wfd: "wf_disk (disk s2)"
    and bytes: "concat (map (slot_page (disk s2)) U) = acc @ pad"
    using fin(5) by (simp_all add: on_disk_def)
  note pr = run_progress [OF assms(2,3) run]
  have "\<not> toi_extent_state_eof (posn s2)"
  proof (cases U)
    case Nil
    with run assms(7) show ?thesis by auto
  next
    case (Cons a V)
    with pr(1,4) show ?thesis by (auto simp: has_slot_def toi_extent_state_eof_def num_chains_def wf_geom_def)
  qed
  moreover have "wf_state (posn s2)" using pr(1) by (simp add: wf_geom_def)
  ultimately obtain saved where saved: "toi_extent_state_save (posn s2) = Some saved"
    using state_save_restore [of "posn s2" "posn s2"] by blast
  have same: "current_stream s2 = s" "posn_save s2 = posn_save st" "devinfo s2 = devinfo st" "good s2 = good st"
    using pr(3) assms(4) bframe_eqD [OF fin(4)] by simp_all
  let ?st' = "s2\<lparr>posn_save := (posn_save st)[compare_to s := saved], ra_pages := ra_pages s2 - int (length (readahead_list s2)),
      readahead_list := [], current_stream := 0\<rparr>"
  have "(if writer_buffer_posn st \<noteq> 0 \<and> TOI_ABORTED \<notin> results st then toi_bio_queue_write st else Some st) = Some s1"
    using fin(1) assms(6) by simp
  then have "toi_rw_cleanup True st = Some (0, ?st')"
    using fin(2,3) same saved assms(5)
    by (auto simp: toi_rw_cleanup_def toi_finish_all_io_def toi_bio_queue_flush_pages_def compare_to_def)
  moreover have "good st" using assms(1) by (auto simp: wstream_def wcore_def)
  ultimately show ?thesis
    using run bytes wfd fin(3) state_save_fields [OF saved] same
    by (intro exI [of _ ?st'] exI [of _ U] exI [of _ "geom_of s2"] exI [of _ saved] exI [of _ pad]) (simp add: good_def)
qed

text \<open>
  The conditions under which a stream is written: idle queues, a saved start, and room for
  \<open>n\<close> bytes in pages that do not overlap and whose block numbers fit the \<open>int\<close> that the reader
  compares them with.
\<close>

definition start_geom :: "nat \<Rightarrow> bio_state \<Rightarrow> toi_extent_iterate_state \<Rightarrow> geom" where
  "start_geom s st p = \<lparr>g_posn = p, g_save = posn_save st, g_stream = s, g_dev = devinfo st, g_extra = False\<rparr>"

definition small_blocks :: "toi_extent_iterate_state \<Rightarrow> bool" where
  "small_blocks p = list_all (\<lambda>c. list_all (\<lambda>e. unat (ext_end e) < 2 ^ 31) (extents c)) (chains p)"

definition stream_ready :: "nat \<Rightarrow> nat \<Rightarrow> bio_state \<Rightarrow> bool" where
  "stream_ready s n st \<longleftrightarrow> good st \<and> wf_disk (disk st) \<and> TOI_ABORTED \<notin> results st \<and> bio_queue st = [] \<and>
     readahead_list st = [] \<and> \<not> extra_page_forward st \<and> length (posn_save st) = 4 \<and> small_blocks (posn st) \<and>
     (\<exists>p F g'. toi_extent_state_restore (posn st) (posn_save st ! s) = Some p \<and> \<not> toi_extent_state_eof p \<and>
        wf_geom (start_geom s st p) \<and> run True (length F) (start_geom s st p) = Some (F, g') \<and> slots_apart F \<and>
        n \<le> PAGE_SIZE * length F)"

lemma restore_chains:
  "toi_extent_state_restore st saved = Some p \<Longrightarrow> chains p = chains st"
  "chains a = chains b \<Longrightarrow> toi_extent_state_restore a saved = toi_extent_state_restore b saved"
  by (auto simp: toi_extent_state_restore_def toi_extent_state_goto_start_def Let_def num_chains_def
      split: if_splits) (cases a; cases b; simp)+

lemma offset_small:
  assumes "wf_state p" and "small_blocks p"
  shows "unat (current_offset p) < 2 ^ 31"
proof (cases "current_extent p")
  case (Some i)
  with assms(1) have i: "i < length (cur_extents p)" "current_offset p \<le> ext_end (cur_extents p ! i)"
    by (auto simp: wf_state_def)
  then have "cur_extents p ! i \<in> set (extents (chains p ! nat (current_chain p)))" "nat (current_chain p) < length (chains p)"
    by (auto simp: cur_extents_def num_chains_def split: if_splits)
  with assms(2) have "unat (ext_end (cur_extents p ! i)) < 2 ^ 31"
    by (auto simp: small_blocks_def list_all_iff)
  with i(2) show ?thesis by (simp add: word_le_nat_alt)
qed (use assms in \<open>simp add: wf_state_def\<close>)

lemma rw_init_write:
  assumes "stream_ready s n st" and "s \<noteq> 0"
  shows "\<exists>p st'. toi_rw_init True s st = Some (0, st') \<and> toi_extent_state_restore (posn st) (posn_save st ! s) = Some p \<and>
    wstream (start_geom s st p) st' n [] \<and> wf_geom (start_geom s st p) \<and> \<not> toi_extent_state_eof p \<and>
    results st' = results st \<and> posn_save st' = posn_save st \<and> devinfo st' = devinfo st"
proof -
  obtain p F g' where p: "toi_extent_state_restore (posn st) (posn_save st ! s) = Some p" "\<not> toi_extent_state_eof p"
    "wf_geom (start_geom s st p)" "run True (length F) (start_geom s st p) = Some (F, g')" "slots_apart F"
    "n \<le> PAGE_SIZE * length F" and st: "good st" "wf_disk (disk st)" "bio_queue st = []" "\<not> extra_page_forward st"
    using assms(1) unfolding stream_ready_def by blast
  let ?st' = "st\<lparr>env_n := Suc (env_n st), posn := p, io_done := 0, writer_buffer := Some zero_page, writer_buffer_posn := 0,
      current_stream := s, more_readahead := True\<rparr>"
  have "toi_rw_init True s st = Some (0, ?st')"
    using p(1) st(1) assms(2) by (simp add: toi_rw_init_def consult_def good_def)
  moreover have geom: "geom_of ?st' = start_geom s st p" using st(4) by (simp add: geom_of_def start_geom_def)
  moreover have "good ?st'" using st(1) by (simp add: good_def)
  then have "wcore (start_geom s st p) ?st' n []"
    unfolding wcore_def geom
    by (intro conjI exI [of _ "[]"] exI [of _ F] exI [of _ g']) (use p st in simp_all)
  then have "wstream (start_geom s st p) ?st' n []"
    unfolding wstream_def by (simp add: zero_page_def)
  ultimately show ?thesis using p by auto
qed

lemma rw_init_read:
  assumes "wf_geom g0" and "\<not> g_extra g0" and "g_stream g0 = s" and "s = 1 \<or> s = 2" and "run True (length U) g0 = Some (U, g')"
    and "chains (posn st) = chains (g_posn g0)" and "toi_extent_state_restore (posn st) (posn_save st ! s) = Some (g_posn g0)"
    and "chain_num (posn_save st ! compare_to s) = current_chain (g_posn g')"
    and "saved_offset (posn_save st ! compare_to s) = current_offset (g_posn g')" and "small_blocks (g_posn g0)"
    and "good st" and "wf_disk (disk st)" and "bio_queue st = []" and "readahead_list st = []" and "\<not> extra_page_forward st"
    and "devinfo st = g_dev g0" and "concat (map (slot_page (disk st)) U) = bs @ pad"
  shows "\<exists>st'. toi_rw_init False s st = Some (0, st') \<and> rstream False st' bs"
proof -
  let ?st' = "st\<lparr>env_n := Suc (env_n st), posn := g_posn g0, io_done := 0, writer_buffer := Some zero_page,
      writer_buffer_posn := PAGE_SIZE, current_stream := s, more_readahead := True\<rparr>"
  have init: "toi_rw_init False s st = Some (0, ?st')"
    using assms(4,7,11) by (auto simp: toi_rw_init_def consult_def good_def)
  note pr = run_progress [OF assms(1,2,5)]
  have "unat (current_offset (g_posn g')) < 2 ^ 31"
    using offset_small [of "g_posn g'"] pr(1,2) assms(10) by (simp add: wf_geom_def small_blocks_def)
  then have "run False (length U) (g0\<lparr>g_save := posn_save st\<rparr>) = Some (U, g'\<lparr>g_save := posn_save st\<rparr>)"
    using assms(3,4,8,9) by (intro run_read [OF assms(1,2) _ assms(5)]) auto
  moreover have geom: "geom_of ?st' = g0\<lparr>g_save := posn_save st\<rparr>"
    using assms(2,3,15,16) by (cases g0) (simp add: geom_of_def)
  moreover have "wf_geom (g0\<lparr>g_save := posn_save st\<rparr>)" using assms(1) by (simp add: wf_geom_def)
  ultimately have "rstr U ?st' bs"
    by (intro rstrI [where buf = zero_page and rl = "[]" and tail = pad and g' = "g'\<lparr>g_save := posn_save st\<rparr>"])
      (use assms(11-14,17) in \<open>simp_all add: good_def zero_page_def\<close>)
  with init assms(14) show ?thesis by (auto simp: rstream_def)
qed

text \<open>
  A kernel that reads an image that was written in state \<open>st\<close>: it has the same disk, and the devices, the
  extent chains and the saved positions of the streams, which the image header carries. It has
  nothing queued and the kernel serves its requests; everything else (the position, the
  buffers, the settings of readahead and throttle, the stream opened last) may differ.
\<close>

definition rebooted :: "bio_state \<Rightarrow> bio_state \<Rightarrow> bool" where
  "rebooted st b \<longleftrightarrow> disk b = disk st \<and> devinfo b = devinfo st \<and> chains (posn b) = chains (posn st) \<and> posn_save b = posn_save st \<and>
     good b \<and> bio_queue b = [] \<and> readahead_list b = [] \<and> \<not> extra_page_forward b"

lemma image_stream_pages:
  assumes "s = 1 \<or> s = 2" and "\<forall>p \<in> set ps. length (snd p) \<le> PAGE_SIZE"
    and "stream_ready s (\<Sum>p\<leftarrow>ps. 12 + length (snd p)) st"
  shows "\<exists>st1 st2 st3. toi_rw_init True s st = Some (0, st1) \<and> write_pages ps st1 = Some (0, st2) \<and>
    toi_rw_cleanup True st2 = Some (0, st3) \<and> rebooted st3 st3 \<and>
    (\<forall>b. rebooted st3 b \<longrightarrow> (\<exists>b1 b2. toi_rw_init False s b = Some (0, b1) \<and> read_pages (length ps) b1 = Some (0, ps, b2)))"
proof -
  let ?bs = "concat (map page_bytes ps)"
  have len: "(\<Sum>p\<leftarrow>ps. 12 + length (snd p)) = length ?bs" by (induction ps) simp_all
  have ready: "stream_ready s (length ?bs) st" using assms(3) by (simp only: len)
  obtain p st1 where st1: "toi_rw_init True s st = Some (0, st1)" "toi_extent_state_restore (posn st) (posn_save st ! s) = Some p"
    "wstream (start_geom s st p) st1 (length ?bs) []" "wf_geom (start_geom s st p)" "\<not> toi_extent_state_eof p"
    "results st1 = results st" "posn_save st1 = posn_save st" "devinfo st1 = devinfo st"
    using rw_init_write [OF ready] assms(1) by auto
  let ?g = "start_geom s st p"
  have ab: "TOI_ABORTED \<notin> results st1" using assms(3) st1(6) by (simp add: stream_ready_def)
  obtain st2 where st2: "write_pages ps st1 = Some (0, st2)" "wstream ?g st2 0 ?bs" "bframe st2 = bframe st1"
    using write_pages_stream [OF st1(3) _ ab, of ps] by auto
  note same = bframe_eqD [OF st2(3)]
  have g: "\<not> g_extra ?g" "g_stream ?g = s" "g_posn ?g = p" "g_dev ?g = devinfo st" by (simp_all add: start_geom_def)
  obtain st3 U g' saved pad where st3: "toi_rw_cleanup True st2 = Some (0, st3)" "run True (length U) ?g = Some (U, g')"
    "concat (map (slot_page (disk st3)) U) = ?bs @ pad" "wf_disk (disk st3)" "bio_queue st3 = []" "readahead_list st3 = []"
    "chain_num saved = current_chain (g_posn g')" "saved_offset saved = current_offset (g_posn g')" "posn st3 = g_posn g'"
    "extra_page_forward st3 = g_extra g'" "posn_save st3 = (posn_save st2)[compare_to s := saved]" "good st3" "devinfo st3 = devinfo st2"
    using cleanup_stream [OF st2(2) st1(4) g(1,2) assms(1)] ab same(1) st1(5) g(3) by auto
  have saves: "posn_save st2 = posn_save st" "length (posn_save st) = 4" "small_blocks (posn st)"
    using same(3) st1(7) assms(3) by (simp_all add: stream_ready_def)
  then have sv: "posn_save st3 ! s = posn_save st ! s" "posn_save st3 ! compare_to s = saved"
    using assms(1) st3(11) by (auto simp: compare_to_def)
  have ch: "chains (posn st3) = chains p" "chains p = chains (posn st)"
    using run_progress(2) [OF st1(4) g(1) st3(2)] st3(9) g(3) restore_chains(1) [OF st1(2)] by simp_all
  have ex: "g_extra g' = g_extra ?g" by (rule run_extra [OF st3(2) g(1)])
  have "rebooted st3 st3" using st3 ex g(1) by (simp add: rebooted_def)
  moreover have "\<exists>b1 b2. toi_rw_init False s b = Some (0, b1) \<and> read_pages (length ps) b1 = Some (0, ps, b2)" if b: "rebooted st3 b" for b
  proof -
    have "\<exists>b1. toi_rw_init False s b = Some (0, b1) \<and> rstream False b1 ?bs"
      by (rule rw_init_read [OF st1(4) g(1,2) assms(1) st3(2)])
        (use b g ch sv st3 same(5) st1(2,8) saves(3) restore_chains(2) [of "posn b" "posn st"] in \<open>simp_all add: rebooted_def small_blocks_def\<close>)
    then obtain b1 where b1: "toi_rw_init False s b = Some (0, b1)" "rstream False b1 (?bs @ [])" by auto
    from read_pages_stream [OF b1(2) assms(2)] b1(1) show ?thesis by auto
  qed
  ultimately show ?thesis using st1(1) st2(1) st3(1) by blast
qed

text \<open>
  C1. The pages of a page set (stream 1 or 2) that are written between \<open>toi_rw_init\<close> and
  \<open>toi_rw_cleanup\<close> are exactly the pages that \<open>toi_bio_read_page\<close> returns afterwards, in order and with
  their page frame numbers and sizes, to the kernel that wrote them and to every kernel that has
  the same disk, devices, extent chains and saved positions, whatever its readahead and throttle settings. This
  holds when \<open>stream_ready\<close> does: the kernel refuses no allocation and no request, the chains have room for the
  pages, the pages of the stream do not overlap on the disk, and every block number is below \<open>2 ^ 31\<close> (the
  reader compares block numbers as \<open>int\<close>).
\<close>

theorem image_stream_roundtrip:
  assumes "s = 1 \<or> s = 2" and "\<forall>p \<in> set ps. length (snd p) \<le> PAGE_SIZE"
    and "stream_ready s (\<Sum>p\<leftarrow>ps. 12 + length (snd p)) st"
  shows "\<exists>st1 st2 st3. toi_rw_init True s st = Some (0, st1) \<and> write_pages ps st1 = Some (0, st2) \<and>
    toi_rw_cleanup True st2 = Some (0, st3) \<and> rebooted st3 st3 \<and>
    (\<forall>b. rebooted st3 b \<longrightarrow> (\<exists>b1 b2. toi_rw_init False s b = Some (0, b1) \<and> read_pages (length ps) b1 = Some (0, ps, b2)))"
  by (rule image_stream_pages [OF assms])

definition demo_bio :: bio_state where
  "demo_bio = \<lparr>disk = \<lambda>_ _. replicate 512 0, devinfo = [\<lparr>bdev = 8, dev_t = 8, bmap_shift = 3, blocks_per_page = 1, ignored = False\<rparr>, \<lparr>bdev = 9, dev_t = 9, bmap_shift = 3, blocks_per_page = 1, ignored = False\<rparr>],
     posn = demo_state, posn_save = replicate 4 \<lparr>chain_num = -1, extent_num = 0, saved_offset = 0\<rparr>,
     current_stream = 0, extra_page_forward = False, writer_buffer = None, writer_buffer_posn = 0, bio_queue = [],
     readahead_list = [], more_readahead = True, throughput_throttle = 0, target_outstanding_io = 1024, io_done = 0,
     ra_pages = 0, unowned = 0, total_header_bytes = 0, header_used = \<lambda>_. 0, header_requested = \<lambda>_. 0, results = {},
     actions = {}, queue_flusher = True, env_ok = \<lambda>_. True, env_n = 0\<rparr>"

lemma demo_bio_ready: "stream_ready 2 4122 demo_bio"
proof -
  let ?p = "toi_extent_state_goto_start demo_state"
  have "run True 2 (start_geom 2 demo_bio ?p) =
      Some ([(9, 40), (9, 48)], (start_geom 2 demo_bio ?p)\<lparr>g_posn := demo_state\<lparr>current_extent := Some 0, current_offset := 6\<rparr>\<rparr>)"
    by (simp add: numeral_2_eq_2 advance_def g_step_def g_bpp_def g_barrier_def start_geom_def demo_bio_def compare_to_def
        toi_extent_state_goto_start_def demo_state_def toi_extent_state_next_def next_chain.simps empty_chain_def
        demo_chain_eq num_chains_def toi_extent_state_eof_def has_slot_def slot_of_def cur_extents_def ext_ptr_def Let_def)
  moreover have "wf_geom (start_geom 2 demo_bio ?p)"
    using wf_demo_state
    by (auto simp: wf_geom_def start_geom_def demo_bio_def toi_extent_state_goto_start_def wf_state_def demo_state_def num_chains_def)
  moreover have "toi_extent_state_restore (posn demo_bio) (posn_save demo_bio ! 2) = Some ?p"
    by (simp add: demo_bio_def toi_extent_state_restore_def)
  moreover have "slots_apart [(9, 40), (9, 48)]" by (simp add: slots_apart_def slot_apart_def)
  moreover have "\<not> toi_extent_state_eof ?p"
    by (simp add: toi_extent_state_eof_def toi_extent_state_goto_start_def demo_state_def num_chains_def)
  moreover have "small_blocks (posn demo_bio)"
    by (simp add: small_blocks_def demo_bio_def demo_state_def demo_chain_eq empty_chain_def)
  ultimately show ?thesis
    unfolding stream_ready_def
    by (intro conjI exI [of _ ?p] exI [of _ "[(9, 40), (9, 48)]"])
      (auto simp: demo_bio_def good_def wf_disk_def numeral_2_eq_2)
qed

theorem image_stream_roundtrip_witness:
  "\<exists>st1 st2 st3 b1 b2. toi_rw_init True 2 demo_bio = Some (0, st1) \<and>
     write_pages [(7, replicate 4096 1), (9, [1, 2])] st1 = Some (0, st2) \<and> toi_rw_cleanup True st2 = Some (0, st3) \<and>
     toi_rw_init False 2 (st3\<lparr>writer_buffer := None, target_outstanding_io := 1, throughput_throttle := 5, queue_flusher := False\<rparr>) = Some (0, b1) \<and>
     read_pages 2 b1 = Some (0, [(7, replicate 4096 1), (9, [1, 2])], b2)"
proof -
  let ?ps = "[(7 :: ulong, replicate 4096 1 :: byte list), (9, [1, 2])]"
  obtain st1 st2 st3 where st: "toi_rw_init True 2 demo_bio = Some (0, st1)" "write_pages ?ps st1 = Some (0, st2)"
    "toi_rw_cleanup True st2 = Some (0, st3)" "rebooted st3 st3"
    and read: "\<And>b. rebooted st3 b \<Longrightarrow> \<exists>b1 b2. toi_rw_init False 2 b = Some (0, b1) \<and> read_pages (length ?ps) b1 = Some (0, ?ps, b2)"
    using image_stream_roundtrip [of 2 ?ps demo_bio] demo_bio_ready by auto
  have "rebooted st3 (st3\<lparr>writer_buffer := None, target_outstanding_io := 1, throughput_throttle := 5, queue_flusher := False\<rparr>)"
    using st(4) by (simp add: rebooted_def good_def)
  from read [OF this] st(1-3) show ?thesis by (simp add: numeral_2_eq_2)
qed

end
