(* ===== verification/TOI_Block_Safety.thy ===== *)
theory TOI_Block_Safety
  imports TOI_Image_Stream
begin

text \<open>
  Block I/O when things go wrong: whatever fails, nothing is written outside the blocks of the
  extent chains; readahead ends; and the places where the code leaves the intended behaviour (a
  page that is not freed, a position that is compared after truncation to \<open>int\<close>).
\<close>

section \<open>Writes stay on the tape\<close>

text \<open>The sectors of a page that starts at a block of the chain of its device.\<close>

definition tape_sector :: "hibernate_extent_chain list \<Rightarrow> toi_bdev_info list \<Rightarrow> bdev \<Rightarrow> ulong \<Rightarrow> bool" where
  "tape_sector cs dev d sec \<longleftrightarrow>
     (\<exists>i < length cs. \<exists>e \<in> set (extents (cs ! i)). \<exists>b. ext_start e \<le> b \<and> b \<le> ext_end e \<and> d = bdev (dev ! i) \<and>
        unat (sec - push_bit (bmap_shift (dev ! i)) b) < SECTORS_PER_PAGE)"

definition tape_ok :: "hibernate_extent_chain list \<Rightarrow> toi_bdev_info list \<Rightarrow> disk \<Rightarrow> bio_state \<Rightarrow> bool" where
  "tape_ok cs dev dsk st \<longleftrightarrow> wf_state (posn st) \<and> chains (posn st) = cs \<and> devinfo st = dev \<and> length dev = length cs \<and>
     (\<forall>d \<in> set dev. 1 \<le> blocks_per_page d) \<and> (\<forall>d s. disk st d s \<noteq> dsk d s \<longrightarrow> tape_sector cs dev d s)"

lemma tape_ok_simps [simp]:
  "tape_ok cs dev dsk (st\<lparr>writer_buffer := b\<rparr>) = tape_ok cs dev dsk st"
  "tape_ok cs dev dsk (st\<lparr>writer_buffer_posn := n\<rparr>) = tape_ok cs dev dsk st"
  "tape_ok cs dev dsk (st\<lparr>bio_queue := q\<rparr>) = tape_ok cs dev dsk st"
  "tape_ok cs dev dsk (st\<lparr>readahead_list := l\<rparr>) = tape_ok cs dev dsk st"
  "tape_ok cs dev dsk (st\<lparr>more_readahead := m\<rparr>) = tape_ok cs dev dsk st"
  "tape_ok cs dev dsk (st\<lparr>io_done := j\<rparr>) = tape_ok cs dev dsk st"
  "tape_ok cs dev dsk (st\<lparr>ra_pages := i\<rparr>) = tape_ok cs dev dsk st"
  "tape_ok cs dev dsk (st\<lparr>env_n := n\<rparr>) = tape_ok cs dev dsk st"
  "tape_ok cs dev dsk (st\<lparr>results := rs\<rparr>) = tape_ok cs dev dsk st"
  "tape_ok cs dev dsk (st\<lparr>extra_page_forward := x\<rparr>) = tape_ok cs dev dsk st"
  "tape_ok cs dev dsk (st\<lparr>posn_save := sv\<rparr>) = tape_ok cs dev dsk st"
  "tape_ok cs dev dsk (st\<lparr>current_stream := k\<rparr>) = tape_ok cs dev dsk st"
  by (simp_all add: tape_ok_def)

lemma tape_okD:
  assumes "tape_ok cs dev dsk st"
  shows "wf_state (posn st)" and "chains (posn st) = cs" and "devinfo st = dev" and "length dev = length cs"
    and "\<forall>d \<in> set dev. 1 \<le> blocks_per_page d"
  using assms unfolding tape_ok_def by blast+

lemma tape_ok_wf_geom: "tape_ok cs dev dsk st \<Longrightarrow> wf_geom (geom_of st)"
  by (simp add: tape_ok_def wf_geom_def geom_of_def)

lemma go_one_page_tape:
  assumes "tape_ok cs dev dsk st" and "go_one_page w barrier st = Some (r, st')"
  shows "tape_ok cs dev dsk st'" and "disk st' = disk st" and "r = 0 \<Longrightarrow> has_slot (geom_of st')"
proof -
  let ?n = "chain_blocks_per_page st (current_chain (posn st))"
  have wf: "wf_state (posn st)" "length (devinfo st) = length (chains (posn st))" "\<forall>d \<in> set (devinfo st). 1 \<le> blocks_per_page d"
    using tape_okD [OF assms(1)] by simp_all
  obtain p where p: "next_blocks ?n (posn st) = Some p" "wf_state p" "chains p = chains (posn st)"
    "0 < ?n \<longrightarrow> current_chain p \<noteq> -1"
    by (rule exE [OF next_blocks_wf [OF wf(1), of ?n]]) (elim conjE, rule that)
  have pos: "0 < ?n" if "\<not> toi_extent_state_eof p"
  proof (rule ccontr)
    assume "\<not> 0 < ?n"
    then have z: "?n = 0" by simp
    with p(1) that have "\<not> toi_extent_state_eof (posn st)" by simp
    with wf(1,2) have "current_chain (posn st) = -1 \<or> 0 \<le> current_chain (posn st) \<and> current_chain (posn st) < int (length (devinfo st))"
      by (auto simp: wf_state_def toi_extent_state_eof_def num_chains_def)
    moreover have "1 \<le> blocks_per_page (devinfo st ! nat (current_chain (posn st)))"
      if "0 \<le> current_chain (posn st)" "current_chain (posn st) < int (length (devinfo st))"
      using that wf(3) by simp
    ultimately show False using z by (auto simp: chain_blocks_per_page_def)
  qed
  have slot: "has_slot (geom_of (st\<lparr>posn := p\<rparr>))" if "\<not> toi_extent_state_eof p"
    using pos [OF that] that p(2-4) wf(2) by (auto simp: has_slot_def wf_state_def toi_extent_state_eof_def num_chains_def)
  have moved: "tape_ok cs dev dsk (st\<lparr>posn := p\<rparr>)" using assms(1) p(2,3) by (simp add: tape_ok_def)
  consider rs where "st' = st\<lparr>results := rs\<rparr>" "r \<noteq> 0" | "st' = st\<lparr>more_readahead := False\<rparr>" "r \<noteq> 0"
    | "st' = st\<lparr>posn := p\<rparr>" "r = 0 \<longrightarrow> \<not> toi_extent_state_eof p"
    using assms(2) p(1) by (auto simp: go_one_page_def debug_broken_header_def Let_def split: if_splits)
  then have "tape_ok cs dev dsk st' \<and> disk st' = disk st \<and> (r = 0 \<longrightarrow> has_slot (geom_of st'))"
  proof cases
    case 1
    then show ?thesis using assms(1) by simp
  next
    case 2
    then show ?thesis using assms(1) by simp
  next
    case 3
    then show ?thesis using moved slot by simp
  qed
  then show "tape_ok cs dev dsk st'" "disk st' = disk st" "r = 0 \<Longrightarrow> has_slot (geom_of st')" by simp_all
qed

lemma go_next_page_tape:
  assumes "tape_ok cs dev dsk st" and "go_next_page w barrier st = Some (r, st')"
  shows "tape_ok cs dev dsk st'" and "disk st' = disk st" and "r = 0 \<Longrightarrow> has_slot (geom_of st')"
proof -
  obtain r1 st1 where st1: "go_one_page w barrier st = Some (r1, st1)"
    and rest: "(if r1 \<noteq> 0 then Some (r1, st1)
      else if extra_page_forward st1 then go_one_page w barrier (st1\<lparr>extra_page_forward := False\<rparr>) else Some (0, st1)) = Some (r, st')"
    using assms(2) by (auto simp: go_next_page_def split: Option.bind_splits)
  note one = go_one_page_tape [OF assms(1) st1]
  have two: "tape_ok cs dev dsk (st1\<lparr>extra_page_forward := False\<rparr>)" using one(1) by simp
  show "tape_ok cs dev dsk st'" "disk st' = disk st" "r = 0 \<Longrightarrow> has_slot (geom_of st')"
    using rest one go_one_page_tape [OF two, of w barrier r st'] by (auto split: if_splits)
qed

text \<open>A page written where the iterator stands lies on the tape.\<close>

lemma slot_on_tape:
  assumes "tape_ok cs dev dsk st" and "has_slot (geom_of st)" and "unat (sec - snd (slot_of (geom_of st))) < SECTORS_PER_PAGE"
  shows "tape_sector cs dev (fst (slot_of (geom_of st))) sec"
proof -
  let ?p = "posn st"
  have c: "0 \<le> current_chain ?p" "nat (current_chain ?p) < length cs"
    using assms(1,2) by (auto simp: has_slot_def tape_ok_def)
  then obtain i where "i < length (cur_extents ?p)" "ext_start (cur_extents ?p ! i) \<le> current_offset ?p"
    "current_offset ?p \<le> ext_end (cur_extents ?p ! i)"
    using assms(1) by (auto simp: tape_ok_def wf_state_def toi_extent_state_eof_def num_chains_def split: option.splits)
  moreover have "cur_extents ?p = extents (cs ! nat (current_chain ?p))"
    using c assms(1) by (auto simp: cur_extents_def tape_ok_def num_chains_def)
  moreover have "slot_of (geom_of st) = (bdev (dev ! nat (current_chain ?p)), push_bit (bmap_shift (dev ! nat (current_chain ?p))) (current_offset ?p))"
    using assms(1) by (simp add: slot_of_def Let_def tape_ok_def)
  ultimately show ?thesis
    unfolding tape_sector_def using c assms(3) by (metis fst_conv nth_mem snd_conv)
qed

lemma rw_page_tape:
  assumes "tape_ok cs dev dsk st" and "toi_bio_rw_page w page ra st = Some (r, st')"
  shows "tape_ok cs dev dsk st'"
proof -
  obtain r1 st1 where st1: "go_next_page w True st = Some (r1, st1)"
    using assms(2) by (auto simp: toi_bio_rw_page_def split: Option.bind_splits)
  note nxt = go_next_page_tape [OF assms(1) st1]
  show ?thesis
  proof (cases "r1 = 0")
    case True
    let ?d = "devinfo st1 ! nat (current_chain (posn st1))"
    let ?b = "push_bit (bmap_shift ?d) (current_offset (posn st1))"
    have slot: "slot_of (geom_of st1) = (bdev ?d, ?b)" by (simp add: slot_of_def Let_def)
    have ok: "tape_ok cs dev dsk (st1\<lparr>disk := disk_write (disk st1) (bdev ?d) ?b page\<rparr>)"
      using nxt(1) slot_on_tape [OF nxt(1) nxt(3) [OF True]] slot
      by (auto simp: tape_ok_def disk_write_def)
    have dis: "st1\<lparr>env_n := a, io_done := b, disk := c\<rparr> = st1\<lparr>disk := c\<rparr>\<lparr>env_n := a, io_done := b\<rparr>" for a b c by simp
    show ?thesis
      using assms(2) st1 True nxt(1) ok
      by (auto simp: toi_bio_rw_page_def toi_do_io_def submit_def consult_def Let_def split: if_splits Option.bind_splits)
        (auto simp: tape_ok_def)
  qed (use assms(2) st1 nxt in \<open>auto simp: toi_bio_rw_page_def\<close>)
qed

lemma flush_pages_tape:
  "tape_ok cs dev dsk st \<Longrightarrow> flush_pages ps r st = Some (r', st') \<Longrightarrow> tape_ok cs dev dsk st'"
proof (induction ps arbitrary: r st)
  case (Cons p ps)
  obtain r1 st1 where st1: "(if r = 0 then toi_bio_rw_page True p False (st\<lparr>bio_queue := ps\<rparr>) else Some (r, st\<lparr>bio_queue := ps\<rparr>)) = Some (r1, st1)"
    "flush_pages ps r1 st1 = Some (r', st')"
    using Cons.prems(2) by (auto simp: Let_def split: Option.bind_splits)
  have "tape_ok cs dev dsk st1"
    using st1(1) Cons.prems(1) rw_page_tape [of cs dev dsk "st\<lparr>bio_queue := ps\<rparr>" True p False r1 st1] by (auto split: if_splits)
  from Cons.IH [OF this st1(2)] show ?case .
qed simp

lemma queue_flush_tape:
  "tape_ok cs dev dsk st \<Longrightarrow> toi_bio_queue_flush_pages st = Some (r, st') \<Longrightarrow> tape_ok cs dev dsk st'"
  unfolding toi_bio_queue_flush_pages_def by (rule flush_pages_tape)

lemma get_new_page_tape:
  "tape_ok cs dev dsk st \<Longrightarrow> toi_bio_get_new_page st = Some (r, st') \<Longrightarrow> tape_ok cs dev dsk st'"
  using queue_flush_tape [of cs dev dsk st]
  by (auto simp: toi_bio_get_new_page_def throttle_if_needed_def split: Option.bind_splits if_splits)

lemma queue_write_tape: "tape_ok cs dev dsk st \<Longrightarrow> toi_bio_queue_write st = Some st' \<Longrightarrow> tape_ok cs dev dsk st'"
  by (auto simp: toi_bio_queue_write_def split: option.splits)

lemma rw_buffer_write_tape:
  "tape_ok cs dev dsk st \<Longrightarrow> rw_buffer_write bs st = Some (r, st') \<Longrightarrow> tape_ok cs dev dsk st'"
proof (induction bs st rule: rw_buffer_write.induct)
  case (1 bs st)
  note unfold = rw_buffer_write.simps [of bs st]
  show ?case
  proof (cases "bs = []")
    case True
    with "1.prems" unfold show ?thesis by simp
  next
    case ne: False
    with "1.prems"(2) unfold obtain buf where buf: "writer_buffer st = Some buf" by (auto split: option.splits)
    let ?at = "writer_buffer_posn st"
    let ?cap = "PAGE_SIZE - ?at"
    show ?thesis
    proof (cases "length bs \<le> ?cap")
      case True
      with ne buf "1.prems" unfold show ?thesis by (auto simp: Let_def)
    next
      case False
      let ?st = "st\<lparr>writer_buffer := Some (put_bytes buf ?at (take ?cap bs))\<rparr>"
      obtain st1 r2 st2 where steps: "toi_bio_queue_write ?st = Some st1" "toi_bio_get_new_page st1 = Some (r2, st2)"
        and rest: "(if r2 \<noteq> 0 then Some (r2, st2) else rw_buffer_write (drop ?cap bs) (st2\<lparr>writer_buffer_posn := 0\<rparr>)) = Some (r, st')"
        using "1.prems"(2) unfold ne buf False by (auto simp: Let_def split: Option.bind_splits)
      have ok: "tape_ok cs dev dsk st2"
        using get_new_page_tape [OF queue_write_tape [OF _ steps(1)] steps(2)] "1.prems"(1) by simp
      show ?thesis
        using rest ok "1.IH" [OF ne buf refl refl False steps refl] by (auto split: if_splits)
    qed
  qed
qed

lemma write_page_tape:
  assumes "tape_ok cs dev dsk st" and "toi_bio_write_page pfn buf st = Some (r, st')"
  shows "tape_ok cs dev dsk st'"
proof (cases "TOI_TEST_FILTER_SPEED \<in> actions st \<or> TOI_ABORTED \<in> results st")
  case False
  obtain r1 s1 where s1: "rw_buffer_write (ulong_bytes pfn) st = Some (r1, s1)"
    using assms(2) False by (auto simp: toi_bio_write_page_def split: Option.bind_splits)
  then obtain r2 s2 where s2: "(if r1 = 0 then rw_buffer_write (int_bytes (int (length buf))) s1 else Some (r1, s1)) = Some (r2, s2)"
    using assms(2) False by (auto simp: toi_bio_write_page_def split: Option.bind_splits)
  with s1 obtain r3 s3 where s3: "(if r2 = 0 then rw_buffer_write buf s2 else Some (r2, s2)) = Some (r3, s3)"
    using assms(2) False by (auto simp: toi_bio_write_page_def split: Option.bind_splits)
  with s1 s2 obtain r4 where s4: "(if queue_flusher s3 then toi_bio_queue_flush_pages s3 else Some (0, s3)) = Some (r4, st')"
    using assms(2) False by (auto simp: toi_bio_write_page_def Let_def split: Option.bind_splits if_splits)
  have "tape_ok cs dev dsk s1" by (rule rw_buffer_write_tape [OF assms(1) s1])
  then have "tape_ok cs dev dsk s2" using s2 rw_buffer_write_tape [of cs dev dsk s1] by (auto split: if_splits)
  then have "tape_ok cs dev dsk s3" using s3 rw_buffer_write_tape [of cs dev dsk s2] by (auto split: if_splits)
  then show ?thesis using s4 queue_flush_tape [of cs dev dsk s3] by (auto split: if_splits)
qed (use assms in \<open>auto simp: toi_bio_write_page_def split: if_splits\<close>)

lemma cleanup_tape:
  assumes "tape_ok cs dev dsk st" and "toi_rw_cleanup True st = Some (r, st')"
  shows "tape_ok cs dev dsk st'"
proof -
  obtain s1 where s1: "(if writer_buffer_posn st \<noteq> 0 \<and> TOI_ABORTED \<notin> results st then toi_bio_queue_write st else Some st) = Some s1"
    using assms(2) by (auto simp: toi_rw_cleanup_def split: Option.bind_splits if_splits)
  then obtain r2 s2 where s2: "toi_bio_queue_flush_pages s1 = Some (r2, s2)"
    using assms(2) by (auto simp: toi_rw_cleanup_def split: Option.bind_splits)
  have "tape_ok cs dev dsk s1" using s1 assms(1) queue_write_tape [of cs dev dsk st] by (auto split: if_splits)
  from queue_flush_tape [OF this s2] have ok: "tape_ok cs dev dsk s2" .
  consider "r2 \<noteq> 0" "st' = s2"
    | sv r3 s3 ra where "r2 = 0" "toi_bio_queue_flush_pages (s2\<lparr>posn_save := sv\<rparr>) = Some (r3, s3)"
      "st' = s3\<lparr>ra_pages := ra, readahead_list := [], current_stream := 0\<rparr>"
    | r3 s3 ra where "r2 = 0" "toi_bio_queue_flush_pages s2 = Some (r3, s3)"
      "st' = s3\<lparr>ra_pages := ra, readahead_list := [], current_stream := 0\<rparr>"
    using assms(2) s1 s2
    by (auto simp: toi_rw_cleanup_def toi_finish_all_io_def Let_def split: if_splits Option.bind_splits)
  then show ?thesis
  proof cases
    case (2 sv r3 s3 ra)
    have "tape_ok cs dev dsk (s2\<lparr>posn_save := sv\<rparr>)" using ok by simp
    from queue_flush_tape [OF this 2(2)] 2(3) show ?thesis by simp
  next
    case (3 r3 s3 ra)
    with queue_flush_tape [OF ok 3(2)] show ?thesis by simp
  qed (use ok in simp)
qed

text \<open>
  C5. Whatever the kernel refuses and wherever a request fails, writing an image page and closing
  the stream change only sectors of pages that begin on a block of the extent chains, on the
  device of that chain.
\<close>

theorem write_stays_on_tape:
  assumes "wf_geom (geom_of st)" and "toi_bio_write_page pfn buf st = Some (r, st1)" and "toi_rw_cleanup True st1 = Some (r2, st2)"
    and "disk st2 d sec \<noteq> disk st d sec"
  shows "tape_sector (chains (posn st)) (devinfo st) d sec"
proof -
  have "tape_ok (chains (posn st)) (devinfo st) (disk st) st"
    using assms(1) by (simp add: tape_ok_def wf_geom_def)
  from cleanup_tape [OF write_page_tape [OF this assms(2)] assms(3)] assms(4) show ?thesis
    unfolding tape_ok_def by blast
qed

theorem write_stays_on_tape_witness:
  "\<exists>st0 r st1 r2 st2. toi_rw_init True 2 demo_bio = Some (0, st0) \<and> toi_bio_write_page 7 [1, 2] st0 = Some (r, st1) \<and>
     toi_rw_cleanup True st1 = Some (r2, st2) \<and>
     (\<forall>d sec. disk st2 d sec \<noteq> disk st0 d sec \<longrightarrow> tape_sector (chains demo_state) (devinfo demo_bio) d sec)"
proof -
  obtain p st0 where st0: "toi_rw_init True 2 demo_bio = Some (0, st0)" "wstream (start_geom 2 demo_bio p) st0 4122 []"
    "wf_geom (start_geom 2 demo_bio p)" "\<not> toi_extent_state_eof p" "results st0 = {}"
    using rw_init_write [OF demo_bio_ready] by (auto simp: demo_bio_def)
  obtain st1 where st1: "toi_bio_write_page 7 [1, 2] st0 = Some (0, st1)"
    "wstream (start_geom 2 demo_bio p) st1 4108 (page_bytes (7, [1, 2]))" "bframe st1 = bframe st0"
    using write_page_stream [OF st0(2), of "[1, 2]" 7] st0(5) by auto
  obtain st2 where st2: "toi_rw_cleanup True st1 = Some (0, st2)"
    using cleanup_stream [OF st1(2) st0(3), of 2] st0(4,5) bframe_eqD(1) [OF st1(3)] by (auto simp: start_geom_def)
  have "wf_geom (geom_of st0) \<and> chains (posn st0) = chains demo_state \<and> devinfo st0 = devinfo demo_bio"
    using st0(1,3) wf_demo_state
    by (auto simp: toi_rw_init_def demo_bio_def toi_extent_state_restore_def consult_def toi_extent_state_goto_start_def
        wf_geom_def geom_of_def start_geom_def wf_state_def num_chains_def demo_state_def)
  with write_stays_on_tape [of st0 7 "[1, 2]" 0 st1 0 st2] st0(1) st1(1) st2 show ?thesis by metis
qed

section \<open>Readahead ends\<close>

lemma go_next_page_progress:
  assumes "wf_geom (geom_of st)" and "go_next_page False True st = Some (0, st')"
  shows "wf_geom (geom_of st')" and "length (todo (posn st')) < length (todo (posn st))"
proof -
  obtain g where g: "advance False (geom_of st) = Some g"
    using go_next_page_end [OF assms(1)] assms(2) by (cases "advance False (geom_of st)") auto
  note nxt = go_next_page_advance [OF g]
  then have st': "geom_of st' = g" using assms(2) by simp
  obtain g1 where g1: "g_step False (geom_of st) = Some g1" and g2: "(if g_extra g1 then g_step False (g1\<lparr>g_extra := False\<rparr>) else Some g1) = Some g"
    using g by (auto simp: advance_def split: Option.bind_splits)
  note s1 = g_step_wf(1) [OF assms(1) g1] g_step_progress [OF assms(1) g1]
  have "wf_geom (g1\<lparr>g_extra := False\<rparr>)" using s1(1) by (simp add: wf_geom_def)
  from g_step_progress [OF this, of False g] have "length (todo (g_posn g)) < length (todo (posn st))"
    using s1(2) g2 by (auto split: if_splits)
  with st' show "wf_geom (geom_of st')" "length (todo (posn st')) < length (todo (posn st))"
    using advance_wf(1) [OF assms(1) g] by auto
qed

lemma start_one_progress:
  assumes "wf_geom (geom_of st)" and "bio_queue st = []" and "\<forall>n. env_ok st n"
  shows "\<exists>r st'. toi_start_one_readahead d st = Some (r, st') \<and> wf_geom (geom_of st') \<and> bio_queue st' = [] \<and> env_ok st' = env_ok st \<and>
    (r = 0 \<and> length (todo (posn st')) < length (todo (posn st)) \<or> r = - ENODATA)"
proof -
  let ?st = "st\<lparr>env_n := Suc (env_n st), ra_pages := ra_pages st + 1\<rparr>"
  have eq: "toi_start_one_readahead d st = toi_bio_rw_page False zero_page True ?st"
    using assms(2,3) by (simp add: toi_start_one_readahead_def throttle_empty consult_def)
  have wf: "wf_geom (geom_of ?st)" using assms(1) by simp
  show ?thesis
  proof (cases "advance False (geom_of ?st)")
    case None
    then obtain p x m where "go_next_page False True ?st = Some (- ENODATA, ?st\<lparr>posn := p, extra_page_forward := x, more_readahead := m\<rparr>)"
      "wf_geom (geom_of (?st\<lparr>posn := p, extra_page_forward := x, more_readahead := m\<rparr>))"
      using go_next_page_end [OF wf] by blast
    then show ?thesis using assms(2) unfolding eq toi_bio_rw_page_def by simp
  next
    case (Some g)
    let ?st1 = "set_geom g ?st"
    note nxt = go_next_page_advance [OF Some]
    note pr = go_next_page_progress [OF wf nxt(1)]
    have slot: "has_slot g" by (rule advance_wf(2) [OF wf Some])
    have dev: "g_dev g = devinfo st" using advance_dev [OF Some] by simp
    have same: "env_ok ?st1 = env_ok st" "bio_queue ?st1 = []" "actions ?st1 = actions st"
      using assms(2) by (simp_all add: set_geom_def)
    have "\<exists>pg st2. submit False a b zero_page ?st1 = Some (0, pg, st2) \<and> geom_of st2 = geom_of ?st1 \<and> bio_queue st2 = [] \<and> env_ok st2 = env_ok st \<and> posn st2 = posn ?st1" for a b
      using assms(3) same by (auto simp: submit_def consult_def Let_def)
    then obtain pg st2 where io: "submit False (bdev (devinfo ?st1 ! nat (current_chain (posn ?st1))))
        (push_bit (bmap_shift (devinfo ?st1 ! nat (current_chain (posn ?st1)))) (current_offset (posn ?st1))) zero_page ?st1 = Some (0, pg, st2)"
      "geom_of st2 = geom_of ?st1" "bio_queue st2 = []" "env_ok st2 = env_ok st" "posn st2 = posn ?st1" by blast
    have "toi_bio_rw_page False zero_page True ?st = Some (0, st2\<lparr>readahead_list := readahead_list st2 @ [Some pg]\<rparr>)"
      using nxt slot io(1) dev by (simp add: toi_bio_rw_page_def toi_do_io_def has_slot_def Let_def)
    with io pr eq show ?thesis by auto
  qed
qed

lemma readahead_loop_ends:
  assumes "wf_geom (geom_of st)" and "bio_queue st = []" and "\<forall>n. env_ok st n"
  shows "\<exists>st'. readahead_loop d k st = Some (0, st') \<and> wf_geom (geom_of st')"
  using assms
proof (induction "length (todo (posn st))" arbitrary: st k rule: less_induct)
  case less
  obtain r st1 where st1: "toi_start_one_readahead d st = Some (r, st1)" "wf_geom (geom_of st1)" "bio_queue st1 = []" "env_ok st1 = env_ok st"
    "r = 0 \<and> length (todo (posn st1)) < length (todo (posn st)) \<or> r = - ENODATA"
    using start_one_progress [OF less.prems, of d] by blast
  show ?case
  proof (cases "r = 0")
    case True
    then have "\<exists>st'. readahead_loop d (k + 1) st1 = Some (0, st') \<and> wf_geom (geom_of st')"
      using st1 less.prems(3) by (intro less.hyps) auto
    with True st1 show ?thesis by (subst readahead_loop.simps) (auto simp: Let_def)
  qed (use st1 in \<open>subst readahead_loop.simps, auto\<close>)
qed

text \<open>
  C20. When the write queue is empty and every allocation and request succeeds, starting readahead returns and
  reports no error, from any position on well-formed chains. This holds also in the dedicated thread, which
  goes on without a limit on the pages in flight: every round goes forward on the tape, so that the end of the
  stream or of the chains is reached.
\<close>

theorem start_new_readahead_ends:
  assumes "wf_geom (geom_of st)" and "bio_queue st = []" and "\<forall>n. env_ok st n"
  shows "\<exists>st'. toi_start_new_readahead dedicated_thread st = Some (0, st') \<and> wf_geom (geom_of st')"
  using readahead_loop_ends [OF assms] assms(1) by (simp add: toi_start_new_readahead_def)

theorem start_new_readahead_ends_witness:
  "\<exists>st'. toi_start_new_readahead True demo_bio = Some (0, st') \<and> wf_geom (geom_of st')"
  by (rule start_new_readahead_ends)
    (use wf_demo_state in \<open>auto simp: demo_bio_def wf_geom_def geom_of_def demo_state_def\<close>)

section \<open>The ends of a stream\<close>

lemma flush_pages_failed: "r \<noteq> 0 \<Longrightarrow> flush_pages ps r st = Some (r, if ps = [] then st else st\<lparr>bio_queue := []\<rparr>)"
  by (induction ps arbitrary: st) (simp_all add: Let_def)

lemma s32_lost:
  fixes v :: ulong
  assumes "2 ^ 31 \<le> unat v" and "unat v < 2 ^ 63"
  shows "v \<noteq> of_int (s32 (uint v))"
proof
  assume eq: "v = of_int (s32 (uint v))"
  obtain c where c: "c = s32 (uint v)" by simp
  have b: "- (2 ^ 31) \<le> c" "c < 2 ^ 31" using s32_bounds by (simp_all add: c)
  obtain n where n: "uint v = int n" "2 ^ 31 \<le> n" "n < 2 ^ 63"
    using assms uint_nat [of v] by blast
  have "uint v = c mod 2 ^ 64" by (subst eq) (simp add: uint_word_of_int c)
  then have u: "int n = c mod 2 ^ 64" by (simp only: n(1))
  show False
  proof (cases "0 \<le> c")
    case True
    then have "c mod 2 ^ 64 = c" using b by simp
    with b u n(2) show False by simp
  next
    case False
    have "c mod 2 ^ 64 = (c + 2 ^ 64) mod 2 ^ 64" by simp
    also have "\<dots> = c + 2 ^ 64" by (rule mod_pos_pos_trivial) (use b False in simp_all)
    finally show False using u b(1) n(3) by simp
  qed
qed

lemma flush_pages_prefix:
  assumes "good st" and "run True (length ps) (geom_of st) = Some (ss, g)"
  shows "\<exists>st'. flush_pages (ps @ qs) 0 st = flush_pages qs 0 st' \<and> geom_of st' = g \<and> disk st' = write_slots (disk st) ss ps \<and> frame st' = frame st"
  using assms
proof (induction ps arbitrary: st ss)
  case (Cons p ps)
  let ?st = "st\<lparr>bio_queue := ps @ qs\<rparr>"
  obtain g1 ss' where adv: "advance True (geom_of ?st) = Some g1" "has_slot g1" "run True (length ps) g1 = Some (ss', g)" "ss = slot_of g1 # ss'"
    using Cons.prems(2) by (auto split: Option.bind_splits if_splits)
  obtain st1 where st1: "toi_bio_rw_page True p False ?st = Some (0, st1)" "geom_of st1 = g1"
    "disk st1 = disk_write (disk st) (fst (slot_of g1)) (snd (slot_of g1)) p" "frame st1 = frame st"
    using rw_page_write [OF _ adv(1,2), of p] Cons.prems(1) by auto
  have "good st1" using frame_eqD(6) [OF st1(4)] Cons.prems(1) by simp
  from Cons.IH [OF this, of ss'] st1 adv show ?case by auto
qed auto

lemma saved_barrier:
  assumes "toi_extent_state_save (posn st) = Some (posn_save st ! compare_to (current_stream st))" and "unat (current_offset (posn st)) < 2 ^ 31"
  shows "at_barrier st"
  using state_save_fields [OF assms(1)] s32_offset [OF assms(2)] by (simp add: at_barrier_def Let_def)

text \<open>
  C21. The header (stream 0) does not run into pageset 2. When \<open>k\<close> more pages of it lead to the position that was
  saved as the start of pageset 2, and the queue holds more than \<open>k\<close> pages, the first \<open>k\<close> are written where they
  belong, the next one fails with \<open>-EIO\<close> and marks the cycle as aborted with \<open>TOI_HEADER_TOO_BIG\<close>, the rest of
  the queue is dropped, and the pages \<open>P\<close> where pageset 2 is written keep their contents. The requests before the
  limit succeed, the pages of the two streams do not overlap, and the block number of the limit is below
  \<open>2 ^ 31\<close>, since it is compared as an \<open>int\<close>.
\<close>

theorem header_stops_at_pageset2:
  assumes "good st" and "current_stream st = 0" and "run True k (geom_of st) = Some (H, g)"
    and "toi_extent_state_save (g_posn g) = Some (posn_save st ! 2)" and "unat (current_offset (g_posn g)) < 2 ^ 31"
    and "k < length (bio_queue st)" and "\<forall>p \<in> set (bio_queue st). length p = PAGE_SIZE"
    and "run True (length P) (start_geom 2 st (g_posn g)) = Some (P, g2)" and "slots_apart (H @ P)"
  shows "\<exists>st'. toi_bio_queue_flush_pages st = Some (- EIO, st') \<and> {TOI_ABORTED, TOI_HEADER_TOO_BIG} \<subseteq> results st' \<and> bio_queue st' = [] \<and>
    posn st' = g_posn g \<and> map (slot_page (disk st')) H = take k (bio_queue st) \<and> (\<forall>sl \<in> set P. slot_page (disk st') sl = slot_page (disk st) sl)"
proof -
  let ?ps = "take k (bio_queue st)"
  have len: "length ?ps = k" "length H = k" using assms(3,6) run_length by auto
  obtain p qs where q: "drop k (bio_queue st) = p # qs" using assms(6) by (metis Cons_nth_drop_Suc)
  then have split: "bio_queue st = ?ps @ p # qs" by (metis append_take_drop_id)
  obtain st1 where st1: "flush_pages (?ps @ p # qs) 0 st = flush_pages (p # qs) 0 st1" "geom_of st1 = g"
    "disk st1 = write_slots (disk st) H ?ps" "frame st1 = frame st"
    using flush_pages_prefix [OF assms(1), of ?ps H g "p # qs"] assms(3) len(1) by auto
  have same: "posn st1 = g_posn g" "current_stream st1 = 0" "posn_save st1 = posn_save st"
    using st1(2) geom_of_reads(3) [of st1] frame_eqD(7,8) [OF st1(4)] assms(2) by auto
  have "at_barrier st1" by (rule saved_barrier) (use assms(4,5) same in \<open>simp_all add: compare_to_def\<close>)
  then have "at_barrier (st1\<lparr>bio_queue := qs\<rparr>)" by (simp add: at_barrier_def)
  then have "toi_bio_rw_page True p False (st1\<lparr>bio_queue := qs\<rparr>) = Some (debug_broken_header (st1\<lparr>bio_queue := qs\<rparr>))"
    using same(2) by (simp add: toi_bio_rw_page_def go_next_page_def go_one_page_def debug_broken_header_def)
  then have "\<exists>st'. flush_pages (p # qs) 0 st1 = Some (- EIO, st') \<and> {TOI_ABORTED, TOI_HEADER_TOO_BIG} \<subseteq> results st' \<and> bio_queue st' = [] \<and>
      posn st' = posn st1 \<and> disk st' = disk st1"
    by (simp add: debug_broken_header_def flush_pages_failed set_abort_result_def)
  then obtain st' where st': "toi_bio_queue_flush_pages st = Some (- EIO, st')" "{TOI_ABORTED, TOI_HEADER_TOO_BIG} \<subseteq> results st'"
    "bio_queue st' = []" "posn st' = g_posn g" "disk st' = write_slots (disk st) H ?ps"
    using st1(1,3) split same(1) by (auto simp: toi_bio_queue_flush_pages_def)
  have apart: "slots_apart H" "\<forall>x \<in> set H. \<forall>y \<in> set P. slot_apart x y" using assms(9) by (simp_all add: slots_apart_append)
  have "map (slot_page (disk st')) H = ?ps"
    unfolding st'(5) using apart(1) len assms(7) by (intro write_slots_same) (auto dest: in_set_takeD)
  moreover have "\<forall>sl \<in> set P. slot_page (disk st') sl = slot_page (disk st) sl"
    unfolding st'(5) using apart(2) slot_apart_sym by (intro ballI write_slots_other) blast
  ultimately show ?thesis using st' by blast
qed

text \<open>The header may use blocks 5 and 6; pageset 2 begins with block 7.\<close>

definition demo_header :: bio_state where
  "demo_header = demo_bio\<lparr>posn := toi_extent_state_goto_start demo_state,
     posn_save := (posn_save demo_bio)[2 := \<lparr>chain_num = 1, extent_num = 0, saved_offset = 6\<rparr>],
     bio_queue := [replicate 4096 1, replicate 4096 2, replicate 4096 3, replicate 4096 4]\<rparr>"

theorem header_stops_at_pageset2_witness:
  "\<exists>st'. toi_bio_queue_flush_pages demo_header = Some (- EIO, st') \<and> TOI_HEADER_TOO_BIG \<in> results st' \<and>
     slot_page (disk st') (9, 40) = replicate 4096 1 \<and> slot_page (disk st') (9, 56) = slot_page (disk demo_header) (9, 56)"
proof -
  let ?p = "demo_state\<lparr>current_extent := Some 0, current_offset := 6\<rparr>"
  let ?g = "(geom_of demo_header)\<lparr>g_posn := ?p\<rparr>"
  have six: "s32 6 = 6" by (simp add: s32_def)
  note defs = advance_def g_step_def g_bpp_def g_barrier_def start_geom_def demo_header_def demo_bio_def compare_to_def geom_of_def
    toi_extent_state_goto_start_def demo_state_def toi_extent_state_next_def next_chain.simps empty_chain_def
    demo_chain_eq num_chains_def toi_extent_state_eof_def has_slot_def slot_of_def cur_extents_def ext_ptr_def Let_def six
  have "run True (Suc (Suc 0)) (geom_of demo_header) = Some ([(9, 40), (9, 48)], ?g)" by (simp add: defs)
  then have "run True 2 (geom_of demo_header) = Some ([(9, 40), (9, 48)], ?g)" by (simp only: numeral_2_eq_2)
  moreover have "toi_extent_state_save (g_posn ?g) = Some (posn_save demo_header ! 2)"
    by (simp add: demo_header_def demo_bio_def demo_state_def toi_extent_state_save_def num_chains_def toi_extent_state_eof_def
        save_loop_found demo_chain_eq empty_chain_def cur_extents_def Let_def)
  moreover have "run True (length [(9, 56)]) (start_geom 2 demo_header (g_posn ?g)) =
      Some ([(9, 56)], (start_geom 2 demo_header (g_posn ?g))\<lparr>g_posn := ?p\<lparr>current_offset := 7\<rparr>\<rparr>)"
    by (simp add: defs)
  moreover have "slots_apart ([(9, 40), (9, 48)] @ [(9, 56)])" by (simp add: slots_apart_def slot_apart_def)
  moreover have "good demo_header" "current_stream demo_header = 0" "2 < length (bio_queue demo_header)" "\<forall>p \<in> set (bio_queue demo_header). length p = PAGE_SIZE"
    by (simp_all add: demo_header_def demo_bio_def good_def zero_page_def)
  ultimately obtain st' where "toi_bio_queue_flush_pages demo_header = Some (- EIO, st')" "{TOI_ABORTED, TOI_HEADER_TOO_BIG} \<subseteq> results st'"
    "map (slot_page (disk st')) [(9, 40), (9, 48)] = take 2 (bio_queue demo_header)" "\<forall>sl \<in> set [(9, 56)]. slot_page (disk st') sl = slot_page (disk demo_header) sl"
    using header_stops_at_pageset2 [of demo_header 2 "[(9, 40), (9, 48)]" ?g "[(9, 56)]"] by auto
  then show ?thesis by (intro exI [of _ st']) (simp add: demo_header_def)
qed

text \<open>
  C35. The end of a stream is lost when its last block number is \<open>2 ^ 31\<close> or more (and below \<open>2 ^ 63\<close>):
  \<open>go_next_page\<close> keeps the saved offset in an \<open>int\<close>, and the comparison with the position fails on the very
  page that was saved as the last one. Unless the chains end there as well, the reader goes on: a page behind
  the end of the stream is read and put into the readahead list.
\<close>

theorem barrier_lost_above_int:
  assumes "2 ^ 31 \<le> unat (current_offset (posn st))" and "unat (current_offset (posn st)) < 2 ^ 63"
    and "toi_extent_state_save (posn st) = Some (posn_save st ! compare_to (current_stream st))"
    and "good st" and "wf_geom (geom_of st)" and "\<not> extra_page_forward st"
    and "next_blocks (chain_blocks_per_page st (current_chain (posn st))) (posn st) = Some p" and "\<not> toi_extent_state_eof p"
  shows "\<exists>st'. go_next_page False True st = Some (0, st\<lparr>posn := p\<rparr>) \<and> toi_bio_rw_page False page True st = Some (0, st') \<and> posn st' = p \<and>
    readahead_list st' = readahead_list st @ [Some (slot_page (disk st) (slot_of (geom_of (st\<lparr>posn := p\<rparr>))))]"
proof -
  have "\<not> at_barrier st" using state_save_fields [OF assms(3)] s32_lost [OF assms(1,2)] by (simp add: at_barrier_def Let_def)
  then have step: "g_step False (geom_of st) = Some ((geom_of st)\<lparr>g_posn := p\<rparr>)" using assms(7,8) by (simp add: g_step_def)
  have g: "geom_of (st\<lparr>posn := p\<rparr>) = (geom_of st)\<lparr>g_posn := p\<rparr>" by (simp add: geom_of_def)
  have adv: "advance False (geom_of st) = Some (geom_of (st\<lparr>posn := p\<rparr>))" using step assms(6) by (simp add: advance_def g)
  have "has_slot (geom_of (st\<lparr>posn := p\<rparr>))" by (rule advance_wf(2) [OF assms(5) adv])
  from rw_page_read [OF assms(4) adv this, of page] obtain st' where st': "toi_bio_rw_page False page True st = Some (0, st')"
    "geom_of st' = geom_of (st\<lparr>posn := p\<rparr>)"
    "readahead_list st' = readahead_list st @ [Some (slot_page (disk st) (slot_of (geom_of (st\<lparr>posn := p\<rparr>))))]" by auto
  moreover have "posn st' = p" using arg_cong [OF st'(2), of g_posn] by simp
  moreover have "go_next_page False True st = Some (0, st\<lparr>posn := p\<rparr>)"
    using go_next_page_advance(1) [OF adv] assms(6) by (cases st) (simp add: set_geom_def geom_of_def)
  ultimately show ?thesis by blast
qed

text \<open>A stream that ends with block 3000000003, and one more block after it.\<close>

definition far_state :: toi_extent_iterate_state where
  "far_state = \<lparr>chains = [\<lparr>chain_size = 8, num_extents = 1, extents = [\<lparr>ext_start = 3000000000, ext_end = 3000000007\<rparr>], last_touched = None\<rparr>],
     current_chain = 0, current_extent = Some 0, current_offset = 3000000003\<rparr>"

definition far_bio :: bio_state where
  "far_bio = demo_bio\<lparr>posn := far_state, devinfo := [hd (devinfo demo_bio)], current_stream := 1,
     posn_save := replicate 4 \<lparr>chain_num = 0, extent_num = 0, saved_offset = 3000000003\<rparr>\<rparr>"

theorem barrier_lost_above_int_witness:
  "\<exists>st'. toi_bio_rw_page False zero_page True far_bio = Some (0, st') \<and> current_offset (posn st') = 3000000004"
proof -
  let ?p = "far_state\<lparr>current_offset := 3000000004\<rparr>"
  note fs = far_state_def
  have "next_blocks (chain_blocks_per_page far_bio (current_chain (posn far_bio))) (posn far_bio) = Some ?p"
    by (simp add: far_bio_def demo_bio_def fs chain_blocks_per_page_def toi_extent_state_next_def num_chains_def toi_extent_state_eof_def cur_extents_def
        ext_ptr_def Let_def)
  moreover have "toi_extent_state_save (posn far_bio) = Some (posn_save far_bio ! compare_to (current_stream far_bio))"
    by (simp add: far_bio_def demo_bio_def fs compare_to_def toi_extent_state_save_def num_chains_def toi_extent_state_eof_def save_loop_found
        cur_extents_def Let_def)
  moreover have "wf_geom (geom_of far_bio)"
    by (simp add: far_bio_def demo_bio_def fs wf_geom_def geom_of_def wf_state_def num_chains_def cur_extents_def wf_chain_def wf_extents_def ext_vals_def s32_def del: upt_Suc)
  ultimately show ?thesis
    using barrier_lost_above_int [of far_bio ?p zero_page] by (auto simp: far_bio_def demo_bio_def fs good_def toi_extent_state_eof_def num_chains_def)
qed

text \<open>
  C36. At the end of a stream \<open>toi_start_one_readahead\<close> reports \<open>-ENODATA\<close> without freeing the page
  it had allocated: the page is neither in the readahead list nor given back, also not by
  \<open>toi_rw_cleanup\<close>, so each attempt at the end of a stream loses a page of memory.
\<close>

theorem readahead_end_leaks_page:
  assumes "at_barrier st" and "bio_queue st = []" and "env_ok st (env_n st)"
  shows "\<exists>st1 st2. toi_start_one_readahead dedicated_thread st = Some (- ENODATA, st1) \<and>
    readahead_list st1 = readahead_list st \<and> ra_pages st1 = ra_pages st + 1 \<and>
    toi_rw_cleanup False st1 = Some (0, st2) \<and> ra_pages st2 = ra_pages st + 1 - int (length (readahead_list st))"
  using assms
  by (simp add: toi_start_one_readahead_def throttle_empty consult_def toi_bio_rw_page_def go_next_page_def
      go_one_page_def at_barrier_def toi_rw_cleanup_def toi_finish_all_io_def toi_bio_queue_flush_pages_def)

theorem readahead_end_leaks_page_witness:
  "\<exists>st1 st2. toi_start_one_readahead False (demo_bio\<lparr>posn := toi_extent_state_goto_start demo_state\<rparr>) = Some (- ENODATA, st1) \<and>
     toi_rw_cleanup False st1 = Some (0, st2) \<and> ra_pages st2 = 1"
  using readahead_end_leaks_page [of "demo_bio\<lparr>posn := toi_extent_state_goto_start demo_state\<rparr>" False]
  by (auto simp: demo_bio_def at_barrier_def compare_to_def toi_extent_state_goto_start_def s32_def)

end
