(* ===== verification/TOI_Alloc.thy ===== *)
theory TOI_Alloc
  imports TOI_State
begin

text \<open>
  The allocation wrappers (\<open>tuxonice_alloc.c\<close>) that count what each of the 39 call paths
  allocates and frees, inject failures for testing, and record the highest usage.

  What the kernel's own allocator returns is an argument: an address, or \<open>None\<close> for a null
  pointer. \<open>None\<close> as the result of an operation is a \<open>BUG_ON\<close> or the use of a null page. The counters are
  \<open>int\<close>s and \<open>atomic_t\<close>s of 32 bits, which wrap around.
\<close>

abbreviation (input) TOI_ALLOC_PATHS :: nat where "TOI_ALLOC_PATHS \<equiv> 39"

record alloc_state =
  toi_fail_num :: nat
  toi_alloc_count :: "nat \<Rightarrow> int"
  toi_free_count :: "nat \<Rightarrow> int"
  toi_test_count :: "nat \<Rightarrow> int"
  toi_fail_count :: "nat \<Rightarrow> int"
  toi_cur_allocd :: "nat \<Rightarrow> int"
  toi_max_allocd :: "nat \<Rightarrow> int"
  cur_allocd :: int
  max_allocd :: int
  alloc_enabled :: bool
  alloc_actions :: "toi_action_bit set"

definition alloc_update_stats :: "nat \<Rightarrow> nat option \<Rightarrow> alloc_state \<Rightarrow> alloc_state" where
  "alloc_update_stats fail_num result st =
     (if result = None then st\<lparr>toi_fail_count := (toi_fail_count st)(fail_num := s32 (toi_fail_count st fail_num + 1))\<rparr>
      else let st1 = st\<lparr>toi_alloc_count := (toi_alloc_count st)(fail_num := s32 (toi_alloc_count st fail_num + 1))\<rparr>
           in if TOI_GET_MAX_MEM_ALLOCD \<notin> alloc_actions st1 then st1
              else let st2 = st1\<lparr>toi_cur_allocd := (toi_cur_allocd st1)(fail_num := s32 (toi_cur_allocd st1 fail_num + 1)),
                                 cur_allocd := s32 (cur_allocd st1 + 1)\<rparr>
                   in if max_allocd st2 < cur_allocd st2
                      then st2\<lparr>toi_max_allocd := (\<lambda>i. if i < TOI_ALLOC_PATHS then toi_cur_allocd st2 i else toi_max_allocd st2 i),
                               max_allocd := cur_allocd st2\<rparr>
                      else st2)"

definition free_update_stats :: "nat \<Rightarrow> alloc_state \<Rightarrow> alloc_state option" where
  "free_update_stats fail_num st =
     (if TOI_ALLOC_PATHS \<le> fail_num then None
      else let st1 = st\<lparr>toi_free_count := (toi_free_count st)(fail_num := s32 (toi_free_count st fail_num + 1))\<rparr>
           in Some (if TOI_GET_MAX_MEM_ALLOCD \<notin> alloc_actions st1 then st1
                    else st1\<lparr>cur_allocd := s32 (cur_allocd st1 - 1),
                             toi_cur_allocd := (toi_cur_allocd st1)(fail_num := s32 (toi_cur_allocd st1 fail_num - 1))\<rparr>))"

text \<open>\<open>MIGHT_FAIL\<close>: the state when the failure is injected.\<close>

definition might_fail :: "nat \<Rightarrow> alloc_state \<Rightarrow> alloc_state option" where
  "might_fail fail_num st =
     (if fail_num = toi_fail_num st
      then Some (st\<lparr>toi_test_count := (toi_test_count st)(fail_num := s32 (toi_test_count st fail_num + 1)), toi_fail_num := 0\<rparr>)
      else None)"

text \<open>
  \<open>toi_kzalloc\<close>; \<open>toi_get_free_pages\<close>, \<open>toi_alloc_page\<close> and \<open>toi_get_zeroed_page\<close> have the same
  body around another kernel function.
\<close>

definition toi_kzalloc :: "nat \<Rightarrow> nat option \<Rightarrow> alloc_state \<Rightarrow> (nat option \<times> alloc_state) option" where
  "toi_kzalloc fail_num kzalloc st =
     (if alloc_enabled st
      then if TOI_ALLOC_PATHS \<le> fail_num then None
           else case might_fail fail_num st of
                  Some st1 \<Rightarrow> Some (None, st1)
                | None \<Rightarrow> Some (kzalloc, alloc_update_stats fail_num kzalloc st)
      else Some (kzalloc, st))"

definition toi_get_free_pages :: "nat \<Rightarrow> nat option \<Rightarrow> alloc_state \<Rightarrow> (nat option \<times> alloc_state) option" where
  "toi_get_free_pages = toi_kzalloc"

definition toi_alloc_page :: "nat \<Rightarrow> nat option \<Rightarrow> alloc_state \<Rightarrow> (nat option \<times> alloc_state) option" where
  "toi_alloc_page = toi_kzalloc"

definition toi_get_zeroed_page :: "nat \<Rightarrow> nat option \<Rightarrow> alloc_state \<Rightarrow> (nat option \<times> alloc_state) option" where
  "toi_get_zeroed_page = toi_kzalloc"

text \<open>\<open>kfree\<close> and \<open>free_page\<close> accept a null pointer, \<open>__free_page\<close> and \<open>__free_pages\<close> do not.\<close>

definition toi_kfree :: "nat \<Rightarrow> nat option \<Rightarrow> alloc_state \<Rightarrow> alloc_state option" where
  "toi_kfree fail_num arg st = (if arg \<noteq> None \<and> alloc_enabled st then free_update_stats fail_num st else Some st)"

definition toi_free_page :: "nat \<Rightarrow> nat option \<Rightarrow> alloc_state \<Rightarrow> alloc_state option" where
  "toi_free_page fail_num virt st = (if virt \<noteq> None \<and> alloc_enabled st then free_update_stats fail_num st else Some st)"

definition toi__free_page :: "nat \<Rightarrow> nat option \<Rightarrow> alloc_state \<Rightarrow> alloc_state option" where
  "toi__free_page fail_num page st =
     (if page = None then None else if alloc_enabled st then free_update_stats fail_num st else Some st)"

definition toi_free_pages :: "nat \<Rightarrow> nat option \<Rightarrow> alloc_state \<Rightarrow> alloc_state option" where
  "toi_free_pages = toi__free_page"

text \<open>The paths \<open>toi_alloc_print_debug_stats\<close> reports: those that did not free all they allocated.\<close>

definition toi_alloc_print_debug_stats :: "alloc_state \<Rightarrow> nat list" where
  "toi_alloc_print_debug_stats st =
     (if \<not> alloc_enabled st then []
      else filter (\<lambda>i. toi_alloc_count st i \<noteq> toi_free_count st i) [0 ..< TOI_ALLOC_PATHS])"

definition toi_alloc_initialise :: "bool \<Rightarrow> alloc_state \<Rightarrow> int \<times> alloc_state" where
  "toi_alloc_initialise starting_cycle st =
     (0, if starting_cycle \<and> alloc_enabled st
         then let z = (\<lambda>f i. if i < TOI_ALLOC_PATHS then 0 else f i)
              in st\<lparr>toi_alloc_count := z (toi_alloc_count st), toi_free_count := z (toi_free_count st),
                    toi_test_count := z (toi_test_count st), toi_fail_count := z (toi_fail_count st),
                    toi_cur_allocd := z (toi_cur_allocd st), toi_max_allocd := z (toi_max_allocd st),
                    max_allocd := 0, cur_allocd := 0\<rparr>
         else st)"

section \<open>The statistics agree\<close>

text \<open>
  What can happen to the statistics: an allocation, for which the kernel's allocator has an answer, or a free on a call
  path; the start of a cycle; and the user switching the accounting or the search for the maximum on and off through
  sysfs, or choosing a path to fail.
\<close>

datatype alloc_event = Alloc nat "nat option" | Kfree nat "nat option" | Free_page nat nat | Cycle bool |
  Enable bool | Find_max bool | Fail_test nat

text \<open>
  One event. Beside the statistics \<open>out p\<close> is the number of objects granted on path \<open>p\<close> less the
  number given back on it, whether they are being counted or not.
\<close>

fun alloc_step :: "alloc_event \<Rightarrow> alloc_state \<times> (nat \<Rightarrow> int) \<Rightarrow> (alloc_state \<times> (nat \<Rightarrow> int)) option" where
  "alloc_step (Alloc p k) (st, out) =
     map_option (\<lambda>(r, st'). (st', if r \<noteq> None then out(p := out p + 1) else out)) (toi_kzalloc p k st)"
| "alloc_step (Kfree p a) (st, out) = map_option (\<lambda>st'. (st', if a \<noteq> None then out(p := out p - 1) else out)) (toi_kfree p a st)"
| "alloc_step (Free_page p a) (st, out) = map_option (\<lambda>st'. (st', out(p := out p - 1))) (toi__free_page p (Some a) st)"
| "alloc_step (Cycle starting) (st, out) = Some (snd (toi_alloc_initialise starting st), out)"
| "alloc_step (Enable e) (st, out) = Some (st\<lparr>alloc_enabled := e\<rparr>, out)"
| "alloc_step (Find_max b) (st, out) =
     Some (st\<lparr>alloc_actions := (if b then insert TOI_GET_MAX_MEM_ALLOCD (alloc_actions st) else alloc_actions st - {TOI_GET_MAX_MEM_ALLOCD})\<rparr>, out)"
| "alloc_step (Fail_test p) (st, out) = Some (st\<lparr>toi_fail_num := p\<rparr>, out)"

fun alloc_events :: "alloc_event list \<Rightarrow> alloc_state \<times> (nat \<Rightarrow> int) \<Rightarrow> (alloc_state \<times> (nat \<Rightarrow> int)) option" where
  "alloc_events [] s = Some s"
| "alloc_events (e # es) s = Option.bind (alloc_step e s) (alloc_events es)"

text \<open>
  After at most \<open>n\<close> events of a cycle at whose start \<open>out0\<close> was outstanding: no counter has left \<open>- n \<dots> n\<close>.
\<close>

definition alloc_inv :: "int \<Rightarrow> (nat \<Rightarrow> int) \<Rightarrow> alloc_state \<Rightarrow> (nat \<Rightarrow> int) \<Rightarrow> bool" where
  "alloc_inv n out0 st out \<longleftrightarrow> alloc_enabled st \<and> cur_allocd st = (\<Sum>i < TOI_ALLOC_PATHS. toi_cur_allocd st i) \<and>
     max_allocd st = (\<Sum>i < TOI_ALLOC_PATHS. toi_max_allocd st i) \<and>
     - n \<le> cur_allocd st \<and> cur_allocd st \<le> max_allocd st \<and> 0 \<le> max_allocd st \<and> max_allocd st \<le> n \<and>
     (\<forall>i < TOI_ALLOC_PATHS. \<bar>toi_cur_allocd st i\<bar> \<le> n \<and> 0 \<le> toi_alloc_count st i \<and> toi_alloc_count st i \<le> n \<and>
        0 \<le> toi_free_count st i \<and> toi_free_count st i \<le> n \<and> toi_alloc_count st i - toi_free_count st i = out i - out0 i)"

lemma alloc_inv_weaken: "alloc_inv n out0 st out \<Longrightarrow> alloc_inv (n + 1) out0 st out"
  unfolding alloc_inv_def by (fastforce)

lemma sum_upd_path:
  fixes f :: "nat \<Rightarrow> int"
  assumes "p < n"
  shows "(\<Sum>i < n. if i = p then f p + d else f i) = (\<Sum>i < n. f i) + d"
proof -
  have "(\<Sum>i < n. if i = p then f p + d else f i) = (\<Sum>i < n. f i + (if i = p then d else 0))"
    by (intro sum.cong) auto
  also have "\<dots> = (\<Sum>i < n. f i) + d" using assms by (simp add: sum.distrib)
  finally show ?thesis .
qed

text \<open>Within these bounds nothing wraps around.\<close>

lemma alloc_inv_s32:
  assumes "alloc_inv n out0 st out" and "n < 2 ^ 31 - 1" and "p < TOI_ALLOC_PATHS"
  shows "s32 (toi_alloc_count st p + 1) = toi_alloc_count st p + 1" "s32 (toi_free_count st p + 1) = toi_free_count st p + 1"
    "s32 (toi_cur_allocd st p + 1) = toi_cur_allocd st p + 1" "s32 (toi_cur_allocd st p - 1) = toi_cur_allocd st p - 1"
    "s32 (cur_allocd st + 1) = cur_allocd st + 1" "s32 (cur_allocd st - 1) = cur_allocd st - 1"
proof -
  have b: "\<bar>toi_cur_allocd st p\<bar> \<le> n" "0 \<le> toi_alloc_count st p" "toi_alloc_count st p \<le> n" "0 \<le> toi_free_count st p" "toi_free_count st p \<le> n"
    "- n \<le> cur_allocd st" "cur_allocd st \<le> n"
    using assms(1,3) unfolding alloc_inv_def by force+
  show "s32 (toi_alloc_count st p + 1) = toi_alloc_count st p + 1" "s32 (toi_free_count st p + 1) = toi_free_count st p + 1"
    "s32 (toi_cur_allocd st p + 1) = toi_cur_allocd st p + 1" "s32 (toi_cur_allocd st p - 1) = toi_cur_allocd st p - 1"
    "s32 (cur_allocd st + 1) = cur_allocd st + 1" "s32 (cur_allocd st - 1) = cur_allocd st - 1"
    by (rule s32_id; use b assms(2) in linarith)+
qed

lemma alloc_stats_inv:
  assumes "alloc_inv n out0 st out" and "n < 2 ^ 31 - 1" and "p < TOI_ALLOC_PATHS"
  shows "alloc_inv (n + 1) out0 (alloc_update_stats p k st) (if k \<noteq> None then out(p := out p + 1) else out)"
proof (cases k)
  case None
  with alloc_inv_weaken [OF assms(1)] show ?thesis by (simp add: alloc_update_stats_def alloc_inv_def)
next
  case (Some a)
  note s = alloc_inv_s32 [OF assms]
  let ?st1 = "st\<lparr>toi_alloc_count := (toi_alloc_count st)(p := toi_alloc_count st p + 1)\<rparr>"
  let ?cur = "(toi_cur_allocd st)(p := toi_cur_allocd st p + 1)"
  have sum: "(\<Sum>i < TOI_ALLOC_PATHS. ?cur i) = cur_allocd st + 1"
    using sum_upd_path [OF assms(3), of "toi_cur_allocd st" 1] assms(1) by (simp add: fun_upd_def alloc_inv_def)
  have inv1: "alloc_inv (n + 1) out0 ?st1 (out(p := out p + 1))" using assms(1) by (fastforce simp: alloc_inv_def)
  have inv2: "alloc_inv (n + 1) out0 (?st1\<lparr>toi_cur_allocd := ?cur, cur_allocd := cur_allocd st + 1, toi_max_allocd := m,
      max_allocd := x\<rparr>) (out(p := out p + 1))" if "x = (\<Sum>i < TOI_ALLOC_PATHS. m i)" "cur_allocd st + 1 \<le> x" "0 \<le> x" "x \<le> n + 1" for m x
    using assms(1) that sum inv1 unfolding alloc_inv_def by (fastforce simp: abs_le_iff)
  have max: "cur_allocd st \<le> max_allocd st" "max_allocd st \<le> n" "0 \<le> max_allocd st" "max_allocd st = (\<Sum>i < TOI_ALLOC_PATHS. toi_max_allocd st i)"
    using assms(1) by (simp_all add: alloc_inv_def)
  show ?thesis
  proof (cases "TOI_GET_MAX_MEM_ALLOCD \<in> alloc_actions st \<and> max_allocd st < cur_allocd st + 1")
    case True
    have "alloc_update_stats p k st = ?st1\<lparr>toi_cur_allocd := ?cur, cur_allocd := cur_allocd st + 1,
        toi_max_allocd := (\<lambda>i. if i < TOI_ALLOC_PATHS then ?cur i else toi_max_allocd st i), max_allocd := cur_allocd st + 1\<rparr>"
      using True Some s by (simp add: alloc_update_stats_def Let_def cong: if_cong)
    with inv2 [of "cur_allocd st + 1" "\<lambda>i. if i < TOI_ALLOC_PATHS then ?cur i else toi_max_allocd st i"] True max sum Some show ?thesis by simp
  next
    case False
    have "alloc_inv (n + 1) out0 (?st1\<lparr>toi_cur_allocd := ?cur, cur_allocd := cur_allocd st + 1\<rparr>) (out(p := out p + 1))"
      if "cur_allocd st + 1 \<le> max_allocd st"
      using inv2 [OF max(4) that max(3)] max(2) by (simp add: alloc_inv_def)
    with False show ?thesis using inv1 Some s by (auto simp: alloc_update_stats_def Let_def)
  qed
qed

lemma free_stats_inv:
  assumes "alloc_inv n out0 st out" and "n < 2 ^ 31 - 1" and "free_update_stats p st = Some st'"
  shows "alloc_inv (n + 1) out0 st' (out(p := out p - 1))"
proof -
  have p: "p < TOI_ALLOC_PATHS" using assms(3) by (simp add: free_update_stats_def split: if_splits)
  note s = alloc_inv_s32 [OF assms(1,2) p]
  let ?cur = "(toi_cur_allocd st)(p := toi_cur_allocd st p - 1)"
  let ?st1 = "st\<lparr>toi_free_count := (toi_free_count st)(p := toi_free_count st p + 1)\<rparr>"
  have sum: "(\<Sum>i < TOI_ALLOC_PATHS. ?cur i) = cur_allocd st - 1"
    using sum_upd_path [OF p, of "toi_cur_allocd st" "-1", folded diff_conv_add_uminus] assms(1) by (simp add: fun_upd_def alloc_inv_def)
  have inv1: "alloc_inv (n + 1) out0 ?st1 (out(p := out p - 1))" using assms(1) by (fastforce simp: alloc_inv_def)
  have "alloc_inv (n + 1) out0 (?st1\<lparr>cur_allocd := cur_allocd st - 1, toi_cur_allocd := ?cur\<rparr>) (out(p := out p - 1))"
    using assms(1) sum inv1 unfolding alloc_inv_def by (fastforce simp: abs_le_iff)
  with inv1 p s assms(3) show ?thesis by (auto simp: free_update_stats_def Let_def split: if_splits)
qed

definition keeps_counting :: "alloc_event \<Rightarrow> bool" where
  "keeps_counting e \<longleftrightarrow> e \<noteq> Enable False \<and> e \<noteq> Cycle True"

lemma alloc_step_inv:
  assumes "alloc_inv n out0 st out" and "n < 2 ^ 31 - 1" and "keeps_counting e" and "alloc_step e (st, out) = Some (st', out')"
  shows "alloc_inv (n + 1) out0 st' out'"
proof -
  have en: "alloc_enabled st" using assms(1) by (simp add: alloc_inv_def)
  note weak = alloc_inv_weaken [OF assms(1)]
  show ?thesis
  proof (cases e)
    case (Alloc p k)
    then have p: "p < TOI_ALLOC_PATHS" using assms(4) en by (auto simp: toi_kzalloc_def split: if_splits)
    have fail: "alloc_inv (n + 1) out0 s out" if "might_fail p st = Some s" for s
      using that weak by (auto simp: might_fail_def alloc_inv_def split: if_splits)
    show ?thesis
      using Alloc assms(4) en p fail alloc_stats_inv [OF assms(1,2) p, of k]
      by (auto simp: toi_kzalloc_def split: option.splits)
  next
    case (Kfree p a)
    then show ?thesis using assms(4) en weak free_stats_inv [OF assms(1,2)] by (auto simp: toi_kfree_def split: if_splits)
  next
    case (Free_page p a)
    then show ?thesis using assms(4) en free_stats_inv [OF assms(1,2)] by (auto simp: toi__free_page_def)
  next
    case (Cycle b)
    then show ?thesis using assms(3,4) weak by (cases b) (simp_all add: keeps_counting_def toi_alloc_initialise_def)
  next
    case (Enable b)
    then show ?thesis using assms(3,4) weak by (cases b) (auto simp: keeps_counting_def alloc_inv_def)
  next
    case (Find_max b)
    then show ?thesis using assms(4) weak by (auto simp: alloc_inv_def)
  next
    case (Fail_test p)
    then show ?thesis using assms(4) weak by (auto simp: alloc_inv_def)
  qed
qed

lemma alloc_events_inv:
  assumes "alloc_inv n out0 st out" and "n + int (length es) < 2 ^ 31" and "list_all keeps_counting es"
    and "alloc_events es (st, out) = Some (st', out')"
  shows "alloc_inv (n + int (length es)) out0 st' out'"
  using assms
proof (induction es arbitrary: n st out)
  case (Cons e es)
  obtain st1 out1 where s1: "alloc_step e (st, out) = Some (st1, out1)" "alloc_events es (st1, out1) = Some (st', out')"
    using Cons.prems(4) by (auto split: Option.bind_splits)
  have "alloc_inv (n + 1) out0 st1 out1"
    by (rule alloc_step_inv [OF Cons.prems(1) _ _ s1(1)]) (use Cons.prems(2,3) in simp_all)
  from Cons.IH [OF this _ _ s1(2)] Cons.prems(2,3) show ?case by (simp add: algebra_simps)
qed simp

text \<open>
  C25. From the start of a cycle with the accounting switched on, through fewer than \<open>2 ^ 31\<close> allocations, frees
  and changes of the settings that do not switch it off, failures and injected failures included: the current and the maximal
  usage are the sums over the call paths, whenever the search for the maximum was switched on and off, the maximum is
  not below the current value, and \<open>toi_alloc_print_debug_stats\<close> reports exactly the call paths on
  which the number of objects granted and not given back is not what it was at the start.
\<close>

theorem alloc_statistics_invariant:
  assumes "alloc_enabled st0" and "toi_alloc_initialise True st0 = (0, st)" and "alloc_events es (st, out) = Some (st', out')"
    and "list_all keeps_counting es" and "length es < 2 ^ 31"
  shows "cur_allocd st' = (\<Sum>i < TOI_ALLOC_PATHS. toi_cur_allocd st' i) \<and>
    max_allocd st' = (\<Sum>i < TOI_ALLOC_PATHS. toi_max_allocd st' i) \<and> cur_allocd st' \<le> max_allocd st' \<and>
    toi_alloc_print_debug_stats st' = filter (\<lambda>i. out' i \<noteq> out i) [0 ..< TOI_ALLOC_PATHS]"
proof -
  have "alloc_inv 0 out st out" using assms(1,2) by (auto simp: alloc_inv_def toi_alloc_initialise_def Let_def)
  from alloc_events_inv [OF this _ assms(4,3)] assms(5) have inv: "alloc_inv (int (length es)) out st' out'" by simp
  have "filter (\<lambda>i. toi_alloc_count st' i \<noteq> toi_free_count st' i) [0 ..< TOI_ALLOC_PATHS] = filter (\<lambda>i. out' i \<noteq> out i) [0 ..< TOI_ALLOC_PATHS]"
  proof (intro filter_cong refl)
    fix i assume "i \<in> set [0 ..< TOI_ALLOC_PATHS]"
    then have "toi_alloc_count st' i - toi_free_count st' i = out' i - out i" using inv by (simp add: alloc_inv_def)
    then show "toi_alloc_count st' i \<noteq> toi_free_count st' i \<longleftrightarrow> out' i \<noteq> out i" by linarith
  qed
  with inv show ?thesis by (simp add: alloc_inv_def toi_alloc_print_debug_stats_def del: upt_Suc)
qed

text \<open>Path 12 keeps one of two allocations, path 15 had one object from before the cycle and frees it.\<close>

definition demo_alloc :: alloc_state where
  "demo_alloc = \<lparr>toi_fail_num = 0, toi_alloc_count = \<lambda>_. 7, toi_free_count = \<lambda>_. 0, toi_test_count = \<lambda>_. 0,
    toi_fail_count = \<lambda>_. 0, toi_cur_allocd = \<lambda>_. 0, toi_max_allocd = \<lambda>_. 0, cur_allocd = 0, max_allocd = 0,
    alloc_enabled = True, alloc_actions = {TOI_GET_MAX_MEM_ALLOCD}\<rparr>"

theorem alloc_statistics_invariant_witness:
  "\<exists>st st' out'. toi_alloc_initialise True demo_alloc = (0, st) \<and>
     alloc_events [Alloc 12 (Some 5), Alloc 12 (Some 6), Kfree 12 (Some 5), Free_page 15 3] (st, (\<lambda>_. 0)(15 := 1)) = Some (st', out') \<and>
     toi_alloc_print_debug_stats st' = [12, 15] \<and> cur_allocd st' \<le> max_allocd st'"
proof -
  let ?es = "[Alloc 12 (Some 5), Alloc 12 (Some 6), Kfree 12 (Some 5), Free_page 15 3]"
  obtain st where st: "toi_alloc_initialise True demo_alloc = (0, st)" by (simp add: toi_alloc_initialise_def)
  then have en: "alloc_enabled st" "toi_fail_num st = 0" by (auto simp: toi_alloc_initialise_def demo_alloc_def Let_def)
  have k: "alloc_enabled (alloc_update_stats p k s) = alloc_enabled s" "toi_fail_num (alloc_update_stats p k s) = toi_fail_num s" for p k s
    by (simp_all add: alloc_update_stats_def Let_def)
  have "\<exists>st'. alloc_events ?es (st, (\<lambda>_. 0)(15 := 1)) = Some (st', (\<lambda>_. 0)(12 := 1, 15 := 0))"
    using en by (simp add: toi_kzalloc_def toi_kfree_def toi__free_page_def might_fail_def free_update_stats_def Let_def k fun_upd_twist)
  then obtain st' where st': "alloc_events ?es (st, (\<lambda>_. 0)(15 := 1)) = Some (st', (\<lambda>_. 0)(12 := 1, 15 := 0))" by blast
  have "alloc_enabled demo_alloc" "list_all keeps_counting ?es" "length ?es < 2 ^ 31" by (simp_all add: demo_alloc_def keeps_counting_def)
  from alloc_statistics_invariant [OF this(1) st st' this(2,3)] st st' show ?thesis by (auto simp: upt_rec)
qed

end
