(* ===== verification/TOI_Pages.thy ===== *)
theory TOI_Pages
  imports TOI_State
begin

text \<open>
  Which pages go into the image, and into which of its two sets (the first half of
  \<open>tuxonice_prepare_image.c\<close>, with \<open>saveable_page\<close> of \<open>snapshot.c\<close>). Pageset 2 holds pages that
  no one touches while the image is made: they are written first, and then reused for the atomic
  copy of the rest, pageset 1.

  The page flags, which the code keeps in memory bitmaps, are sets of page frame numbers here; the
  bitmap theory shows that the bitmaps behave like sets. What the memory management knows of a
  page, and the lists of zones and tasks, are the fields of \<open>mem\<close>.
\<close>

section \<open>Data\<close>

text \<open>
  A zone with the blocks of its free lists (first page frame and order), the pages on per-cpu
  lists and on the LRU lists.
\<close>

record mem_zone =
  zone_id :: nat
  zone_start :: nat
  zone_spanned :: nat
  zone_highmem :: bool
  free_blocks :: "(nat \<times> nat) list"
  pcp_pages :: "nat list"
  nr_free :: int
  lru_pages :: "nat list"

record vm_area =
  vm_start :: nat
  vm_end :: nat
  vm_special :: bool
  follow_page :: "nat \<Rightarrow> nat option"

text \<open>\<open>active_mm\<close> is \<open>None\<close> for a null pointer.\<close>

record task =
  pid :: nat
  PF_NOFREEZE :: bool
  PF_KTHREAD :: bool
  has_mm :: bool
  active_mm :: "vm_area list option"

record mem =
  zones :: "mem_zone list"
  tasks :: "task list"
  current :: nat
  pfn_valid :: "nat \<Rightarrow> bool"
  page_zone :: "nat \<Rightarrow> nat"
  page_reserved :: "nat \<Rightarrow> bool"
  kernel_page_present :: "nat \<Rightarrow> bool"
  pfn_is_nosave :: "nat \<Rightarrow> bool"
  page_forbidden :: "nat \<Rightarrow> bool"
  page_free :: "nat \<Rightarrow> bool"
  s_atomic_copy :: "nat \<Rightarrow> bool"

record pagedir =
  size :: int
  size_high :: int

record page_state =
  memory :: mem
  ps1_map :: "nat set"
  ps1_copy_map :: "nat set"
  ps2_map :: "nat set"
  resave_map :: "nat set"
  nosave_map :: "nat set"
  free_map :: "nat set"
  pagedir1 :: pagedir
  pagedir2 :: pagedir
  num_nosave :: int
  no_ps2_needed :: bool
  attention_list :: "task list"
  p_actions :: "toi_action_bit set"
  p_results :: "toi_result_bit set"

definition get_lowmem_size :: "pagedir \<Rightarrow> int" where
  "get_lowmem_size d = size d - size_high d"

section \<open>Marking pages of tasks\<close>

definition free_attention_list :: "page_state \<Rightarrow> page_state" where
  "free_attention_list st = st\<lparr>attention_list := []\<rparr>"

text \<open>
  \<open>build_attention_list\<close>: entries are allocated first (\<open>got i\<close> tells whether the \<open>i\<close>th allocation
  succeeds), pushed in front of what the list holds, and then filled in the order of the task list.
\<close>

definition build_attention_list :: "(nat \<Rightarrow> bool) \<Rightarrow> page_state \<Rightarrow> int \<times> page_state" where
  "build_attention_list got st =
     (let ts = filter (\<lambda>p. PF_NOFREEZE p \<or> pid p = current (memory st)) (tasks (memory st))
      in if \<exists>i \<in> set [0 ..< length ts]. \<not> got i then (1, free_attention_list st)
         else (0, st\<lparr>attention_list := ts @ attention_list st\<rparr>))"

definition pageset2_full :: "page_state \<Rightarrow> page_state" where
  "pageset2_full st =
     st\<lparr>ps2_map := ps2_map st \<union>
          {p \<in> set (concat (map lru_pages (zones (memory st)))). \<not> s_atomic_copy (memory st) p}\<rparr>"

text \<open>The pages of an area, at the addresses the loop visits.\<close>

definition vma_pages :: "vm_area \<Rightarrow> nat list" where
  "vma_pages v = List.map_filter (\<lambda>i. follow_page v (vm_start v + i * PAGE_SIZE))
     [0 ..< (vm_end v - vm_start v + (PAGE_SIZE - 1)) div PAGE_SIZE]"

definition mark_page :: "bool \<Rightarrow> page_state \<Rightarrow> nat \<Rightarrow> page_state" where
  "mark_page pageset2 st pfn =
     (if \<not> pfn_valid (memory st) pfn \<or> s_atomic_copy (memory st) pfn then st
      else if pageset2 then st\<lparr>ps2_map := insert pfn (ps2_map st)\<rparr>
      else st\<lparr>ps2_map := ps2_map st - {pfn}, ps1_map := insert pfn (ps1_map st)\<rparr>)"

definition task_pages :: "task \<Rightarrow> nat list" where
  "task_pages t =
     (case active_mm t of
        None \<Rightarrow> []
      | Some vs \<Rightarrow> concat (map (\<lambda>v. if vm_start v = 0 \<or> vm_special v then [] else vma_pages v) vs))"

definition toi_mark_task_as_pageset :: "task \<Rightarrow> bool \<Rightarrow> page_state \<Rightarrow> page_state" where
  "toi_mark_task_as_pageset t pageset2 st = foldl (mark_page pageset2) st (task_pages t)"

definition mark_user_task :: "bool \<Rightarrow> page_state \<Rightarrow> task \<Rightarrow> page_state" where
  "mark_user_task pageset2 st p =
     (if \<not> has_mm p \<or> PF_KTHREAD p then st else toi_mark_task_as_pageset p pageset2 st)"

definition mark_tasks :: "bool \<Rightarrow> page_state \<Rightarrow> page_state" where
  "mark_tasks pageset2 st = foldl (mark_user_task pageset2) st (tasks (memory st))"

definition toi_mark_pages_for_pageset2 :: "page_state \<Rightarrow> page_state" where
  "toi_mark_pages_for_pageset2 st0 =
     (let st = st0\<lparr>ps2_map := {}\<rparr>
      in if TOI_NO_PAGESET2 \<in> p_actions st \<or> no_ps2_needed st then st
         else let st1 = (if TOI_PAGESET2_FULL \<in> p_actions st then pageset2_full st else mark_tasks True st)
              in foldl (\<lambda>st t. if TOI_ABORTED \<in> p_results st then st else toi_mark_task_as_pageset t False st)
                   st1 (attention_list st1))"

section \<open>Free pages\<close>

text \<open>The sum is kept in an \<open>int\<close>.\<close>

definition real_nr_free_pages :: "(mem_zone \<Rightarrow> bool) \<Rightarrow> page_state \<Rightarrow> int" where
  "real_nr_free_pages wanted st =
     s32 (\<Sum>z\<leftarrow>zones (memory st). if wanted z then int (length (pcp_pages z)) + nr_free z else 0)"

definition order_pfns :: "nat \<times> nat \<Rightarrow> nat list" where
  "order_pfns b = [fst b ..< fst b + 2 ^ snd b]"

definition zone_pfn_list :: "mem_zone \<Rightarrow> nat list" where
  "zone_pfn_list z = [zone_start z ..< zone_start z + zone_spanned z]"

definition zone_free_pfns :: "mem_zone \<Rightarrow> nat list" where
  "zone_free_pfns z = concat (map order_pfns (free_blocks z)) @ pcp_pages z"

text \<open>
  The pages that \<open>generate_free_page_map\<close> marks: the first page frame number of a free block is
  kept in an \<open>int\<close>, to which the index of the page in the block is added as an \<open>unsigned long\<close>.
\<close>

definition marked_block :: "nat \<times> nat \<Rightarrow> nat list" where
  "marked_block b = map (\<lambda>j. unat (of_int (s32 (int (fst b))) + of_nat j :: ulong)) [0 ..< 2 ^ snd b]"

definition zone_marked_pfns :: "mem_zone \<Rightarrow> nat list" where
  "zone_marked_pfns z = concat (map marked_block (free_blocks z)) @ pcp_pages z"

definition generate_free_page_map :: "page_state \<Rightarrow> page_state" where
  "generate_free_page_map st =
     foldl (\<lambda>st z. st\<lparr>free_map := (free_map st - set (zone_pfn_list z)) \<union> set (zone_marked_pfns z)\<rparr>)
       st (zones (memory st))"

definition size_of_free_region :: "page_state \<Rightarrow> mem_zone \<Rightarrow> nat \<Rightarrow> nat" where
  "size_of_free_region st z start_pfn =
     length (takeWhile (\<lambda>p. p \<in> free_map st) [start_pfn ..< zone_start z + zone_spanned z])"

section \<open>The page sets\<close>

text \<open>
  \<open>saveable_highmem_page\<close> and \<open>saveable_page\<close>. A page is a highmem page when its zone is, so that
  the \<open>BUG_ON\<close> in them does not fire.
\<close>

definition saveable_highmem_page :: "mem \<Rightarrow> mem_zone \<Rightarrow> nat \<Rightarrow> bool" where
  "saveable_highmem_page m z pfn \<longleftrightarrow> pfn_valid m pfn \<and> page_zone m pfn = zone_id z \<and>
     \<not> (page_forbidden m pfn \<or> page_free m pfn \<or> page_reserved m pfn)"

definition saveable_page :: "mem \<Rightarrow> mem_zone \<Rightarrow> nat \<Rightarrow> bool" where
  "saveable_page m z pfn \<longleftrightarrow> pfn_valid m pfn \<and> page_zone m pfn = zone_id z \<and>
     \<not> (page_forbidden m pfn \<or> page_free m pfn) \<and>
     \<not> (page_reserved m pfn \<and> (\<not> kernel_page_present m pfn \<or> pfn_is_nosave m pfn))"

definition saveable :: "mem \<Rightarrow> mem_zone \<Rightarrow> nat \<Rightarrow> bool" where
  "saveable m z pfn = (if zone_highmem z then saveable_highmem_page m z pfn else saveable_page m z pfn)"

definition inc_size :: "bool \<Rightarrow> pagedir \<Rightarrow> pagedir" where
  "inc_size highmem d = d\<lparr>size := size d + 1, size_high := size_high d + (if highmem then 1 else 0)\<rparr>"

text \<open>The body of the loop of \<open>flag_image_pages\<close> for a page that is valid and not free.\<close>

definition flag_page :: "mem_zone \<Rightarrow> page_state \<Rightarrow> nat \<Rightarrow> page_state" where
  "flag_page z st pfn =
     (if pfn \<in> nosave_map st \<or> \<not> saveable (memory st) z pfn then st\<lparr>num_nosave := num_nosave st + 1\<rparr>
      else if pfn \<in> ps2_map st
      then let st1 = st\<lparr>pagedir2 := inc_size (zone_highmem z) (pagedir2 st)\<rparr>;
               st2 = (if zone_highmem z then st1 else st1\<lparr>ps1_copy_map := insert pfn (ps1_copy_map st1)\<rparr>)
           in if pfn \<in> resave_map st2
              then st2\<lparr>ps1_map := insert pfn (ps1_map st2), ps1_copy_map := ps1_copy_map st2 - {pfn},
                       pagedir1 := inc_size (zone_highmem z) (pagedir1 st2)\<rparr>
              else st2
      else st\<lparr>ps1_map := insert pfn (ps1_map st), pagedir1 := inc_size (zone_highmem z) (pagedir1 st)\<rparr>)"

function flag_zone :: "mem_zone \<Rightarrow> nat \<Rightarrow> int \<Rightarrow> page_state \<Rightarrow> int \<times> page_state" where
  "flag_zone z loop num_free st =
     (if zone_spanned z \<le> loop then (num_free, st)
      else let pfn = zone_start z + loop; chunk_size = size_of_free_region st z pfn
           in if \<not> pfn_valid (memory st) pfn then flag_zone z (loop + 1) num_free st
              else if chunk_size \<noteq> 0 then flag_zone z (loop + chunk_size) (num_free + int chunk_size) st
              else flag_zone z (loop + 1) num_free (flag_page z st pfn))"
  by pat_completeness auto
termination
  by (relation "measure (\<lambda>(z, loop, n, st). zone_spanned z - loop)") auto

declare flag_zone.simps [simp del]

fun flag_zones :: "mem_zone list \<Rightarrow> int \<Rightarrow> page_state \<Rightarrow> int \<times> page_state" where
  "flag_zones [] num_free st = (num_free, st)"
| "flag_zones (z # zs) num_free st = (let (n, st1) = flag_zone z 0 num_free st in flag_zones zs n st1)"

definition flag_image_pages :: "page_state \<Rightarrow> int \<times> page_state" where
  "flag_image_pages st =
     (let st1 = generate_free_page_map
            (st\<lparr>pagedir1 := \<lparr>size = 0, size_high = 0\<rparr>, pagedir2 := \<lparr>size = 0, size_high = 0\<rparr>, num_nosave := 0, ps1_map := {}\<rparr>)
      in flag_zones (zones (memory st1)) 0 st1)"

text \<open>\<open>toi_recalculate_image_contents\<close> without the query of the allocator at its end.\<close>

definition recalculate_contents :: "bool \<Rightarrow> page_state \<Rightarrow> page_state" where
  "recalculate_contents atomic_copy st =
     (let st1 = st\<lparr>ps1_map := {}\<rparr>;
          st2 = (if atomic_copy then st1
                 else toi_mark_pages_for_pageset2 (st1\<lparr>ps1_copy_map := ps1_copy_map st1 - ps2_map st1\<rparr>))
      in snd (flag_image_pages st2))"

section \<open>The pages that hibernation needs\<close>

lemma mark_page_keeps [simp]:
  "memory (mark_page b st p) = memory st" "p_results (mark_page b st p) = p_results st"
  "attention_list (mark_page b st p) = attention_list st" "p_actions (mark_page b st p) = p_actions st"
  "resave_map (mark_page b st p) = resave_map st" "nosave_map (mark_page b st p) = nosave_map st"
  "no_ps2_needed (mark_page b st p) = no_ps2_needed st"
  by (simp_all add: mark_page_def)

lemma mark_pages_keep:
  "memory (foldl (mark_page b) st ps) = memory st" "p_results (foldl (mark_page b) st ps) = p_results st"
  "attention_list (foldl (mark_page b) st ps) = attention_list st"
  by (induction ps arbitrary: st) simp_all

lemma mark_pages_ps2_True:
  "ps2_map (foldl (mark_page True) st ps) = ps2_map st \<union> {p \<in> set ps. pfn_valid (memory st) p \<and> \<not> s_atomic_copy (memory st) p}"
  by (induction ps arbitrary: st) (auto simp: mark_page_def)

lemma mark_pages_ps2_False:
  "ps2_map (foldl (mark_page False) st ps) = ps2_map st - {p \<in> set ps. pfn_valid (memory st) p \<and> \<not> s_atomic_copy (memory st) p}"
  by (induction ps arbitrary: st) (auto simp: mark_page_def)

lemma mark_task_keeps [simp]:
  "memory (toi_mark_task_as_pageset t b st) = memory st" "p_results (toi_mark_task_as_pageset t b st) = p_results st"
  "attention_list (toi_mark_task_as_pageset t b st) = attention_list st"
  by (simp_all add: toi_mark_task_as_pageset_def mark_pages_keep)

lemma mark_tasks_keeps:
  "memory (foldl (mark_user_task b) st ts) = memory st"
  "p_results (foldl (mark_user_task b) st ts) = p_results st"
  "attention_list (foldl (mark_user_task b) st ts) = attention_list st"
  by (induction ts arbitrary: st) (simp_all add: mark_user_task_def)

lemma mark_tasks_simple:
  "ps2_map (foldl (mark_user_task True) st ts) \<subseteq>
     ps2_map st \<union> {p. \<not> s_atomic_copy (memory st) p}"
proof (induction ts arbitrary: st)
  case (Cons t ts)
  let ?st = "mark_user_task True st t"
  have "memory ?st = memory st" "ps2_map ?st \<subseteq> ps2_map st \<union> {p. \<not> s_atomic_copy (memory st) p}"
    by (auto simp: mark_user_task_def toi_mark_task_as_pageset_def mark_pages_ps2_True mark_pages_keep)
  with Cons.IH [of ?st] show ?case unfolding foldl_Cons by auto
qed simp

definition unmark :: "task list \<Rightarrow> page_state \<Rightarrow> page_state" where
  "unmark ts st = foldl (\<lambda>st t. if TOI_ABORTED \<in> p_results st then st else toi_mark_task_as_pageset t False st) st ts"

lemma unmark_ps2:
  assumes "TOI_ABORTED \<notin> p_results st"
  shows "ps2_map (unmark ts st) = ps2_map st -
    {p. pfn_valid (memory st) p \<and> \<not> s_atomic_copy (memory st) p \<and> (\<exists>t \<in> set ts. p \<in> set (task_pages t))}"
  using assms
  by (induction ts arbitrary: st) (auto simp: unmark_def toi_mark_task_as_pageset_def mark_pages_ps2_False mark_pages_keep)

lemma unmark_keeps: "memory (unmark ts st) = memory st"
  by (induction ts arbitrary: st) (simp_all add: unmark_def)

lemma mark_pages_ps2:
  assumes "TOI_ABORTED \<notin> p_results st" and "p \<in> ps2_map (toi_mark_pages_for_pageset2 st)"
  shows "\<not> s_atomic_copy (memory st) p" and "pfn_valid (memory st) p \<Longrightarrow> t \<in> set (attention_list st) \<Longrightarrow> p \<notin> set (task_pages t)"
proof -
  let ?st2 = "st\<lparr>ps2_map := {}\<rparr>"
  define st3 where "st3 = (if TOI_PAGESET2_FULL \<in> p_actions ?st2 then pageset2_full ?st2 else mark_tasks True ?st2)"
  have st3: "memory st3 = memory st" "p_results st3 = p_results st" "attention_list st3 = attention_list st"
    by (simp_all add: st3_def pageset2_full_def mark_tasks_def mark_tasks_keeps)
  have ps2: "ps2_map st3 \<subseteq> {p. \<not> s_atomic_copy (memory st) p}"
    using mark_tasks_simple [of ?st2 "tasks (memory ?st2)"] by (auto simp: st3_def pageset2_full_def mark_tasks_def)
  have "ps2_map (toi_mark_pages_for_pageset2 st) \<subseteq> ps2_map (unmark (attention_list st3) st3)"
    by (simp add: toi_mark_pages_for_pageset2_def Let_def unmark_def st3_def)
  with assms(2) have "p \<in> ps2_map (unmark (attention_list st) st3)" using st3(3) by auto
  then have "p \<in> ps2_map st3" "\<not> (pfn_valid (memory st) p \<and> \<not> s_atomic_copy (memory st) p \<and> (\<exists>t \<in> set (attention_list st). p \<in> set (task_pages t)))"
    using unmark_ps2 [of st3 "attention_list st"] assms(1) st3 by auto
  with ps2 show "\<not> s_atomic_copy (memory st) p" "pfn_valid (memory st) p \<Longrightarrow> t \<in> set (attention_list st) \<Longrightarrow> p \<notin> set (task_pages t)" by auto
qed

section \<open>What recalculating leaves alone\<close>

text \<open>The action and result bits, the memory, the nosave bits and the attention list.\<close>

definition kept :: "page_state \<Rightarrow> page_state \<Rightarrow> bool" where
  "kept a b \<longleftrightarrow> p_actions b = p_actions a \<and> p_results b = p_results a \<and> memory b = memory a \<and> nosave_map b = nosave_map a \<and>
     attention_list b = attention_list a \<and> no_ps2_needed b = no_ps2_needed a"

lemma kept_refl [simp]: "kept a a"
  by (simp add: kept_def)

lemma kept_trans [trans]: "kept a b \<Longrightarrow> kept b c \<Longrightarrow> kept a c"
  by (simp add: kept_def)

lemma kept_foldl: "(\<And>s x. kept s (f s x)) \<Longrightarrow> kept st (foldl f st xs)"
  by (induction xs arbitrary: st) (auto intro: kept_trans)

lemma kept_flag_zone: "kept st (snd (flag_zone z loop n st))"
proof (induction z loop n st rule: flag_zone.induct)
  case (1 z loop n st)
  have page: "kept st (flag_page z st p)" for p by (simp add: flag_page_def kept_def Let_def)
  note unfold = flag_zone.simps [of z loop n st]
  show ?case
  proof (cases "zone_spanned z \<le> loop")
    case False
    note IH = "1.IH" [OF False refl refl]
    show ?thesis
      unfolding unfold using False IH kept_trans [OF page IH(3)] by (simp add: Let_def)
  qed (use unfold in simp)
qed

lemma kept_flag_zones: "kept st (snd (flag_zones zs n st))"
proof (induction zs arbitrary: n st)
  case (Cons z zs)
  show ?case using kept_trans [OF kept_flag_zone [of st z 0 n] Cons.IH] by (simp add: split_beta)
qed simp

lemma kept_mark: "kept st (mark_page b st p)"
  by (simp add: mark_page_def kept_def)

lemma kept_mark_task: "kept st (toi_mark_task_as_pageset t b st)"
  unfolding toi_mark_task_as_pageset_def by (rule kept_foldl) (rule kept_mark)

lemma kept_mark_pages: "kept st (toi_mark_pages_for_pageset2 st)"
proof -
  let ?st = "st\<lparr>ps2_map := {}\<rparr>"
  have "kept st ?st" by (simp add: kept_def)
  also have "kept ?st (if TOI_PAGESET2_FULL \<in> p_actions ?st then pageset2_full ?st else mark_tasks True ?st)" (is "kept _ ?st1")
    by (auto simp: pageset2_full_def mark_tasks_def mark_user_task_def kept_def [of _ "_\<lparr>ps2_map := _\<rparr>"]
        intro!: kept_foldl kept_mark_task)
  also have "kept ?st1 (foldl (\<lambda>st t. if TOI_ABORTED \<in> p_results st then st else toi_mark_task_as_pageset t False st) ?st1 (attention_list ?st1))"
    by (rule kept_foldl) (simp add: kept_mark_task)
  finally show ?thesis by (simp add: toi_mark_pages_for_pageset2_def Let_def kept_def)
qed

lemma kept_flag_image: "kept st (snd (flag_image_pages st))"
proof -
  let ?z = "st\<lparr>pagedir1 := \<lparr>size = 0, size_high = 0\<rparr>, pagedir2 := \<lparr>size = 0, size_high = 0\<rparr>, num_nosave := 0, ps1_map := {}\<rparr>"
  have "kept st ?z" by (simp add: kept_def)
  also have "kept ?z (generate_free_page_map ?z)"
    unfolding generate_free_page_map_def by (rule kept_foldl) (simp add: kept_def)
  also have "kept (generate_free_page_map ?z) (snd (flag_zones (zones (memory (generate_free_page_map ?z))) 0 (generate_free_page_map ?z)))"
    by (rule kept_flag_zones)
  finally show ?thesis by (simp add: flag_image_pages_def Let_def)
qed

lemma kept_recalculate: "kept st (recalculate_contents b st)"
proof -
  let ?st1 = "st\<lparr>ps1_map := {}\<rparr>"
  let ?st2 = "if b then ?st1 else toi_mark_pages_for_pageset2 (?st1\<lparr>ps1_copy_map := ps1_copy_map ?st1 - ps2_map ?st1\<rparr>)"
  have "kept st ?st1" by (simp add: kept_def)
  also have "kept ?st1 ?st2"
    using kept_mark_pages [of "?st1\<lparr>ps1_copy_map := ps1_copy_map ?st1 - ps2_map ?st1\<rparr>"] by (simp add: kept_def)
  also have "kept ?st2 (snd (flag_image_pages ?st2))" by (rule kept_flag_image)
  finally show ?thesis by (simp add: recalculate_contents_def Let_def)
qed

section \<open>Every page is counted once\<close>

lemma flag_page_keeps [simp]:
  "memory (flag_page z st p) = memory st" "free_map (flag_page z st p) = free_map st"
  "ps2_map (flag_page z st p) = ps2_map st" "resave_map (flag_page z st p) = resave_map st"
  "nosave_map (flag_page z st p) = nosave_map st"
  by (simp_all add: flag_page_def Let_def)

text \<open>The loop without the skipping of free regions.\<close>

definition flag_one :: "mem_zone \<Rightarrow> int \<times> page_state \<Rightarrow> nat \<Rightarrow> int \<times> page_state" where
  "flag_one z r p =
     (if \<not> pfn_valid (memory (snd r)) p then r
      else if p \<in> free_map (snd r) then (fst r + 1, snd r)
      else (fst r, flag_page z (snd r) p))"

lemma flag_one_free:
  "\<forall>p \<in> set ps. p \<in> free_map st \<and> pfn_valid (memory st) p \<Longrightarrow> foldl (flag_one z) (n, st) ps = (n + int (length ps), st)"
  by (induction ps arbitrary: n) (simp_all add: flag_one_def)

lemma flag_zone_reference:
  "\<forall>p \<in> set (zone_pfn_list z). p \<in> free_map st \<longrightarrow> pfn_valid (memory st) p \<Longrightarrow>
     flag_zone z loop n st = foldl (flag_one z) (n, st) [zone_start z + loop ..< zone_start z + zone_spanned z]"
proof (induction z loop n st rule: flag_zone.induct)
  case (1 z loop n st)
  let ?p = "zone_start z + loop"
  let ?e = "zone_start z + zone_spanned z"
  let ?k = "size_of_free_region st z ?p"
  note unfold = flag_zone.simps [of z loop n st]
  show ?case
  proof (cases "zone_spanned z \<le> loop")
    case True
    with unfold show ?thesis by simp
  next
    case False
    then have up: "[?p ..< ?e] = ?p # [?p + 1 ..< ?e]" by (simp add: upt_rec)
    show ?thesis
    proof (cases "pfn_valid (memory st) ?p \<and> ?k \<noteq> 0")
      case True
      have "?k \<le> ?e - ?p" unfolding size_of_free_region_def using length_takeWhile_le [of _ "[?p ..< ?e]"] by simp
      then have split: "[?p ..< ?e] = [?p ..< ?p + ?k] @ [?p + ?k ..< ?e]"
        using False upt_add_eq_append [of ?p "?p + ?k" "?e - (?p + ?k)"] by simp
      have "takeWhile (\<lambda>p. p \<in> free_map st) [?p ..< ?e] = take ?k [?p ..< ?e]"
        unfolding size_of_free_region_def by (rule takeWhile_eq_take)
      also have "\<dots> = [?p ..< ?p + ?k]" using \<open>?k \<le> ?e - ?p\<close> False by (intro take_upt) simp
      finally have "takeWhile (\<lambda>p. p \<in> free_map st) [?p ..< ?e] = [?p ..< ?p + ?k]" .
      then have "\<forall>p \<in> set [?p ..< ?p + ?k]. p \<in> free_map st" using set_takeWhileD by metis
      moreover have "set [?p ..< ?p + ?k] \<subseteq> set (zone_pfn_list z)" using \<open>?k \<le> ?e - ?p\<close> False by (auto simp: zone_pfn_list_def)
      ultimately have "foldl (flag_one z) (n, st) [?p ..< ?p + ?k] = (n + int ?k, st)"
        using "1.prems" flag_one_free [of "[?p ..< ?p + ?k]" st z n] by auto
      with split True False unfold "1.IH"(2) [OF False refl refl] "1.prems" show ?thesis by (simp add: add.assoc Let_def)
    next
      case no: False
      have "?p \<notin> free_map st" if "?k = 0"
        using that up by (auto simp: size_of_free_region_def split: if_splits)
      with no False unfold up "1.IH"(1,3) [OF False refl refl] "1.prems" show ?thesis
        by (cases "pfn_valid (memory st) ?p") (simp_all add: Let_def flag_one_def)
    qed
  qed
qed

text \<open>All pages with their zones, and the classes of a page, as the state before the loop has them.\<close>

definition zone_pages :: "mem \<Rightarrow> (mem_zone \<times> nat) list" where
  "zone_pages m = concat (map (\<lambda>z. map (Pair z) (zone_pfn_list z)) (zones m))"

definition counts_free :: "page_state \<Rightarrow> mem_zone \<times> nat \<Rightarrow> bool" where
  "counts_free st zp \<longleftrightarrow> pfn_valid (memory st) (snd zp) \<and> snd zp \<in> free_map st"

definition is_data :: "page_state \<Rightarrow> mem_zone \<times> nat \<Rightarrow> bool" where
  "is_data st zp \<longleftrightarrow> pfn_valid (memory st) (snd zp) \<and> snd zp \<notin> free_map st \<and> snd zp \<notin> nosave_map st \<and>
     saveable (memory st) (fst zp) (snd zp)"

definition in_ps1 :: "page_state \<Rightarrow> mem_zone \<times> nat \<Rightarrow> bool" where
  "in_ps1 st zp \<longleftrightarrow> is_data st zp \<and> (snd zp \<notin> ps2_map st \<or> snd zp \<in> resave_map st)"

definition in_ps2 :: "page_state \<Rightarrow> mem_zone \<times> nat \<Rightarrow> bool" where
  "in_ps2 st zp \<longleftrightarrow> is_data st zp \<and> snd zp \<in> ps2_map st"

abbreviation count :: "('a \<Rightarrow> bool) \<Rightarrow> 'a list \<Rightarrow> int" where
  "count P xs \<equiv> int (length (filter P xs))"

definition flag_pair :: "int \<times> page_state \<Rightarrow> mem_zone \<times> nat \<Rightarrow> int \<times> page_state" where
  "flag_pair r zp = flag_one (fst zp) r (snd zp)"

text \<open>The parts of the state the loop only reads.\<close>

definition same_input :: "page_state \<Rightarrow> page_state \<Rightarrow> bool" where
  "same_input a b \<longleftrightarrow> memory b = memory a \<and> free_map b = free_map a \<and> ps2_map b = ps2_map a \<and>
     resave_map b = resave_map a \<and> nosave_map b = nosave_map a"

lemma same_input_classes:
  assumes "same_input a b"
  shows "counts_free b = counts_free a" "is_data b = is_data a" "in_ps1 b = in_ps1 a" "in_ps2 b = in_ps2 a"
  using assms by (auto simp: same_input_def counts_free_def is_data_def in_ps1_def in_ps2_def fun_eq_iff)

lemma flag_pair_step:
  assumes "flag_pair (n, st) zp = (n', st')"
  shows "same_input st st'" and "ps1_map st' = ps1_map st \<union> (if in_ps1 st zp then {snd zp} else {})"
    and "size (pagedir1 st') = size (pagedir1 st) + (if in_ps1 st zp then 1 else 0)"
    and "size (pagedir2 st') = size (pagedir2 st) + (if in_ps2 st zp then 1 else 0)"
    and "size_high (pagedir1 st') = size_high (pagedir1 st) + (if in_ps1 st zp \<and> zone_highmem (fst zp) then 1 else 0)"
    and "size_high (pagedir2 st') = size_high (pagedir2 st) + (if in_ps2 st zp \<and> zone_highmem (fst zp) then 1 else 0)"
    and "n' + num_nosave st' = n + num_nosave st + (if pfn_valid (memory st) (snd zp) \<and> \<not> is_data st zp then 1 else 0)"
  using assms
  by (auto simp: flag_pair_def flag_one_def flag_page_def inc_size_def Let_def same_input_def is_data_def in_ps1_def in_ps2_def
      split: if_splits)

lemma flag_pairs:
  assumes "foldl flag_pair (n, st) L = (n', st')"
  shows "same_input st st' \<and> ps1_map st' = ps1_map st \<union> snd ` set (filter (in_ps1 st) L) \<and>
    size (pagedir1 st') = size (pagedir1 st) + count (in_ps1 st) L \<and>
    size (pagedir2 st') = size (pagedir2 st) + count (in_ps2 st) L \<and>
    size_high (pagedir1 st') = size_high (pagedir1 st) + count (\<lambda>zp. in_ps1 st zp \<and> zone_highmem (fst zp)) L \<and>
    size_high (pagedir2 st') = size_high (pagedir2 st) + count (\<lambda>zp. in_ps2 st zp \<and> zone_highmem (fst zp)) L \<and>
    n' + num_nosave st' = n + num_nosave st + count (\<lambda>zp. pfn_valid (memory st) (snd zp) \<and> \<not> is_data st zp) L"
  using assms
proof (induction L arbitrary: n st)
  case Nil
  then show ?case by (simp add: same_input_def)
next
  case (Cons zp L)
  obtain n1 st1 where one: "flag_pair (n, st) zp = (n1, st1)" by force
  note step = flag_pair_step [OF one]
  note classes = same_input_classes [OF step(1)]
  have mem: "memory st1 = memory st" using step(1) by (simp add: same_input_def)
  have trans: "same_input st1 st' \<Longrightarrow> same_input st st'" using step(1) by (simp add: same_input_def)
  have "foldl flag_pair (n1, st1) L = (n', st')" using Cons.prems one by simp
  from Cons.IH [OF this, unfolded classes mem] step(2-7) trans show ?case by auto
qed

lemma flag_zones_pairs:
  assumes "\<forall>z \<in> set zs. \<forall>p \<in> set (zone_pfn_list z). p \<in> free_map st \<longrightarrow> pfn_valid (memory st) p"
  shows "flag_zones zs n st = foldl flag_pair (n, st) (concat (map (\<lambda>z. map (Pair z) (zone_pfn_list z)) zs))"
  using assms
proof (induction zs arbitrary: n st)
  case (Cons z zs)
  have fold: "foldl flag_pair r (map (Pair z) ps) = foldl (flag_one z) r ps" for r ps
    by (induction ps arbitrary: r) (simp_all add: flag_pair_def)
  obtain n1 st1 where one: "flag_zone z 0 n st = (n1, st1)" by force
  have ref: "flag_zone z 0 n st = foldl flag_pair (n, st) (map (Pair z) (zone_pfn_list z))"
    using flag_zone_reference [of z st 0 n] Cons.prems by (simp add: fold zone_pfn_list_def)
  then have "same_input st st1" using one flag_pairs [of n st "map (Pair z) (zone_pfn_list z)" n1 st1] by simp
  then have "flag_zones zs n1 st1 = foldl flag_pair (n1, st1) (concat (map (\<lambda>z. map (Pair z) (zone_pfn_list z)) zs))"
    using Cons.prems by (intro Cons.IH) (simp add: same_input_def)
  with one ref show ?case by simp
qed simp

text \<open>
  Zones do not overlap, the free lists of a zone hold valid pages of the zone, and the page frame numbers in
  them are below \<open>2 ^ 31\<close>, so that they fit an \<open>int\<close>.
\<close>

definition wf_zones :: "mem \<Rightarrow> bool" where
  "wf_zones m \<longleftrightarrow> distinct (concat (map zone_pfn_list (zones m))) \<and>
     list_all (\<lambda>z. list_all (\<lambda>p. p \<in> set (zone_pfn_list z) \<and> pfn_valid m p) (zone_free_pfns z)) (zones m) \<and>
     list_all (\<lambda>z. list_all (\<lambda>b. fst b + 2 ^ snd b \<le> 2 ^ 31) (free_blocks z)) (zones m)"

lemma marked_block_small:
  assumes "fst b + 2 ^ snd b \<le> 2 ^ 31"
  shows "marked_block b = order_pfns b"
proof -
  have "0 < (2 :: nat) ^ snd b" by simp
  then have "fst b < 2 ^ 31" using assms by linarith
  then have s: "s32 (int (fst b)) = int (fst b)" by (intro s32_id) simp_all
  have "unat (of_int (s32 (int (fst b))) + of_nat j :: ulong) = fst b + j" if "j < 2 ^ snd b" for j
  proof -
    have "fst b + j < 2 ^ 31" using that assms by linarith
    then have "unat (of_nat (fst b + j) :: ulong) = fst b + j" by (intro of_nat_inverse [OF refl]) simp
    then show ?thesis unfolding s by simp
  qed
  then show ?thesis unfolding marked_block_def order_pfns_def by (intro nth_equalityI) simp_all
qed

lemma wf_zones_marked:
  assumes "wf_zones m" and "z \<in> set (zones m)"
  shows "zone_marked_pfns z = zone_free_pfns z"
proof -
  have "map marked_block (free_blocks z) = map order_pfns (free_blocks z)"
    using assms marked_block_small by (intro map_cong) (auto simp: wf_zones_def list_all_iff)
  then show ?thesis unfolding zone_marked_pfns_def zone_free_pfns_def by (rule arg_cong)
qed

lemma distinct_zone_pages: "wf_zones m \<Longrightarrow> distinct (map snd (zone_pages m))"
  by (simp add: wf_zones_def zone_pages_def map_concat comp_def)

lemma free_map_outside:
  "\<forall>z \<in> set zs. set (zone_marked_pfns z) \<subseteq> set (zone_pfn_list z) \<Longrightarrow> p \<notin> (\<Union>z \<in> set zs. set (zone_pfn_list z)) \<Longrightarrow>
     p \<in> free_map (foldl (\<lambda>st z. st\<lparr>free_map := (free_map st - set (zone_pfn_list z)) \<union> set (zone_marked_pfns z)\<rparr>) st zs) \<longleftrightarrow> p \<in> free_map st"
  by (induction zs arbitrary: st) auto

lemma free_map_inside:
  assumes "distinct (concat (map zone_pfn_list zs))" and "\<forall>z \<in> set zs. set (zone_marked_pfns z) \<subseteq> set (zone_pfn_list z)"
    and "z \<in> set zs" and "p \<in> set (zone_pfn_list z)"
  shows "p \<in> free_map (foldl (\<lambda>st z. st\<lparr>free_map := (free_map st - set (zone_pfn_list z)) \<union> set (zone_marked_pfns z)\<rparr>) st zs) \<longleftrightarrow>
    p \<in> set (zone_marked_pfns z)"
  using assms
proof (induction zs arbitrary: st)
  case (Cons y ys)
  show ?case
  proof (cases "z \<in> set ys")
    case True
    with Cons show ?thesis by simp
  next
    case False
    with Cons.prems(3) have "z = y" by simp
    then have "p \<notin> (\<Union>z \<in> set ys. set (zone_pfn_list z))" using Cons.prems(1,4) by auto
    then have "p \<in> free_map (foldl (\<lambda>st z. st\<lparr>free_map := (free_map st - set (zone_pfn_list z)) \<union> set (zone_marked_pfns z)\<rparr>)
        (st\<lparr>free_map := (free_map st - set (zone_pfn_list y)) \<union> set (zone_marked_pfns y)\<rparr>) ys) \<longleftrightarrow>
        p \<in> (free_map st - set (zone_pfn_list y)) \<union> set (zone_marked_pfns y)"
      using Cons.prems(2) by (subst free_map_outside) simp_all
    with \<open>z = y\<close> Cons.prems(4) show ?thesis by simp
  qed
qed simp

lemma generate_keeps:
  "memory (generate_free_page_map st) = memory st" "ps1_map (generate_free_page_map st) = ps1_map st"
  "ps2_map (generate_free_page_map st) = ps2_map st" "resave_map (generate_free_page_map st) = resave_map st"
  "nosave_map (generate_free_page_map st) = nosave_map st" "pagedir1 (generate_free_page_map st) = pagedir1 st"
  "pagedir2 (generate_free_page_map st) = pagedir2 st" "num_nosave (generate_free_page_map st) = num_nosave st"
proof -
  have "\<exists>f. foldl (\<lambda>st z. st\<lparr>free_map := (free_map st - set (zone_pfn_list z)) \<union> set (zone_marked_pfns z)\<rparr>) st zs = st\<lparr>free_map := f\<rparr>" for zs
  proof (induction zs arbitrary: st)
    case Nil
    then show ?case by (intro exI [of _ "free_map st"]) simp
  next
    case (Cons z zs)
    from Cons [of "st\<lparr>free_map := (free_map st - set (zone_pfn_list z)) \<union> set (zone_marked_pfns z)\<rparr>"] show ?case by simp
  qed
  from this [of "zones (memory st)"] obtain f where f: "generate_free_page_map st = st\<lparr>free_map := f\<rparr>"
    unfolding generate_free_page_map_def by blast
  show "memory (generate_free_page_map st) = memory st" "ps1_map (generate_free_page_map st) = ps1_map st"
    "ps2_map (generate_free_page_map st) = ps2_map st" "resave_map (generate_free_page_map st) = resave_map st"
    "nosave_map (generate_free_page_map st) = nosave_map st" "pagedir1 (generate_free_page_map st) = pagedir1 st"
    "pagedir2 (generate_free_page_map st) = pagedir2 st" "num_nosave (generate_free_page_map st) = num_nosave st"
    unfolding f by simp_all
qed

text \<open>A page whose contents must be in the image: valid, in use, and not excluded.\<close>

definition data_page :: "page_state \<Rightarrow> mem_zone \<times> nat \<Rightarrow> bool" where
  "data_page st zp \<longleftrightarrow> pfn_valid (memory st) (snd zp) \<and> snd zp \<notin> set (zone_free_pfns (fst zp)) \<and>
     snd zp \<notin> nosave_map st \<and> saveable (memory st) (fst zp) (snd zp)"

lemma flag_image_pages_run:
  assumes "wf_zones (memory st)" and "flag_image_pages st = (num_free, st')"
  shows "\<exists>st1. foldl flag_pair (0, st1) (zone_pages (memory st)) = (num_free, st') \<and> memory st1 = memory st \<and>
    ps1_map st1 = {} \<and> ps2_map st1 = ps2_map st \<and> resave_map st1 = resave_map st \<and> size (pagedir1 st1) = 0 \<and>
    size (pagedir2 st1) = 0 \<and> size_high (pagedir1 st1) = 0 \<and> size_high (pagedir2 st1) = 0 \<and> num_nosave st1 = 0 \<and>
    (\<forall>zp \<in> set (zone_pages (memory st)). is_data st1 zp = data_page st zp)"
proof -
  let ?z = "st\<lparr>pagedir1 := \<lparr>size = 0, size_high = 0\<rparr>, pagedir2 := \<lparr>size = 0, size_high = 0\<rparr>, num_nosave := 0, ps1_map := {}\<rparr>"
  let ?st1 = "generate_free_page_map ?z"
  have sub: "\<forall>z \<in> set (zones (memory st)). set (zone_free_pfns z) \<subseteq> set (zone_pfn_list z)"
    and valid: "\<forall>z \<in> set (zones (memory st)). \<forall>p \<in> set (zone_free_pfns z). pfn_valid (memory st) p"
    and dist: "distinct (concat (map zone_pfn_list (zones (memory st))))"
    using assms(1) by (auto simp: wf_zones_def list_all_iff)
  have sub': "\<forall>z \<in> set (zones (memory st)). set (zone_marked_pfns z) \<subseteq> set (zone_pfn_list z)" using sub wf_zones_marked [OF assms(1)] by simp
  have free: "p \<in> free_map ?st1 \<longleftrightarrow> p \<in> set (zone_free_pfns z)" if "z \<in> set (zones (memory st))" "p \<in> set (zone_pfn_list z)" for z p
    unfolding generate_free_page_map_def using free_map_inside [OF dist sub' that] wf_zones_marked [OF assms(1) that(1)] by simp
  have "flag_image_pages st = flag_zones (zones (memory st)) 0 ?st1"
    by (simp add: flag_image_pages_def generate_keeps Let_def)
  also have "\<dots> = foldl flag_pair (0, ?st1) (zone_pages (memory st))"
    unfolding zone_pages_def by (rule flag_zones_pairs) (use free valid in \<open>auto simp: generate_keeps\<close>)
  finally have "foldl flag_pair (0, ?st1) (zone_pages (memory st)) = (num_free, st')" using assms(2) by simp
  moreover have "is_data ?st1 zp = data_page st zp" if "zp \<in> set (zone_pages (memory st))" for zp
    using that free [of "fst zp" "snd zp"] by (auto simp: zone_pages_def is_data_def data_page_def generate_keeps)
  ultimately show ?thesis by (intro exI [of _ ?st1]) (simp add: generate_keeps)
qed

lemma flag_image_ps2: "ps2_map (snd (flag_image_pages st)) = ps2_map st"
proof -
  have zone: "ps2_map (snd (flag_zone z loop n s)) = ps2_map s" for z loop n s
    by (induction z loop n s rule: flag_zone.induct) (subst flag_zone.simps, simp add: Let_def)
  have "ps2_map (snd (flag_zones zs n s)) = ps2_map s" for zs n s
    by (induction zs arbitrary: n s) (simp_all add: split_beta zone)
  then show ?thesis by (simp add: flag_image_pages_def Let_def generate_keeps)
qed

lemma count_cong: "(\<And>x. x \<in> set xs \<Longrightarrow> P x = Q x) \<Longrightarrow> count P xs = count Q xs"
  by (metis filter_cong)

lemma count_split: "count P xs + count (\<lambda>x. Q x \<and> \<not> P x) xs = count Q xs" if "\<forall>x. P x \<longrightarrow> Q x"
  using that by (induction xs) auto

lemma flag_image_pages_spec:
  assumes "wf_zones (memory st)" and "flag_image_pages st = (num_free, st')"
  shows "ps1_map st' = snd ` set (filter (\<lambda>zp. data_page st zp \<and> (snd zp \<notin> ps2_map st \<or> snd zp \<in> resave_map st)) (zone_pages (memory st))) \<and>
    size (pagedir1 st') = int (card (ps1_map st')) \<and>
    size_high (pagedir1 st') = count (\<lambda>zp. snd zp \<in> ps1_map st' \<and> zone_highmem (fst zp)) (zone_pages (memory st)) \<and>
    size (pagedir2 st') = count (\<lambda>zp. data_page st zp \<and> snd zp \<in> ps2_map st) (zone_pages (memory st)) \<and>
    size_high (pagedir2 st') = count (\<lambda>zp. data_page st zp \<and> snd zp \<in> ps2_map st \<and> zone_highmem (fst zp)) (zone_pages (memory st)) \<and>
    num_free + num_nosave st' + count (data_page st) (zone_pages (memory st)) =
      count (\<lambda>zp. pfn_valid (memory st) (snd zp)) (zone_pages (memory st))"
proof -
  let ?L = "zone_pages (memory st)"
  let ?one = "\<lambda>zp. data_page st zp \<and> (snd zp \<notin> ps2_map st \<or> snd zp \<in> resave_map st)"
  obtain st1 where st1: "foldl flag_pair (0, st1) ?L = (num_free, st')" "memory st1 = memory st" "ps1_map st1 = {}"
    "ps2_map st1 = ps2_map st" "resave_map st1 = resave_map st" "size (pagedir1 st1) = 0" "size (pagedir2 st1) = 0"
    "size_high (pagedir1 st1) = 0" "size_high (pagedir2 st1) = 0" "num_nosave st1 = 0"
    and data: "\<forall>zp \<in> set ?L. is_data st1 zp = data_page st zp"
    using flag_image_pages_run [OF assms] by blast
  note run = flag_pairs [OF st1(1)]
  have f1: "filter (in_ps1 st1) ?L = filter ?one ?L" using data st1(4,5) by (intro filter_cong) (simp_all add: in_ps1_def)
  have f2: "count (in_ps2 st1) ?L = count (\<lambda>zp. data_page st zp \<and> snd zp \<in> ps2_map st) ?L"
    using data st1(4) by (intro count_cong) (simp add: in_ps2_def)
  have f3: "count (\<lambda>zp. in_ps2 st1 zp \<and> zone_highmem (fst zp)) ?L = count (\<lambda>zp. data_page st zp \<and> snd zp \<in> ps2_map st \<and> zone_highmem (fst zp)) ?L"
    using data st1(4) by (intro count_cong) (auto simp: in_ps2_def)
  have ps1: "ps1_map st' = snd ` set (filter ?one ?L)" using run st1(3) f1 by simp
  have dist: "distinct (map snd ?L)" by (rule distinct_zone_pages [OF assms(1)])
  then have inj: "inj_on snd (set ?L)" and dl: "distinct ?L" by (simp_all add: distinct_map)
  have card: "int (card (ps1_map st')) = count ?one ?L"
    using inj dl distinct_card [of "filter ?one ?L"] by (simp add: ps1 card_image inj_on_subset)
  have high: "count (\<lambda>zp. in_ps1 st1 zp \<and> zone_highmem (fst zp)) ?L = count (\<lambda>zp. snd zp \<in> ps1_map st' \<and> zone_highmem (fst zp)) ?L"
  proof (rule count_cong)
    fix zp assume zp: "zp \<in> set ?L"
    have "in_ps1 st1 zp \<longleftrightarrow> zp \<in> set (filter (in_ps1 st1) ?L)" using zp by simp
    also have "\<dots> \<longleftrightarrow> snd zp \<in> ps1_map st'"
      unfolding f1 ps1 using inj zp by (auto simp: inj_on_def)
    finally show "(in_ps1 st1 zp \<and> zone_highmem (fst zp)) = (snd zp \<in> ps1_map st' \<and> zone_highmem (fst zp))" by simp
  qed
  have nos: "count (\<lambda>zp. pfn_valid (memory st) (snd zp) \<and> \<not> is_data st1 zp) ?L = count (\<lambda>zp. pfn_valid (memory st) (snd zp) \<and> \<not> data_page st zp) ?L"
    using data by (intro count_cong) simp
  have all: "count (data_page st) ?L + count (\<lambda>zp. pfn_valid (memory st) (snd zp) \<and> \<not> data_page st zp) ?L =
      count (\<lambda>zp. pfn_valid (memory st) (snd zp)) ?L"
    by (rule count_split) (simp add: data_page_def)
  show ?thesis
    using run ps1 card f1 f2 f3 high nos all st1 by simp
qed

text \<open>
  C4. On zones that do not overlap, with free lists that hold valid pages of their zones and page frame
  numbers below \<open>2 ^ 31\<close> (\<open>generate_free_page_map\<close> keeps them in an \<open>int\<close>), \<open>flag_image_pages\<close> puts
  every page whose contents must be saved into pageset 1 unless it is a pageset 2 page that need not
  be resaved, so that no such page is missing from the image; it puts nothing else there. The sizes
  it records are the numbers of pages of the two sets, in all memory and in highmem, and the pages it
  counted as free, not saved and saved are all valid pages, each once, whatever free regions the
  loop skipped.
\<close>

theorem flag_image_pages_classifies:
  assumes "wf_zones (memory st)" and "flag_image_pages st = (num_free, st')"
  shows "ps1_map st' = snd ` set (filter (\<lambda>zp. data_page st zp \<and> (snd zp \<notin> ps2_map st \<or> snd zp \<in> resave_map st)) (zone_pages (memory st))) \<and>
    size (pagedir1 st') = int (card (ps1_map st')) \<and>
    size_high (pagedir1 st') = count (\<lambda>zp. snd zp \<in> ps1_map st' \<and> zone_highmem (fst zp)) (zone_pages (memory st)) \<and>
    size (pagedir2 st') = count (\<lambda>zp. data_page st zp \<and> snd zp \<in> ps2_map st) (zone_pages (memory st)) \<and>
    size_high (pagedir2 st') = count (\<lambda>zp. data_page st zp \<and> snd zp \<in> ps2_map st \<and> zone_highmem (fst zp)) (zone_pages (memory st)) \<and>
    num_free + num_nosave st' + count (data_page st) (zone_pages (memory st)) =
      count (\<lambda>zp. pfn_valid (memory st) (snd zp)) (zone_pages (memory st))"
  by (rule flag_image_pages_spec [OF assms])

text \<open>
  A page that must not change behind the back of the code: it belongs to a task hibernation relies on (one that is
  not frozen, or the current one), or to an inode that asked for an atomic copy.
\<close>

definition needs_copy :: "mem \<Rightarrow> nat \<Rightarrow> bool" where
  "needs_copy m p \<longleftrightarrow> (\<exists>t \<in> set (tasks m). (PF_NOFREEZE t \<or> pid t = current m) \<and> p \<in> set (task_pages t)) \<or> s_atomic_copy m p"


text \<open>An example: page 3 is shared by the task that hibernates and another one.\<close>

definition demo_task :: "nat \<Rightarrow> bool \<Rightarrow> (nat \<Rightarrow> nat option) \<Rightarrow> task" where
  "demo_task n nofreeze pages = \<lparr>pid = n, PF_NOFREEZE = nofreeze, PF_KTHREAD = False, has_mm = True,
     active_mm = Some [\<lparr>vm_start = 4096, vm_end = 12288, vm_special = False, follow_page = pages\<rparr>]\<rparr>"

definition demo_mem :: mem where
  "demo_mem = \<lparr>zones = [\<lparr>zone_id = 0, zone_start = 0, zone_spanned = 8, zone_highmem = False, free_blocks = [(4, 1)],
       pcp_pages = [6], nr_free = 2, lru_pages = [2, 3]\<rparr>],
     tasks = [demo_task 1 False [4096 \<mapsto> 2, 8192 \<mapsto> 3], demo_task 2 True [4096 \<mapsto> 3]], current = 2,
     pfn_valid = \<lambda>p. p \<noteq> 1 \<and> p < 8, page_zone = \<lambda>_. 0, page_reserved = \<lambda>p. p = 0, kernel_page_present = \<lambda>p. p \<noteq> 0,
     pfn_is_nosave = \<lambda>_. False, page_forbidden = \<lambda>_. False, page_free = \<lambda>_. False, s_atomic_copy = \<lambda>_. False\<rparr>"

definition demo_pages :: page_state where
  "demo_pages = \<lparr>memory = demo_mem, ps1_map = {}, ps1_copy_map = {}, ps2_map = {2}, resave_map = {}, nosave_map = {}, free_map = {},
     pagedir1 = \<lparr>size = 0, size_high = 0\<rparr>, pagedir2 = \<lparr>size = 0, size_high = 0\<rparr>, num_nosave = 0, no_ps2_needed = False,
     attention_list = [], p_actions = {}, p_results = {}\<rparr>"

lemma wf_demo_mem: "wf_zones demo_mem"
  by (auto simp: wf_zones_def demo_mem_def zone_pfn_list_def zone_free_pfns_def order_pfns_def list_all_iff)

lemma demo_zone_pages: "zone_pages (memory demo_pages) = map (Pair (hd (zones demo_mem))) [0, 1, 2, 3, 4, 5, 6, 7]"
  by (simp add: demo_pages_def demo_mem_def zone_pages_def zone_pfn_list_def upt_rec)

lemma demo_data_page: "data_page demo_pages (hd (zones demo_mem), p) = (p \<noteq> 0 \<and> p \<noteq> 1 \<and> p < 8 \<and> p \<notin> {4, 5, 6})"
  by (auto simp: data_page_def demo_pages_def demo_mem_def zone_free_pfns_def order_pfns_def saveable_def saveable_page_def)


theorem flag_image_pages_classifies_witness:
  "\<exists>n st'. flag_image_pages demo_pages = (n, st') \<and> ps1_map st' = {3, 7} \<and> size (pagedir2 st') = 1 \<and> size_high (pagedir2 st') = 0"
proof -
  obtain n st' where run: "flag_image_pages demo_pages = (n, st')" by force
  have wf: "wf_zones (memory demo_pages)" using wf_demo_mem by (simp add: demo_pages_def)
  have sets: "ps2_map demo_pages = {2}" "resave_map demo_pages = {}" by (simp_all add: demo_pages_def)
  have low: "\<not> zone_highmem (hd (zones demo_mem))" by (simp add: demo_mem_def)
  from flag_image_pages_classifies [OF wf run] run show ?thesis
    unfolding demo_zone_pages sets by (simp add: demo_data_page low)
qed

end
