(* ===== verification/TOI_Modules.thy ===== *)
theory TOI_Modules
  imports TOI_State "HOL-Library.Multiset"
begin

text \<open>
  The module registry (\<open>tuxonice_modules.c\<close>): registration, the filter pipeline, initialising
  and cleaning up the modules of a cycle, and the resources they ask for.

  A module is known by its address. Function pointers of a module are fields whose value is the
  function, on the state \<open>'w\<close> the modules work on, or \<open>None\<close> for a null pointer. The outcome of
  the sysfs calls and of \<open>try_module_get\<close> is an argument.
\<close>

section \<open>Data\<close>

abbreviation (input) FILTER_MODULE :: int where "FILTER_MODULE \<equiv> 0"
abbreviation (input) WRITER_MODULE :: int where "WRITER_MODULE \<equiv> 1"
abbreviation (input) MISC_MODULE :: int where "MISC_MODULE \<equiv> 2"
abbreviation (input) MISC_HIDDEN_MODULE :: int where "MISC_HIDDEN_MODULE \<equiv> 3"

text \<open>\<open>sizeof(struct toi_module_header)\<close>: 30 bytes of name, padding, four \<open>int\<close>, one \<open>long\<close>.\<close>

abbreviation (input) SIZEOF_MODULE_HEADER :: int where "SIZEOF_MODULE_HEADER \<equiv> 56"

record 'w toi_module_ops =
  mtype :: int
  mname :: string
  directory :: "string option"
  shared_directory :: "string option"
  dir_kobj :: "nat option"
  kmodule :: nat
  enabled :: bool
  early :: bool
  initialised :: bool
  memory_needed :: "('w \<Rightarrow> int) option"
  storage_needed :: "('w \<Rightarrow> int) option"
  m_header_requested :: int
  m_header_used :: int
  expected_compression :: "('w \<Rightarrow> int) option"
  save_config_info :: "('w \<Rightarrow> byte list) option"
  load_config_info :: "(byte list \<Rightarrow> 'w \<Rightarrow> 'w) option"
  initialise :: "(bool \<Rightarrow> 'w \<Rightarrow> int \<times> 'w) option"
  cleanup :: "(bool \<Rightarrow> 'w \<Rightarrow> 'w) option"
  sysfs_data :: bool
  num_sysfs_entries :: nat

record 'w mod_state =
  mods :: "nat \<Rightarrow> 'w toi_module_ops"
  toi_modules :: "nat list"
  toi_filters :: "nat list"
  toiAllocators :: "nat list"
  toi_num_filters :: int
  toiNumAllocators :: int
  toi_num_modules :: int
  toiActiveAllocator :: "nat option"
  toi_state :: "toi_state_bit set"
  sysfs_files :: "(nat \<times> nat \<times> nat) list"
  mod_refs :: "nat \<Rightarrow> int"
  world :: 'w

definition upd_mod :: "nat \<Rightarrow> ('w toi_module_ops \<Rightarrow> 'w toi_module_ops) \<Rightarrow> 'w mod_state \<Rightarrow> 'w mod_state" where
  "upd_mod a f st = st\<lparr>mods := (mods st)(a := f (mods st a))\<rparr>"

section \<open>What the modules ask for\<close>

definition counted_for_header :: "'w mod_state \<Rightarrow> nat \<Rightarrow> bool" where
  "counted_for_header st a \<longleftrightarrow> enabled (mods st a) \<and>
     \<not> (mtype (mods st a) = WRITER_MODULE \<and> toiActiveAllocator st \<noteq> Some a)"

fun header_storage_loop :: "nat list \<Rightarrow> int \<Rightarrow> 'w mod_state \<Rightarrow> int \<times> 'w mod_state" where
  "header_storage_loop [] bytes st = (bytes, st)"
| "header_storage_loop (a # as) bytes st =
     (if \<not> counted_for_header st a then header_storage_loop as bytes st
      else case storage_needed (mods st a) of
             None \<Rightarrow> header_storage_loop as bytes st
           | Some f \<Rightarrow>
               let this = s32 (f (world st) + SIZEOF_MODULE_HEADER + int SIZEOF_INT)
               in header_storage_loop as (s32 (bytes + this)) (upd_mod a (\<lambda>m. m\<lparr>m_header_requested := this\<rparr>) st))"

definition toi_header_storage_for_modules :: "'w mod_state \<Rightarrow> int \<times> 'w mod_state" where
  "toi_header_storage_for_modules st =
     (let (bytes, st1) = header_storage_loop (toi_modules st) 0 st in (bytes + SIZEOF_MODULE_HEADER, st1))"

text \<open>\<open>DIV_ROUND_UP\<close> of a \<open>long\<close>; C division truncates towards zero.\<close>

definition c_div :: "int \<Rightarrow> int \<Rightarrow> int" where
  "c_div a b = (if 0 \<le> a then a div b else - ((- a) div b))"

definition toi_memory_for_modules :: "'w mod_state \<Rightarrow> int" where
  "toi_memory_for_modules st =
     (let bytes = (\<Sum>a\<leftarrow>toi_modules st.
        if enabled (mods st a) then (case memory_needed (mods st a) of None \<Rightarrow> 0 | Some f \<Rightarrow> f (world st)) else 0)
      in c_div (bytes + int PAGE_SIZE - 1) (int PAGE_SIZE))"

definition toi_expected_compression_ratio :: "'w mod_state \<Rightarrow> int" where
  "toi_expected_compression_ratio st =
     fold (\<lambda>a ratio. if enabled (mods st a)
                     then (case expected_compression (mods st a) of
                             None \<Rightarrow> ratio | Some f \<Rightarrow> c_div (ratio * f (world st)) 100)
                     else ratio) (toi_modules st) 100"

section \<open>Finding modules\<close>

text \<open>\<open>strcmp\<close> with the null directory of a module faults: \<open>None\<close>.\<close>

fun find_dir :: "'w mod_state \<Rightarrow> string \<Rightarrow> nat list \<Rightarrow> nat option option" where
  "find_dir st name [] = Some None"
| "find_dir st name (a # as) =
     (case directory (mods st a) of
        None \<Rightarrow> None
      | Some d \<Rightarrow> if name = d then Some (Some a) else find_dir st name as)"

definition toi_find_module_given_dir :: "'w mod_state \<Rightarrow> string \<Rightarrow> nat option option" where
  "toi_find_module_given_dir st name = find_dir st name (toi_modules st)"

definition toi_find_module_given_name :: "'w mod_state \<Rightarrow> string \<Rightarrow> nat option" where
  "toi_find_module_given_name st name = find (\<lambda>a. name = mname (mods st a)) (toi_modules st)"

section \<open>Registering\<close>

definition toi_unregister_module :: "nat \<Rightarrow> 'w mod_state \<Rightarrow> 'w mod_state" where
  "toi_unregister_module a st =
     (let m = mods st a;
          st1 = (case dir_kobj m of
                   None \<Rightarrow> st
                 | Some k \<Rightarrow> st\<lparr>sysfs_files := filter (\<lambda>(k', a', i). \<not> (k' = k \<and> a' = a \<and> i < num_sysfs_entries m)) (sysfs_files st)\<rparr>);
          gone = (\<lambda>s. s\<lparr>toi_modules := remove1 a (toi_modules s), toi_num_modules := toi_num_modules s - 1\<rparr>)
      in if mtype m = FILTER_MODULE
         then gone (st1\<lparr>toi_filters := remove1 a (toi_filters st1), toi_num_filters := toi_num_filters st1 - 1\<rparr>)
         else if mtype m = WRITER_MODULE
         then let st2 = st1\<lparr>toiAllocators := remove1 a (toiAllocators st1), toiNumAllocators := toiNumAllocators st1 - 1\<rparr>
              in gone (if toiActiveAllocator st2 = Some a
                       then st2\<lparr>toiActiveAllocator := None, toi_state := toi_state st2 - {TOI_CAN_RESUME, TOI_CAN_HIBERNATE}\<rparr>
                       else st2)
         else if mtype m = MISC_MODULE \<or> mtype m = MISC_HIDDEN_MODULE then gone st1
         else st1)"

text \<open>
  \<open>toi_register_sysfs_file\<close> for the entries of a module, until one fails; \<open>reg k a i\<close> is its
  result.
\<close>

fun register_files :: "(nat \<Rightarrow> nat \<Rightarrow> nat \<Rightarrow> int) \<Rightarrow> nat \<Rightarrow> nat \<Rightarrow> nat list \<Rightarrow> 'w mod_state \<Rightarrow> int \<times> 'w mod_state" where
  "register_files reg k a [] st = (0, st)"
| "register_files reg k a (i # is) st =
     (if reg k a i \<noteq> 0 then (reg k a i, st)
      else register_files reg k a is (st\<lparr>sysfs_files := sysfs_files st @ [(k, a, i)]\<rparr>))"

definition add_to_lists :: "nat \<Rightarrow> 'w mod_state \<Rightarrow> 'w mod_state option" where
  "add_to_lists a st =
     (let m = mods st a;
          known = (\<lambda>s. s\<lparr>toi_modules := toi_modules s @ [a], toi_num_modules := toi_num_modules s + 1\<rparr>)
      in if mtype m = FILTER_MODULE
         then Some (known (st\<lparr>toi_filters := toi_filters st @ [a], toi_num_filters := toi_num_filters st + 1\<rparr>))
         else if mtype m = WRITER_MODULE
         then Some (known (st\<lparr>toiAllocators := toiAllocators st @ [a], toiNumAllocators := toiNumAllocators st + 1\<rparr>))
         else if mtype m = MISC_MODULE \<or> mtype m = MISC_HIDDEN_MODULE then Some (known st)
         else None)"

text \<open>
  \<open>toi_register_module\<close>; \<open>mkdir\<close> is \<open>make_toi_sysdir\<close>, which may fail, and \<open>root\<close> the object of
  \<open>tuxonice_kobj\<close>, both \<open>None\<close> for a null pointer: it is not tested, and \<open>sysfs_create_file\<close> stops with a
  \<open>BUG\<close>. The module is already in the list when a directory to share is looked up.
\<close>

definition toi_register_module ::
    "(string \<Rightarrow> nat option) \<Rightarrow> nat option \<Rightarrow> (nat \<Rightarrow> nat \<Rightarrow> nat \<Rightarrow> int) \<Rightarrow> nat \<Rightarrow> 'w mod_state \<Rightarrow> (int \<times> 'w mod_state) option" where
  "toi_register_module mkdir root reg a st0 =
     (let st = upd_mod a (\<lambda>m. m\<lparr>enabled := True\<rparr>) st0; m = mods st a
      in if toi_find_module_given_name st (mname m) \<noteq> None then Some (- EBUSY, st)
         else case add_to_lists a st of
           None \<Rightarrow> Some (- EINVAL, st)
         | Some st1 \<Rightarrow>
             if directory m = None \<and> shared_directory m = None \<or> \<not> sysfs_data m \<or> num_sysfs_entries m = 0
             then Some (0, st1)
             else do {
               kobj \<leftarrow> (case shared_directory m of
                         Some d \<Rightarrow>
                           map_option (map_option (\<lambda>shared. dir_kobj (mods st1 shared))) (toi_find_module_given_dir st1 d)
                       | None \<Rightarrow>
                           (case directory m of
                              None \<Rightarrow> None
                            | Some d \<Rightarrow> Some (Some (if take 6 d = ''[ROOT]'' then root else mkdir d))));
               case kobj of
                 None \<Rightarrow> Some (- ENODEV, toi_unregister_module a st1)
               | Some None \<Rightarrow> None
               | Some (Some k) \<Rightarrow>
                   Some (register_files reg k a [0 ..< num_sysfs_entries m] (upd_mod a (\<lambda>m. m\<lparr>dir_kobj := Some k\<rparr>) st1))
             })"

definition list_move_tail :: "nat \<Rightarrow> nat list \<Rightarrow> nat list" where
  "list_move_tail a xs = remove1 a xs @ [a]"

definition toi_move_module_tail :: "nat \<Rightarrow> 'w mod_state \<Rightarrow> 'w mod_state" where
  "toi_move_module_tail a st =
     (let last_of_all = (\<lambda>s. if 1 < toi_num_filters s + toiNumAllocators s
                            then s\<lparr>toi_modules := list_move_tail a (toi_modules s)\<rparr> else s)
      in if mtype (mods st a) = FILTER_MODULE
         then last_of_all (if 1 < toi_num_filters st then st\<lparr>toi_filters := list_move_tail a (toi_filters st)\<rparr> else st)
         else if mtype (mods st a) = WRITER_MODULE
         then last_of_all (if 1 < toiNumAllocators st then st\<lparr>toiAllocators := list_move_tail a (toiAllocators st)\<rparr> else st)
         else if mtype (mods st a) = MISC_MODULE \<or> mtype (mods st a) = MISC_HIDDEN_MODULE then last_of_all st
         else st)"

section \<open>Initialising and cleaning up\<close>

fun cleanup_loop :: "bool \<Rightarrow> nat list \<Rightarrow> 'w mod_state \<Rightarrow> 'w mod_state" where
  "cleanup_loop finishing [] st = st"
| "cleanup_loop finishing (a # as) st =
     (if \<not> enabled (mods st a) \<or> \<not> initialised (mods st a) then cleanup_loop finishing as st
      else let st1 = (case cleanup (mods st a) of
                        None \<Rightarrow> st | Some f \<Rightarrow> st\<lparr>world := f finishing (world st)\<rparr>)
           in cleanup_loop finishing as (upd_mod a (\<lambda>m. m\<lparr>initialised := False\<rparr>) st1))"

definition toi_cleanup_modules :: "bool \<Rightarrow> 'w mod_state \<Rightarrow> 'w mod_state" where
  "toi_cleanup_modules finishing st = cleanup_loop finishing (toi_modules st) st"

fun initialise_loop :: "bool \<Rightarrow> bool \<Rightarrow> nat list \<Rightarrow> 'w mod_state \<Rightarrow> int \<times> 'w mod_state" where
  "initialise_loop starting is_early [] st = (0, st)"
| "initialise_loop starting is_early (a # as) st =
     (let st1 = upd_mod a (\<lambda>m. m\<lparr>m_header_requested := 0, m_header_used := 0\<rparr>) st
      in if \<not> enabled (mods st1 a) \<or> early (mods st1 a) \<noteq> is_early then initialise_loop starting is_early as st1
         else case initialise (mods st1 a) of
                None \<Rightarrow> initialise_loop starting is_early as st1
              | Some f \<Rightarrow>
                  let (result, w) = f starting (world st1); st2 = st1\<lparr>world := w\<rparr>
                  in if result \<noteq> 0 then (result, toi_cleanup_modules starting st2)
                     else initialise_loop starting is_early as (upd_mod a (\<lambda>m. m\<lparr>initialised := True\<rparr>) st2))"

definition toi_initialise_modules :: "bool \<Rightarrow> bool \<Rightarrow> 'w mod_state \<Rightarrow> int \<times> 'w mod_state" where
  "toi_initialise_modules starting is_early st = initialise_loop starting is_early (toi_modules st) st"

section \<open>The pipeline\<close>

fun next_filter :: "'w mod_state \<Rightarrow> nat option \<Rightarrow> nat option \<Rightarrow> nat list \<Rightarrow> nat option" where
  "next_filter st sought prev [] = toiActiveAllocator st"
| "next_filter st sought prev (a # as) =
     (if \<not> enabled (mods st a) then next_filter st sought prev as
      else if prev = sought \<or> sought = None then Some a
      else next_filter st sought (Some a) as)"

definition toi_get_next_filter :: "'w mod_state \<Rightarrow> nat option \<Rightarrow> nat option" where
  "toi_get_next_filter st sought = next_filter st sought None (toi_filters st)"

section \<open>References\<close>

definition module_put :: "nat \<Rightarrow> 'w mod_state \<Rightarrow> 'w mod_state" where
  "module_put a st = st\<lparr>mod_refs := (mod_refs st)(kmodule (mods st a) := mod_refs st (kmodule (mods st a)) - 1)\<rparr>"

definition module_get :: "nat \<Rightarrow> 'w mod_state \<Rightarrow> 'w mod_state" where
  "module_get a st = st\<lparr>mod_refs := (mod_refs st)(kmodule (mods st a) := mod_refs st (kmodule (mods st a)) + 1)\<rparr>"

text \<open>The modules before the failing one in the list lose their reference again.\<close>

fun get_modules_loop :: "(nat \<Rightarrow> bool) \<Rightarrow> nat list \<Rightarrow> nat list \<Rightarrow> 'w mod_state \<Rightarrow> int \<times> 'w mod_state" where
  "get_modules_loop live before [] st = (0, st)"
| "get_modules_loop live before (a # as) st =
     (if live (kmodule (mods st a)) then get_modules_loop live (before @ [a]) as (module_get a st)
      else (- EINVAL, fold module_put before st))"

definition toi_get_modules :: "(nat \<Rightarrow> bool) \<Rightarrow> 'w mod_state \<Rightarrow> int \<times> 'w mod_state" where
  "toi_get_modules live st = get_modules_loop live [] (toi_modules st) st"

definition toi_put_modules :: "'w mod_state \<Rightarrow> 'w mod_state" where
  "toi_put_modules st = fold module_put (toi_modules st) st"

section \<open>The registry is kept consistent\<close>

definition wf_mods :: "'w mod_state \<Rightarrow> bool" where
  "wf_mods st \<longleftrightarrow> distinct (map (\<lambda>a. mname (mods st a)) (toi_modules st)) \<and>
     toi_filters st = filter (\<lambda>a. mtype (mods st a) = FILTER_MODULE) (toi_modules st) \<and>
     toiAllocators st = filter (\<lambda>a. mtype (mods st a) = WRITER_MODULE) (toi_modules st) \<and>
     toi_num_modules st = int (length (toi_modules st)) \<and> toi_num_filters st = int (length (toi_filters st)) \<and>
     toiNumAllocators st = int (length (toiAllocators st)) \<and>
     (\<forall>a \<in> set (toi_modules st). 0 \<le> mtype (mods st a) \<and> mtype (mods st a) \<le> 3) \<and>
     (\<forall>a. toiActiveAllocator st = Some a \<longrightarrow> a \<in> set (toiAllocators st))"

lemma wf_mods_distinct: "wf_mods st \<Longrightarrow> distinct (toi_modules st)"
  by (simp add: wf_mods_def distinct_map)

lemma upd_mod_simps [simp]:
  "toi_modules (upd_mod a f st) = toi_modules st" "toi_filters (upd_mod a f st) = toi_filters st"
  "toiAllocators (upd_mod a f st) = toiAllocators st" "toi_num_modules (upd_mod a f st) = toi_num_modules st"
  "toi_num_filters (upd_mod a f st) = toi_num_filters st" "toiNumAllocators (upd_mod a f st) = toiNumAllocators st"
  "toiActiveAllocator (upd_mod a f st) = toiActiveAllocator st" "world (upd_mod a f st) = world st"
  "mod_refs (upd_mod a f st) = mod_refs st" "sysfs_files (upd_mod a f st) = sysfs_files st"
  "mods (upd_mod a f st) b = (if b = a then f (mods st a) else mods st b)"
  by (simp_all add: upd_mod_def)

text \<open>Fields that the invariant does not read may change.\<close>

lemma wf_mods_cong:
  assumes "\<And>a. mname (mods st' a) = mname (mods st a)" and "\<And>a. mtype (mods st' a) = mtype (mods st a)"
    and "toi_modules st' = toi_modules st" and "toi_filters st' = toi_filters st" and "toiAllocators st' = toiAllocators st"
    and "toi_num_modules st' = toi_num_modules st" and "toi_num_filters st' = toi_num_filters st"
    and "toiNumAllocators st' = toiNumAllocators st" and "toiActiveAllocator st' = toiActiveAllocator st"
  shows "wf_mods st' = wf_mods st"
  by (simp add: wf_mods_def assms)

lemma wf_mods_enable [simp]: "wf_mods (upd_mod a (\<lambda>m. m\<lparr>enabled := True\<rparr>) st) = wf_mods st"
  by (rule wf_mods_cong) simp_all

lemma wf_mods_kobj [simp]: "wf_mods (upd_mod a (\<lambda>m. m\<lparr>dir_kobj := k\<rparr>) st) = wf_mods st"
  by (rule wf_mods_cong) simp_all

lemma wf_mods_files [simp]: "wf_mods (st\<lparr>sysfs_files := fs\<rparr>) = wf_mods st"
  by (rule wf_mods_cong) simp_all

lemma wf_register_files: "wf_mods st \<Longrightarrow> wf_mods (snd (register_files reg k a is st))"
  by (induction "is" arbitrary: st) simp_all

lemma find_name_None: "toi_find_module_given_name st n = None \<longleftrightarrow> n \<notin> (\<lambda>a. mname (mods st a)) ` set (toi_modules st)"
  by (auto simp: toi_find_module_given_name_def find_None_iff)

lemma wf_add_to_lists:
  assumes "wf_mods st" and "toi_find_module_given_name st (mname (mods st a)) = None" and "add_to_lists a st = Some st'"
  shows "wf_mods st'" and "a \<in> set (toi_modules st')" and "mods st' = mods st"
  using assms by (auto simp: wf_mods_def add_to_lists_def find_name_None Let_def split: if_splits)

lemma wf_unregister:
  assumes "wf_mods st" and "a \<in> set (toi_modules st)"
  shows "wf_mods (toi_unregister_module a st)" and "toi_modules (toi_unregister_module a st) = remove1 a (toi_modules st)"
proof -
  let ?st1 = "\<lambda>fs. st\<lparr>sysfs_files := fs\<rparr>"
  have d: "distinct (toi_modules st)" by (rule wf_mods_distinct [OF assms(1)])
  have other: "remove1 a (filter (\<lambda>b. mtype (mods st b) = t) xs) = filter (\<lambda>b. mtype (mods st b) = t) xs" if "mtype (mods st a) \<noteq> t" for t xs
    using that by (intro remove1_idem) simp
  have len: "int (length (remove1 a xs)) = int (length xs) - 1" if "a \<in> set xs" for xs
    using that length_pos_if_in_set [OF that] by (cases "length xs") (simp_all add: length_remove1)
  have names: "distinct (map (\<lambda>a. mname (mods st a)) (remove1 a (toi_modules st)))"
    using assms(1) set_remove1_subset [of a "toi_modules st"] d
    by (auto simp: wf_mods_def distinct_map intro: inj_on_subset)
  have ty: "0 \<le> mtype (mods st a)" "mtype (mods st a) \<le> 3" using assms by (auto simp: wf_mods_def)
  then consider "mtype (mods st a) = 0" | "mtype (mods st a) = 1" | "mtype (mods st a) = 2" | "mtype (mods st a) = 3" by linarith
  then have "wf_mods (toi_unregister_module a st) \<and> toi_modules (toi_unregister_module a st) = remove1 a (toi_modules st)"
    using assms names other len d
    by cases (auto simp: toi_unregister_module_def Let_def wf_mods_def filter_remove1 set_remove1_eq split: option.splits)
  then show "wf_mods (toi_unregister_module a st)" "toi_modules (toi_unregister_module a st) = remove1 a (toi_modules st)"
    by simp_all
qed

lemma mset_move_tail: "a \<in> set xs \<Longrightarrow> mset (list_move_tail a xs) = mset xs"
  by (simp add: list_move_tail_def)

lemma filter_move_tail:
  "filter P (list_move_tail a xs) = (if P a then list_move_tail a (filter P xs) else filter P xs)"
  by (auto simp: list_move_tail_def filter_remove1 intro: remove1_idem)

lemma move_tail_short: "a \<in> set xs \<Longrightarrow> int (length xs) \<le> 1 \<Longrightarrow> list_move_tail a xs = xs"
  by (cases xs) (auto simp: list_move_tail_def)

lemma wf_move_tail:
  assumes "wf_mods st" and "a \<in> set (toi_modules st)"
  shows "wf_mods (toi_move_module_tail a st)" and "mset (toi_modules (toi_move_module_tail a st)) = mset (toi_modules st)"
proof -
  let ?ms = "toi_modules st"
  let ?mv = "list_move_tail a ?ms"
  have nms: "distinct (map (\<lambda>a. mname (mods st a)) ?mv) = distinct (map (\<lambda>a. mname (mods st a)) ?ms)"
    by (rule mset_eq_imp_distinct_iff) (simp add: mset_move_tail [OF assms(2)])
  have sets: "set ?mv = set ?ms" "length ?mv = length ?ms"
    using mset_move_tail [OF assms(2)] mset_eq_setD mset_eq_length by blast+
  have same: "mset (list_move_tail a xs) = mset xs \<and> set (list_move_tail a xs) = set xs \<and> length (list_move_tail a xs) = length xs"
    if "a \<in> set xs" for xs
    using mset_move_tail [OF that] mset_eq_setD mset_eq_length by metis
  have ty: "0 \<le> mtype (mods st a)" "mtype (mods st a) \<le> 3" using assms by (auto simp: wf_mods_def)
  then consider "mtype (mods st a) = 0" | "mtype (mods st a) = 1" | "mtype (mods st a) = 2" | "mtype (mods st a) = 3" by linarith
  then have "wf_mods (toi_move_module_tail a st) \<and> mset (toi_modules (toi_move_module_tail a st)) = mset ?ms"
    using assms nms sets mset_move_tail [OF assms(2)] same [of "filter (\<lambda>b. mtype (mods st b) = mtype (mods st a)) ?ms"]
      move_tail_short [of a "filter (\<lambda>b. mtype (mods st b) = mtype (mods st a)) ?ms"]
    by cases (auto simp: toi_move_module_tail_def Let_def wf_mods_def filter_move_tail)
  then show "wf_mods (toi_move_module_tail a st)" "mset (toi_modules (toi_move_module_tail a st)) = mset ?ms" by simp_all
qed

lemma wf_register:
  assumes "wf_mods st" and "toi_register_module mkdir root reg a st = Some (r, st')"
  shows "wf_mods st'"
proof -
  let ?st = "upd_mod a (\<lambda>m. m\<lparr>enabled := True\<rparr>) st"
  show ?thesis
  proof (cases "toi_find_module_given_name ?st (mname (mods ?st a)) = None")
    case new: True
    show ?thesis
    proof (cases "add_to_lists a ?st")
      case None
      with assms(2) new have "st' = ?st" by (simp add: toi_register_module_def Let_def)
      with assms(1) show ?thesis by simp
    next
      case (Some st1)
      note add = wf_add_to_lists [OF _ new Some]
      consider "st' = st1" | "st' = toi_unregister_module a st1"
        | k where "st' = snd (register_files reg k a [0 ..< num_sysfs_entries (mods ?st a)] (upd_mod a (\<lambda>m. m\<lparr>dir_kobj := Some k\<rparr>) st1))"
        using assms(2) new Some
        by (auto simp: toi_register_module_def Let_def split: if_splits Option.bind_splits option.splits) (metis snd_conv)+
      then show ?thesis
        using add(1,2) wf_unregister(1) [of st1 a] assms(1) by cases (simp_all add: wf_register_files)
    qed
  next
    case False
    with assms(2) have "st' = ?st" by (simp add: toi_register_module_def Let_def)
    with assms(1) show ?thesis by simp
  qed
qed

definition demo_module :: "int \<Rightarrow> string \<Rightarrow> unit toi_module_ops" where
  "demo_module t n = \<lparr>mtype = t, mname = n, directory = Some n, shared_directory = None, dir_kobj = None, kmodule = 0,
     enabled = True, early = False, initialised = False, memory_needed = None, storage_needed = Some (\<lambda>_. 8),
     m_header_requested = 0, m_header_used = 0, expected_compression = None, save_config_info = None, load_config_info = None,
     initialise = Some (\<lambda>_ _. (0, ())), cleanup = None, sysfs_data = True, num_sysfs_entries = 2\<rparr>"

text \<open>Two filters and an allocator, the allocator active.\<close>

definition demo_mods :: "unit mod_state" where
  "demo_mods = \<lparr>mods = (\<lambda>_. demo_module 7 ''none'')(1 := demo_module 0 ''lzf'', 2 := demo_module 0 ''sum'', 3 := demo_module 1 ''swap'',
       4 := (demo_module 3 ''userui'')\<lparr>directory := None, shared_directory := Some ''ui''\<rparr>, 5 := demo_module 0 ''new''),
     toi_modules = [1, 2, 3], toi_filters = [1, 2], toiAllocators = [3], toi_num_filters = 2, toiNumAllocators = 1,
     toi_num_modules = 3, toiActiveAllocator = Some 3, toi_state = {TOI_CAN_RESUME}, sysfs_files = [], mod_refs = \<lambda>_. 0,
     world = ()\<rparr>"

lemma wf_demo_mods: "wf_mods demo_mods"
  by (simp add: wf_mods_def demo_mods_def demo_module_def)

text \<open>
  C15. Registering, unregistering and moving modules keep the registry consistent: the lists of
  filters and allocators are the modules of that type in the order of the module list, the three
  counters are the lengths of the lists, no two modules have the same name, and the active
  allocator is registered.
\<close>

theorem module_registry_invariant:
  assumes "wf_mods st"
  shows "(toi_register_module mkdir root reg a st = Some (r, st1) \<longrightarrow> wf_mods st1) \<and>
    (b \<in> set (toi_modules st) \<longrightarrow> wf_mods (toi_unregister_module b st) \<and> b \<notin> set (toi_modules (toi_unregister_module b st)) \<and>
       wf_mods (toi_move_module_tail b st) \<and> mset (toi_modules (toi_move_module_tail b st)) = mset (toi_modules st))"
  using wf_register [OF assms] wf_unregister [OF assms] wf_move_tail [OF assms] wf_mods_distinct [OF assms] by auto

text \<open>A filter is registered, the allocator unregistered, the first filter moved to the end.\<close>

theorem module_registry_invariant_witness:
  "(\<exists>st1. toi_register_module (\<lambda>_. Some 9) (Some 0) (\<lambda>_ _ _. 0) 5 demo_mods = Some (0, st1) \<and> toi_filters st1 = [1, 2, 5] \<and> wf_mods st1) \<and>
   wf_mods (toi_unregister_module 3 demo_mods) \<and> wf_mods (toi_move_module_tail 1 demo_mods)"
proof -
  have "\<exists>st1. toi_register_module (\<lambda>_. Some 9) (Some 0) (\<lambda>_ _ _. 0) 5 demo_mods = Some (0, st1) \<and> toi_filters st1 = [1, 2, 5]"
    by (simp add: toi_register_module_def toi_find_module_given_name_def add_to_lists_def demo_mods_def demo_module_def numeral_2_eq_2)
  then obtain st1 where st1: "toi_register_module (\<lambda>_. Some 9) (Some 0) (\<lambda>_ _ _. 0) 5 demo_mods = Some (0, st1)" "toi_filters st1 = [1, 2, 5]"
    by blast
  note inv = module_registry_invariant [OF wf_demo_mods, of "\<lambda>_. Some 9" "Some 0" "\<lambda>_ _ _. 0" 5 0 st1]
  show ?thesis using st1 inv [of 3] inv [of 1] by (simp add: demo_mods_def)
qed

section \<open>The pipeline visits every filter\<close>

lemma filter_nth_split:
  "i < length (filter P xs) \<Longrightarrow>
     \<exists>us vs. xs = us @ filter P xs ! i # vs \<and> filter P vs = drop (Suc i) (filter P xs) \<and> P (filter P xs ! i)"
proof (induction xs arbitrary: i)
  case (Cons x xs)
  show ?case
  proof (cases "P x \<and> i = 0")
    case True
    then show ?thesis by (intro exI [of _ "[]"] exI [of _ xs]) simp
  next
    case False
    let ?j = "if P x then i - 1 else i"
    have j: "?j < length (filter P xs)" using Cons.prems False by (auto split: if_splits)
    obtain us vs where "xs = us @ filter P xs ! ?j # vs" "filter P vs = drop (Suc ?j) (filter P xs)" "P (filter P xs ! ?j)"
      using Cons.IH [OF j] by blast
    with False show ?thesis by (intro exI [of _ "x # us"] exI [of _ vs]) (cases i; auto)
  qed
qed simp

lemma next_filter_skip:
  "a \<notin> set xs \<Longrightarrow> prev \<noteq> Some a \<Longrightarrow>
     next_filter st (Some a) prev (xs @ ys) = next_filter st (Some a) (if filter (\<lambda>b. enabled (mods st b)) xs = [] then prev
       else Some (last (filter (\<lambda>b. enabled (mods st b)) xs))) ys"
  by (induction xs arbitrary: prev) auto

lemma next_filter_found:
  "next_filter st (Some a) (Some a) ys =
     (case filter (\<lambda>b. enabled (mods st b)) ys of [] \<Rightarrow> toiActiveAllocator st | b # _ \<Rightarrow> Some b)"
  by (induction ys) auto

lemma next_filter_first:
  "next_filter st None prev ys =
     (case filter (\<lambda>b. enabled (mods st b)) ys of [] \<Rightarrow> toiActiveAllocator st | b # _ \<Rightarrow> Some b)"
  by (induction ys arbitrary: prev) auto

lemma next_filter_after:
  assumes "a \<notin> set xs" and "enabled (mods st a)"
  shows "next_filter st (Some a) None (xs @ a # ys) =
    (case filter (\<lambda>b. enabled (mods st b)) ys of [] \<Rightarrow> toiActiveAllocator st | b # _ \<Rightarrow> Some b)"
proof -
  let ?E = "filter (\<lambda>b. enabled (mods st b)) xs"
  have "(if ?E = [] then None else Some (last ?E)) \<noteq> Some a"
    using assms(1) last_in_set [of ?E] by auto
  then show ?thesis
    using assms next_filter_skip [of a xs None st "a # ys"] next_filter_found [of st a ys] by auto
qed

lemma filter_order:
  assumes "wf_mods st" and "fs = filter (\<lambda>a. enabled (mods st a)) (toi_filters st)"
  shows "toi_get_next_filter st None = (if fs = [] then toiActiveAllocator st else Some (hd fs))"
    and "i < length fs \<Longrightarrow> toi_get_next_filter st (Some (fs ! i)) = (if Suc i < length fs then Some (fs ! Suc i) else toiActiveAllocator st)"
proof -
  show "toi_get_next_filter st None = (if fs = [] then toiActiveAllocator st else Some (hd fs))"
    by (auto simp: toi_get_next_filter_def next_filter_first assms(2) split: list.splits)
  assume i: "i < length fs"
  let ?E = "\<lambda>b. enabled (mods st b)"
  have d: "distinct (toi_filters st)" using wf_mods_distinct [OF assms(1)] assms(1) by (simp add: wf_mods_def)
  obtain us vs where split: "toi_filters st = us @ fs ! i # vs" "filter ?E vs = drop (Suc i) fs" "?E (fs ! i)"
    using filter_nth_split [of i ?E "toi_filters st"] i assms(2) by blast
  then have "fs ! i \<notin> set us" using d by auto
  from next_filter_after [OF this split(3), of vs] show "toi_get_next_filter st (Some (fs ! i)) =
      (if Suc i < length fs then Some (fs ! Suc i) else toiActiveAllocator st)"
    unfolding toi_get_next_filter_def split(1) using i by (auto simp: split(2) Cons_nth_drop_Suc [symmetric] split: list.splits)
qed

text \<open>
  C17. Starting without a filter and following \<open>toi_get_next_filter\<close>, every enabled filter is
  visited once in the order of registration, no disabled one is, and the last step yields the
  active allocator: a page that goes through the pipeline meets each filter and then the storage.
\<close>

theorem filter_pipeline:
  assumes "wf_mods st" and "fs = filter (\<lambda>a. enabled (mods st a)) (toi_filters st)"
  shows "toi_get_next_filter st None = (if fs = [] then toiActiveAllocator st else Some (hd fs)) \<and>
    (\<forall>i < length fs. toi_get_next_filter st (Some (fs ! i)) =
       (if Suc i < length fs then Some (fs ! Suc i) else toiActiveAllocator st))"
  using filter_order [OF assms] by blast

theorem filter_pipeline_witness:
  "toi_get_next_filter demo_mods None = Some 1 \<and> toi_get_next_filter demo_mods (Some 1) = Some 2 \<and>
   toi_get_next_filter demo_mods (Some 2) = Some 3"
proof -
  have fs: "[1, 2] = filter (\<lambda>a. enabled (mods demo_mods a)) (toi_filters demo_mods)"
    by (simp add: demo_mods_def demo_module_def)
  note order = filter_pipeline [OF wf_demo_mods fs]
  from order have "\<forall>i < 2. toi_get_next_filter demo_mods (Some ([1, 2] ! i)) =
      (if Suc i < 2 then Some ([1, 2] ! Suc i) else toiActiveAllocator demo_mods)" by (simp add: numeral_2_eq_2)
  from this [rule_format, of 0] this [rule_format, of 1] order show ?thesis by (simp add: demo_mods_def)
qed

section \<open>Initialising all modules or none\<close>

text \<open>
  The modules of a phase that have something to do, what their calls make of the world, and the result of the
  \<open>i\<close>th call; the same for cleaning up.
\<close>

definition due :: "bool \<Rightarrow> 'w mod_state \<Rightarrow> nat list \<Rightarrow> nat list" where
  "due e st as = filter (\<lambda>a. enabled (mods st a) \<and> early (mods st a) = e \<and> initialise (mods st a) \<noteq> None) as"

definition init_call :: "bool \<Rightarrow> 'w mod_state \<Rightarrow> nat \<Rightarrow> 'w \<Rightarrow> int \<times> 'w" where
  "init_call s st a w = the (initialise (mods st a)) s w"

definition init_world :: "bool \<Rightarrow> 'w mod_state \<Rightarrow> nat list \<Rightarrow> 'w \<Rightarrow> 'w" where
  "init_world s st as w = fold (\<lambda>a w. snd (init_call s st a w)) as w"

definition init_result :: "bool \<Rightarrow> 'w mod_state \<Rightarrow> nat list \<Rightarrow> 'w \<Rightarrow> nat \<Rightarrow> int" where
  "init_result s st as w i = fst (init_call s st (as ! i) (init_world s st (take i as) w))"

definition clean_world :: "bool \<Rightarrow> 'w mod_state \<Rightarrow> nat list \<Rightarrow> 'w \<Rightarrow> 'w" where
  "clean_world s st as w = fold (\<lambda>a w. case cleanup (mods st a) of None \<Rightarrow> w | Some f \<Rightarrow> f s w) as w"

text \<open>The same modules, with the same operations and switches.\<close>

definition same_ops :: "'w mod_state \<Rightarrow> 'w mod_state \<Rightarrow> bool" where
  "same_ops st st' \<longleftrightarrow> toi_modules st' = toi_modules st \<and>
     (\<forall>b. enabled (mods st' b) = enabled (mods st b) \<and> early (mods st' b) = early (mods st b) \<and>
          initialise (mods st' b) = initialise (mods st b) \<and> cleanup (mods st' b) = cleanup (mods st b))"

lemma same_ops_cong:
  assumes "same_ops st st'"
  shows "due e st' = due e st" "init_world s st' = init_world s st" "init_result s st' = init_result s st" "clean_world s st' = clean_world s st"
  using assms by (simp_all add: same_ops_def due_def init_world_def init_result_def init_call_def clean_world_def fun_eq_iff)

lemma same_ops_trans: "same_ops a b \<Longrightarrow> same_ops b c \<Longrightarrow> same_ops a c"
  by (simp add: same_ops_def)

lemma cleanup_loop_spec:
  assumes "distinct as"
  shows "world (cleanup_loop f as st) = clean_world f st (filter (\<lambda>a. enabled (mods st a) \<and> initialised (mods st a)) as) (world st) \<and>
    (\<forall>b. initialised (mods (cleanup_loop f as st) b) \<longleftrightarrow> initialised (mods st b) \<and> \<not> (b \<in> set as \<and> enabled (mods st b)))"
  using assms
proof (induction as arbitrary: st)
  case Nil
  then show ?case by (simp add: clean_world_def)
next
  case (Cons a as)
  show ?case
  proof (cases "enabled (mods st a) \<and> initialised (mods st a)")
    case False
    with Cons show ?thesis by auto
  next
    case True
    define w where "w = (case cleanup (mods st a) of None \<Rightarrow> world st | Some g \<Rightarrow> g f (world st))"
    let ?st1 = "upd_mod a (\<lambda>m. m\<lparr>initialised := False\<rparr>) (st\<lparr>world := w\<rparr>)"
    have step: "cleanup_loop f (a # as) st = cleanup_loop f as ?st1"
      using True by (cases "cleanup (mods st a)") (simp_all add: w_def)
    have "same_ops st ?st1" by (simp add: same_ops_def)
    note cw = same_ops_cong(4) [OF this, of f]
    have fl: "filter (\<lambda>a. enabled (mods ?st1 a) \<and> initialised (mods ?st1 a)) as = filter (\<lambda>a. enabled (mods st a) \<and> initialised (mods st a)) as"
      using Cons.prems by (intro filter_cong) auto
    have "clean_world f st (a # bs) (world st) = clean_world f st bs w" for bs by (simp add: clean_world_def w_def)
    with Cons.IH [of ?st1] Cons.prems True show ?thesis unfolding step fl cw by auto
  qed
qed

text \<open>
  The loop over the modules: it stops at the first call that fails, at \<open>st1\<close>, where the calls before it have
  succeeded and their modules are initialised.
\<close>

lemma initialise_loop_spec:
  assumes "distinct as" and "initialise_loop s e as st = (r, st')" and "ds = due e st as" and "w = world st"
  shows "(r = 0 \<and> (\<forall>i < length ds. init_result s st ds w i = 0) \<and> same_ops st st' \<and> world st' = init_world s st ds w \<and>
      (\<forall>b. initialised (mods st' b) \<longleftrightarrow> initialised (mods st b) \<or> b \<in> set ds)) \<or>
    (\<exists>i st1. i < length ds \<and> (\<forall>j < i. init_result s st ds w j = 0) \<and> r = init_result s st ds w i \<and> r \<noteq> 0 \<and>
      st' = toi_cleanup_modules s st1 \<and> same_ops st st1 \<and> world st1 = init_world s st (take (Suc i) ds) w \<and>
      (\<forall>b. initialised (mods st1 b) \<longleftrightarrow> initialised (mods st b) \<or> b \<in> set (take i ds)))"
  using assms
proof (induction as arbitrary: st ds w)
  case Nil
  then show ?case by (simp add: due_def same_ops_def init_world_def)
next
  case (Cons a as)
  let ?st1 = "upd_mod a (\<lambda>m. m\<lparr>m_header_requested := 0, m_header_used := 0\<rparr>) st"
  show ?case
  proof (cases "enabled (mods st a) \<and> early (mods st a) = e \<and> initialise (mods st a) \<noteq> None")
    case False
    have so: "same_ops st ?st1" by (simp add: same_ops_def)
    have ds: "ds = due e ?st1 as" using False Cons.prems(3) by (simp add: same_ops_cong(1) [OF so]) (simp add: due_def)
    have loop: "initialise_loop s e as ?st1 = (r, st')"
      using Cons.prems(2) False by (auto simp: Let_def split: if_splits option.splits)
    have ini: "initialised (mods ?st1 b) = initialised (mods st b)" for b by simp
    show ?thesis
      using Cons.IH [OF _ loop ds, of w] Cons.prems(1,4) so unfolding same_ops_cong [OF so] ini by (auto intro: same_ops_trans)
  next
    case True
    define v where "v = snd (init_call s st a w)"
    let ?w = "?st1\<lparr>world := v\<rparr>"
    let ?st2 = "upd_mod a (\<lambda>m. m\<lparr>initialised := True\<rparr>) ?w"
    let ?ds = "due e st as"
    have ds: "ds = a # ?ds" using True Cons.prems(3) by (simp add: due_def)
    have r0: "init_result s st ds w 0 = fst (init_call s st a w)" by (simp add: ds init_result_def init_world_def)
    have rS: "init_result s st ds w (Suc i) = init_result s st ?ds v i" for i by (simp add: ds init_result_def init_world_def v_def)
    have wS: "init_world s st (a # bs) w = init_world s st bs v" for bs by (simp add: init_world_def v_def)
    show ?thesis
    proof (cases "fst (init_call s st a w) = 0")
      case ok: True
      have so: "same_ops st ?st2" by (simp add: same_ops_def)
      have loop: "initialise_loop s e as ?st2 = (r, st')"
        using Cons.prems(2,4) True ok by (auto simp: Let_def init_call_def v_def split: if_splits prod.splits)
      have ini: "initialised (mods ?st2 b) \<longleftrightarrow> initialised (mods st b) \<or> b = a" for b by simp
      from Cons.IH [OF _ loop refl refl] Cons.prems(1)
      consider (all) "r = 0" "\<forall>i < length ?ds. init_result s st ?ds v i = 0" "same_ops ?st2 st'" "world st' = init_world s st ?ds v"
          "\<forall>b. initialised (mods st' b) \<longleftrightarrow> (initialised (mods st b) \<or> b = a) \<or> b \<in> set ?ds"
        | (bad) i st3 where "i < length ?ds" "\<forall>j < i. init_result s st ?ds v j = 0" "r = init_result s st ?ds v i" "r \<noteq> 0"
          "st' = toi_cleanup_modules s st3" "same_ops ?st2 st3" "world st3 = init_world s st (take (Suc i) ?ds) v"
          "\<forall>b. initialised (mods st3 b) \<longleftrightarrow> (initialised (mods st b) \<or> b = a) \<or> b \<in> set (take i ?ds)"
        unfolding same_ops_cong [OF so] ini by (auto simp: v_def)
      then show ?thesis
      proof cases
        case all
        have "\<forall>i < length ds. init_result s st ds w i = 0"
          using all(2) ok r0 rS by (auto simp: ds less_Suc_eq_0_disj)
        then show ?thesis using all same_ops_trans [OF so] wS by (auto simp: ds)
      next
        case bad
        have "\<forall>j < Suc i. init_result s st ds w j = 0"
          using bad(2) ok r0 rS by (auto simp: less_Suc_eq_0_disj)
        then show ?thesis
          using bad same_ops_trans [OF so] wS rS by (intro disjI2 exI [of _ "Suc i"] exI [of _ st3]) (auto simp: ds)
      qed
    next
      case False
      have st': "r = fst (init_call s st a w)" "st' = toi_cleanup_modules s ?w"
        using Cons.prems(2,4) True False by (auto simp: Let_def init_call_def v_def split: if_splits prod.splits)
      have "same_ops st ?w" by (simp add: same_ops_def)
      then show ?thesis using st' False r0 wS [of "[]"]
        by (intro disjI2 exI [of _ 0] exI [of _ ?w]) (auto simp: ds init_world_def)
    qed
  qed
qed

text \<open>
  C19. \<open>toi_initialise_modules\<close> calls the initialise functions of the enabled modules of its phase in the order of
  the list, each on what the ones before it left behind. It returns 0 exactly when all of them do; then
  these modules are marked as initialised, and no mark is removed. Otherwise it returns the result of the first one that
  fails, those after it are not called, and the enabled modules that were initialised, now or before, are cleaned up, in
  the order of the list: no enabled module is left initialised.
\<close>

theorem initialise_modules_all_or_none:
  assumes "wf_mods st" and "toi_initialise_modules starting is_early st = (r, st')" and "ds = due is_early st (toi_modules st)"
    and "w = world st"
  shows "(r = 0 \<longleftrightarrow> (\<forall>i < length ds. init_result starting st ds w i = 0)) \<and>
    (r = 0 \<longrightarrow> world st' = init_world starting st ds w \<and>
      (\<forall>b. initialised (mods st' b) \<longleftrightarrow> initialised (mods st b) \<or> b \<in> set ds)) \<and>
    (r \<noteq> 0 \<longrightarrow> (\<exists>i < length ds. (\<forall>j < i. init_result starting st ds w j = 0) \<and> r = init_result starting st ds w i \<and>
      world st' = clean_world starting st
        (filter (\<lambda>a. enabled (mods st a) \<and> (initialised (mods st a) \<or> a \<in> set (take i ds))) (toi_modules st))
        (init_world starting st (take (Suc i) ds) w) \<and>
      (\<forall>a \<in> set (toi_modules st). enabled (mods st a) \<longrightarrow> \<not> initialised (mods st' a))))"
proof -
  have d: "distinct (toi_modules st)" by (rule wf_mods_distinct [OF assms(1)])
  have loop: "initialise_loop starting is_early (toi_modules st) st = (r, st')" using assms(2) by (simp add: toi_initialise_modules_def)
  from initialise_loop_spec [OF d loop assms(3,4)]
  show ?thesis
  proof (elim disjE exE conjE)
    fix i st1
    assume i: "i < length ds" "\<forall>j < i. init_result starting st ds w j = 0" "r = init_result starting st ds w i" "r \<noteq> 0"
      and st1: "st' = toi_cleanup_modules starting st1" "same_ops st st1" "world st1 = init_world starting st (take (Suc i) ds) w"
      "\<forall>b. initialised (mods st1 b) \<longleftrightarrow> initialised (mods st b) \<or> b \<in> set (take i ds)"
    have ops: "toi_modules st1 = toi_modules st" "enabled (mods st1 b) = enabled (mods st b)" for b
      using st1(2) by (simp_all add: same_ops_def)
    have "world st' = clean_world starting st
        (filter (\<lambda>a. enabled (mods st a) \<and> (initialised (mods st a) \<or> a \<in> set (take i ds))) (toi_modules st))
        (init_world starting st (take (Suc i) ds) w)"
      using cleanup_loop_spec [OF d, of starting st1] st1(3,4) same_ops_cong(4) [OF st1(2)]
      by (simp add: st1(1) toi_cleanup_modules_def ops)
    moreover have "\<forall>a \<in> set (toi_modules st). enabled (mods st a) \<longrightarrow> \<not> initialised (mods st' a)"
      using cleanup_loop_spec [OF d, of starting st1] by (simp add: st1(1) toi_cleanup_modules_def ops)
    ultimately show ?thesis using i by auto
  qed simp
qed

text \<open>The first filter is initialised, the second one fails: it is not left initialised and its error is returned.\<close>

definition failing_mods :: "nat mod_state" where
  "failing_mods = \<lparr>mods = (\<lambda>a. \<lparr>mtype = (if a = 3 then 1 else 0), mname = replicate a CHR ''m'', directory = None,
       shared_directory = None, dir_kobj = None, kmodule = 0, enabled = True, early = False, initialised = False, memory_needed = None,
       storage_needed = None, m_header_requested = 0, m_header_used = 0, expected_compression = None, save_config_info = None,
       load_config_info = None, initialise = Some (\<lambda>_ w. (if a = 2 then -12 else 0, w + 1)), cleanup = Some (\<lambda>_ w. w + 100),
       sysfs_data = False, num_sysfs_entries = 0\<rparr>),
     toi_modules = [1, 2, 3], toi_filters = [1, 2], toiAllocators = [3], toi_num_filters = 2, toiNumAllocators = 1,
     toi_num_modules = 3, toiActiveAllocator = None, toi_state = {}, sysfs_files = [], mod_refs = \<lambda>_. 0, world = 0\<rparr>"

theorem initialise_modules_all_or_none_witness:
  "\<exists>st'. toi_initialise_modules True False failing_mods = (-12, st') \<and> world st' = 102 \<and> \<not> initialised (mods st' 1)"
proof -
  have wf: "wf_mods failing_mods" by (simp add: wf_mods_def failing_mods_def numeral_2_eq_2 numeral_3_eq_3)
  have ds: "[1, 2, 3] = due False failing_mods (toi_modules failing_mods)" by (simp add: due_def failing_mods_def)
  have m: "toi_modules failing_mods = [1, 2, 3]" "world failing_mods = 0" "enabled (mods failing_mods a)" "\<not> initialised (mods failing_mods a)"
    "initialise (mods failing_mods a) = Some (\<lambda>_ w. (if a = 2 then -12 else 0, w + 1))" "cleanup (mods failing_mods a) = Some (\<lambda>_ w. w + 100)" for a
    by (simp_all add: failing_mods_def)
  obtain r st' where run: "toi_initialise_modules True False failing_mods = (r, st')" by force
  note all = initialise_modules_all_or_none [OF wf run ds refl]
  have res: "init_result True failing_mods [1, 2, 3] 0 i = (if i = 1 then -12 else 0)" if "i < 3" for i
    using that by (auto simp: init_result_def init_call_def m less_Suc_eq numeral_3_eq_3)
  have "r \<noteq> 0" using all res [of 1] by (force simp: m(2))
  with all have "\<exists>i < Suc (Suc (Suc 0)). r = init_result True failing_mods [1, 2, 3] 0 i \<and>
      world st' = clean_world True failing_mods (filter (\<lambda>a. a \<in> set (take i [1, 2, 3])) [1, 2, 3]) (init_world True failing_mods (take (Suc i) [1, 2, 3]) 0) \<and>
      \<not> initialised (mods st' 1)"
    unfolding m(1,2) using m(3,4) by (simp del: filter.simps take_Suc_Cons) blast
  then obtain i where i: "i < 3" "r = init_result True failing_mods [1, 2, 3] 0 i"
    "world st' = clean_world True failing_mods (filter (\<lambda>a. a \<in> set (take i [1, 2, 3])) [1, 2, 3]) (init_world True failing_mods (take (Suc i) [1, 2, 3]) 0)"
    "\<not> initialised (mods st' 1)" by (auto simp only: numeral_3_eq_3 [symmetric])
  have "i = 1" "r = -12" using i(1,2) \<open>r \<noteq> 0\<close> res [OF i(1)] by (auto split: if_splits)
  then show ?thesis using run i(3,4) by (simp add: clean_world_def init_world_def init_call_def m)
qed

section \<open>References to the modules\<close>

definition users :: "'w mod_state \<Rightarrow> nat list \<Rightarrow> nat \<Rightarrow> int" where
  "users st as k = int (length (filter (\<lambda>a. kmodule (mods st a) = k) as))"

lemma set_refs: "f = g \<Longrightarrow> st\<lparr>mod_refs := f\<rparr> = st\<lparr>mod_refs := g\<rparr>"
  by simp

lemma users_simps [simp]:
  "users (st\<lparr>mod_refs := f\<rparr>) = users st" "users st [] k = 0"
  "users st (a # as) k = (if kmodule (mods st a) = k then 1 else 0) + users st as k"
  "users st (as @ bs) k = users st as k + users st bs k"
  by (simp_all add: users_def fun_eq_iff)

lemma put_all: "fold module_put as st = st\<lparr>mod_refs := \<lambda>k. mod_refs st k - users st as k\<rparr>"
proof (induction as arbitrary: st)
  case (Cons a as)
  show ?case unfolding fold.simps o_apply Cons.IH by (simp add: module_put_def, rule set_refs) auto
qed simp

lemma get_loop_refs:
  "get_modules_loop live before as st = (r, st') \<Longrightarrow>
     (r = 0 \<and> st' = st\<lparr>mod_refs := \<lambda>k. mod_refs st k + users st as k\<rparr> \<and> (\<forall>a \<in> set as. live (kmodule (mods st a)))) \<or>
     (r = - EINVAL \<and> st' = st\<lparr>mod_refs := \<lambda>k. mod_refs st k - users st before k\<rparr> \<and> (\<exists>a \<in> set as. \<not> live (kmodule (mods st a))))"
proof (induction as arbitrary: before st)
  case Nil
  then show ?case by simp
next
  case (Cons a as)
  show ?case
  proof (cases "live (kmodule (mods st a))")
    case True
    with Cons.prems have step: "get_modules_loop live (before @ [a]) as (module_get a st) = (r, st')" by simp
    have keep: "mods (module_get a st) = mods st" "users (module_get a st) = users st" by (simp_all add: module_get_def)
    have up: "(module_get a st)\<lparr>mod_refs := \<lambda>k. mod_refs (module_get a st) k + users st as k\<rparr> =
        st\<lparr>mod_refs := \<lambda>k. mod_refs st k + users st (a # as) k\<rparr>"
      by (simp add: module_get_def, rule set_refs) auto
    have down: "(module_get a st)\<lparr>mod_refs := \<lambda>k. mod_refs (module_get a st) k - users st (before @ [a]) k\<rparr> =
        st\<lparr>mod_refs := \<lambda>k. mod_refs st k - users st before k\<rparr>"
      by (simp add: module_get_def, rule set_refs) auto
    from Cons.IH [OF step, unfolded keep up down] True show ?thesis by auto
  next
    case False
    with Cons.prems show ?thesis by (auto simp: put_all)
  qed
qed

text \<open>
  C26. \<open>toi_get_modules\<close> takes a reference to the kernel module of each registered module, which
  \<open>toi_put_modules\<close> gives back; when one of them is going away it fails and no reference count
  has changed, also when several modules live in the same kernel module.
\<close>

theorem module_references:
  "case toi_get_modules live st of (r, st') \<Rightarrow>
     if \<forall>a \<in> set (toi_modules st). live (kmodule (mods st a))
     then r = 0 \<and> mod_refs st' = (\<lambda>k. mod_refs st k + users st (toi_modules st) k) \<and> toi_put_modules st' = st
     else r = - EINVAL \<and> st' = st"
proof -
  obtain r st' where get: "toi_get_modules live st = (r, st')" by force
  from get_loop_refs [of live "[]" "toi_modules st" st r st'] get show ?thesis
    by (auto simp: toi_get_modules_def toi_put_modules_def put_all)
qed

theorem module_references_witness:
  "fst (toi_get_modules (\<lambda>_. True) demo_mods) = 0 \<and> fst (toi_get_modules (\<lambda>_. False) demo_mods) = - EINVAL"
proof -
  have "toi_modules demo_mods \<noteq> []" by (simp add: demo_mods_def)
  then show ?thesis
    using module_references [where live = "\<lambda>_. True" and st = demo_mods]
      module_references [where live = "\<lambda>_. False" and st = demo_mods]
    by (cases "toi_get_modules (\<lambda>_. True) demo_mods"; cases "toi_get_modules (\<lambda>_. False) demo_mods") auto
qed

section \<open>A module that shares a directory\<close>

lemma find_dir_self:
  "\<forall>b \<in> set as. \<exists>e. directory (mods st b) = Some e \<and> e \<noteq> d \<Longrightarrow> directory (mods st a) = None \<Longrightarrow> find_dir st d (as @ [a]) = None"
  by (induction as) auto

text \<open>
  C37. A module that wants to share the directory of a module that is not loaded, and has no
  directory of its own (as the user interface module), is not refused with \<open>-ENODEV\<close>: the search for
  the directory reaches the module itself, which is already in the list, and dereferences its null
  directory.
\<close>

theorem register_shared_faults:
  assumes "mtype (mods st a) = MISC_HIDDEN_MODULE" and "directory (mods st a) = None" and "shared_directory (mods st a) = Some d"
    and "sysfs_data (mods st a)" and "0 < num_sysfs_entries (mods st a)"
    and "toi_find_module_given_name st (mname (mods st a)) = None"
    and "\<forall>b \<in> set (toi_modules st). b \<noteq> a \<and> (\<exists>e. directory (mods st b) = Some e \<and> e \<noteq> d)"
  shows "toi_register_module mkdir root reg a st = None"
proof -
  let ?st = "upd_mod a (\<lambda>m. m\<lparr>enabled := True\<rparr>) st"
  let ?st1 = "?st\<lparr>toi_modules := toi_modules st @ [a], toi_num_modules := toi_num_modules st + 1\<rparr>"
  have name: "toi_find_module_given_name ?st (mname (mods ?st a)) = None"
  proof -
    have "mname (mods ?st b) = mname (mods st b)" for b by simp
    with assms(6) show ?thesis by (simp only: toi_find_module_given_name_def upd_mod_simps(1))
  qed
  have "find_dir ?st1 d (toi_modules st @ [a]) = None"
    by (rule find_dir_self) (use assms(2,7) in simp_all)
  then have "toi_find_module_given_dir ?st1 d = None" by (simp add: toi_find_module_given_dir_def)
  moreover have "add_to_lists a ?st = Some ?st1" using assms(1) by (simp add: add_to_lists_def)
  ultimately show ?thesis using name assms(2-5) by (simp add: toi_register_module_def Let_def)
qed

theorem register_shared_faults_witness:
  "toi_register_module (\<lambda>_. Some 9) (Some 0) (\<lambda>_ _ _. 0) 4 demo_mods = None"
  by (rule register_shared_faults [where d = "''ui''"])
    (simp_all add: demo_mods_def demo_module_def toi_find_module_given_name_def)

section \<open>Sizes\<close>

text \<open>The modules that count and what they ask for.\<close>

definition wants :: "'w mod_state \<Rightarrow> nat \<Rightarrow> int option" where
  "wants st a = (if counted_for_header st a
     then map_option (\<lambda>f. s32 (f (world st) + SIZEOF_MODULE_HEADER + int SIZEOF_INT)) (storage_needed (mods st a)) else None)"

lemma wants_upd [simp]: "wants (upd_mod a (\<lambda>m. m\<lparr>m_header_requested := k\<rparr>) st) = wants st"
  by (auto simp: wants_def counted_for_header_def fun_eq_iff)

end
