(* ===== verification/TOI_Prepare.thy ===== *)
theory TOI_Prepare
  imports TOI_Pages TOI_Modules
begin

text \<open>
  Preparing the image (the second half of \<open>tuxonice_prepare_image.c\<close>): memory is freed and storage
  allocated until the image fits in both.

  The active allocator and the figures the modules supply are the operations of \<open>prep_ops\<close>, on a
  state \<open>'w\<close>. The kernel's part (freezing, reclaiming memory, allocating pages) is described by
  \<open>kernel\<close>: \<open>freeze n\<close> is the result of the \<open>n\<close>th \<open>freeze_processes\<close>, \<open>slab_ok n\<close> that of the \<open>n\<close>th
  slab allocation, and the functions on \<open>mem\<close> say what an operation makes of memory.
\<close>

section \<open>Data\<close>

abbreviation (input) MIN_FREE_RAM :: int where "MIN_FREE_RAM \<equiv> 100"
abbreviation (input) MIN_EXTRA_PAGES_ALLOWANCE :: int where "MIN_EXTRA_PAGES_ALLOWANCE \<equiv> 500"
abbreviation (input) MAX_ORDER :: nat where "MAX_ORDER \<equiv> 11"
abbreviation (input) MAX_TRIES :: int where "MAX_TRIES \<equiv> 2"

record 'w prep_ops =
  op_storage_available :: "'w \<Rightarrow> int"
  op_reserve_header_space :: "int \<Rightarrow> 'w \<Rightarrow> 'w"
  op_allocate_storage :: "int \<Rightarrow> 'w \<Rightarrow> 'w"
  op_storage_allocated :: "'w \<Rightarrow> int"
  op_header_storage_for_modules :: "'w \<Rightarrow> int"
  op_memory_for_modules :: "'w \<Rightarrow> int"
  op_expected_compression_ratio :: "'w \<Rightarrow> int"
  op_pageflags_space_needed :: int
  op_sizeof_toi_header :: int
  op_allocate_checksum_pages :: "int \<Rightarrow> int"

record kernel =
  freeze :: "nat \<Rightarrow> int"
  slab_ok :: "nat \<Rightarrow> bool"
  get_free_pages :: "nat \<Rightarrow> mem \<Rightarrow> (nat \<times> mem) option"
  free_pages :: "nat \<Rightarrow> nat \<Rightarrow> mem \<Rightarrow> mem"
  shrink_all_memory :: "int \<Rightarrow> mem \<Rightarrow> mem"
  drop_pagecache :: "mem \<Rightarrow> mem"
  free_when_atomic :: "mem \<Rightarrow> int option"

record 'w prep =
  pages :: page_state
  writer :: 'w
  main_storage_allocated :: int
  storage_available :: int
  header_storage_needed :: int
  extra_pd1_pages_allowance :: int
  image_size_limit :: int
  extras_list :: "(nat \<times> nat) list"
  extra_pages_allocated :: int
  freezes :: nat
  slabs :: nat

definition set_result :: "toi_result_bit \<Rightarrow> 'w prep \<Rightarrow> 'w prep" where
  "set_result b st = st\<lparr>pages := (pages st)\<lparr>p_results := set_abort_result b (p_results (pages st))\<rparr>\<rparr>"

definition aborted :: "'w prep \<Rightarrow> bool" where
  "aborted st \<longleftrightarrow> TOI_ABORTED \<in> p_results (pages st)"

definition freeze_processes :: "kernel \<Rightarrow> 'w prep \<Rightarrow> int \<times> 'w prep" where
  "freeze_processes k st = (freeze k (freezes st), st\<lparr>freezes := Suc (freezes st)\<rparr>)"

section \<open>Extra memory for the atomic copy\<close>

fun clear_nosave :: "(nat \<times> nat) list \<Rightarrow> kernel \<Rightarrow> page_state \<Rightarrow> page_state" where
  "clear_nosave [] k pg = pg"
| "clear_nosave ((page, order) # xs) k pg =
     clear_nosave xs k (pg\<lparr>nosave_map := nosave_map pg - set (order_pfns (page, order)),
                           memory := free_pages k page order (memory pg)\<rparr>)"

definition toi_free_extra_pagedir_memory :: "kernel \<Rightarrow> 'w prep \<Rightarrow> 'w prep" where
  "toi_free_extra_pagedir_memory k st =
     st\<lparr>pages := clear_nosave (extras_list st) k (pages st), extras_list := [], extra_pages_allocated := 0\<rparr>"

text \<open>\<open>fls\<close>: the position of the highest bit, counted from one.\<close>

fun fls :: "nat \<Rightarrow> nat" where
  "fls n = (if n = 0 then 0 else Suc (fls (n div 2)))"

declare fls.simps [simp del]

fun shrink_order :: "nat \<Rightarrow> nat \<Rightarrow> nat" where
  "shrink_order 0 n = 0"
| "shrink_order (Suc order) n = (if n < 2 ^ Suc order then shrink_order order n else Suc order)"

text \<open>Ask for a block, and for smaller and smaller ones while that fails.\<close>

fun try_pages :: "kernel \<Rightarrow> nat \<Rightarrow> mem \<Rightarrow> (nat \<times> nat \<times> mem) option" where
  "try_pages k 0 m = map_option (\<lambda>(page, m'). (page, 0, m')) (get_free_pages k 0 m)"
| "try_pages k (Suc order) m =
     (case get_free_pages k (Suc order) m of
        Some (page, m') \<Rightarrow> Some (page, Suc order, m')
      | None \<Rightarrow> try_pages k order m)"

definition add_extras :: "nat \<Rightarrow> nat \<Rightarrow> mem \<Rightarrow> 'w prep \<Rightarrow> 'w prep" where
  "add_extras page order m st =
     st\<lparr>pages := (pages st)\<lparr>memory := m, nosave_map := nosave_map (pages st) \<union> set (order_pfns (page, order)),
                            ps1_copy_map := ps1_copy_map (pages st) \<union> set (order_pfns (page, order))\<rparr>,
        extras_list := (page, order) # extras_list st,
        extra_pages_allocated := extra_pages_allocated st + 2 ^ order\<rparr>"

lemma shrink_order_fits: "0 < n \<Longrightarrow> 2 ^ shrink_order order n \<le> n"
  by (induction order) auto

lemma try_pages_order: "try_pages k order m = Some (page, o', m') \<Longrightarrow> o' \<le> order"
  by (induction order) (auto split: option.splits)

function extra_loop :: "kernel \<Rightarrow> nat \<Rightarrow> nat \<Rightarrow> 'w prep \<Rightarrow> 'w prep" where
  "extra_loop k num_to_alloc order st =
     (if num_to_alloc = 0 then st
      else let order1 = shrink_order order num_to_alloc; st1 = st\<lparr>slabs := Suc (slabs st)\<rparr>
           in if \<not> slab_ok k (slabs st) then st1
              else case try_pages k order1 (memory (pages st1)) of
                     None \<Rightarrow> st1
                   | Some (page, order2, m) \<Rightarrow>
                       extra_loop k (num_to_alloc - 2 ^ order2) order2 (add_extras page order2 m st1))"
  by pat_completeness auto
termination
proof (relation "measure (\<lambda>(k, n, order, st). n)", goal_cases)
  case (2 k n order st order1 st1 a page b order2 m)
  have "0 < (2 :: nat) ^ order2" by simp
  with 2 show ?case by simp
qed simp

declare extra_loop.simps [simp del]

definition toi_allocate_extra_pagedir_memory :: "kernel \<Rightarrow> int \<Rightarrow> 'w prep \<Rightarrow> int \<times> 'w prep" where
  "toi_allocate_extra_pagedir_memory k extra_pages_needed st =
     (let num_to_alloc = s32 (extra_pages_needed - extra_pages_allocated st)
      in if num_to_alloc < 1 then (0, st)
         else let order = fls (nat num_to_alloc);
                  st1 = extra_loop k (nat num_to_alloc) (if MAX_ORDER \<le> order then MAX_ORDER - 1 else order) st
              in (s32 (extra_pages_allocated st1), st1))"

section \<open>How much is needed\<close>

definition real_nr_free_low_pages :: "'w prep \<Rightarrow> int" where
  "real_nr_free_low_pages st = real_nr_free_pages (\<lambda>z. \<not> zone_highmem z) (pages st)"

definition real_nr_free_high_pages :: "'w prep \<Rightarrow> int" where
  "real_nr_free_high_pages st = real_nr_free_pages zone_highmem (pages st)"

definition get_extra_pd1_allowance :: "kernel \<Rightarrow> 'w prep \<Rightarrow> 'w prep" where
  "get_extra_pd1_allowance k st =
     (let orig_num_free = real_nr_free_pages (\<lambda>_. True) (pages st)
      in case free_when_atomic k (memory (pages st)) of
           None \<Rightarrow> st
         | Some final \<Rightarrow>
             st\<lparr>extra_pd1_pages_allowance :=
                  max (orig_num_free - s32 final + MIN_EXTRA_PAGES_ALLOWANCE) MIN_EXTRA_PAGES_ALLOWANCE\<rparr>)"

definition main_storage_needed :: "'w prep_ops \<Rightarrow> bool \<Rightarrow> bool \<Rightarrow> 'w prep \<Rightarrow> int" where
  "main_storage_needed ops use_ecr ignore_extra_pd1_allow st =
     c_div ((size (pagedir1 (pages st)) + size (pagedir2 (pages st)) +
             (if ignore_extra_pd1_allow then 0 else extra_pd1_pages_allowance st)) *
            (if use_ecr then op_expected_compression_ratio ops (writer st) else 100)) 100"

definition round_up :: "int \<Rightarrow> int \<Rightarrow> int" where
  "round_up n d = c_div (n + d - 1) d"

definition get_header_storage_needed :: "'w prep_ops \<Rightarrow> 'w prep \<Rightarrow> int" where
  "get_header_storage_needed ops st =
     round_up (op_sizeof_toi_header ops + op_header_storage_for_modules ops (writer st) + op_pageflags_space_needed ops)
       (int PAGE_SIZE)"

definition highpages_ps1_to_free :: "'w prep \<Rightarrow> int" where
  "highpages_ps1_to_free st =
     max 0 (round_up (size_high (pagedir1 (pages st)) - size_high (pagedir2 (pages st))) 2 - real_nr_free_high_pages st)"

definition lowpages_ps1_to_free :: "'w prep_ops \<Rightarrow> 'w prep \<Rightarrow> int" where
  "lowpages_ps1_to_free ops st =
     max 0 (round_up (get_lowmem_size (pagedir1 (pages st)) + extra_pd1_pages_allowance st + MIN_FREE_RAM +
       op_memory_for_modules ops (writer st) - get_lowmem_size (pagedir2 (pages st)) - real_nr_free_low_pages st -
       extra_pages_allocated st) 2)"

definition current_image_size :: "'w prep \<Rightarrow> int" where
  "current_image_size st = size (pagedir1 (pages st)) + size (pagedir2 (pages st)) + header_storage_needed st"

definition storage_still_required :: "'w prep_ops \<Rightarrow> 'w prep \<Rightarrow> int" where
  "storage_still_required ops st = max 0 (main_storage_needed ops True True st - storage_available st)"

definition ram_still_required :: "'w prep_ops \<Rightarrow> 'w prep \<Rightarrow> int" where
  "ram_still_required ops st =
     max 0 (MIN_FREE_RAM + op_memory_for_modules ops (writer st) - real_nr_free_low_pages st + 2 * extra_pd1_pages_allowance st)"

definition any_to_free :: "'w prep_ops \<Rightarrow> bool \<Rightarrow> 'w prep \<Rightarrow> int" where
  "any_to_free ops use_image_size_limit st =
     (let user_limit = (if use_image_size_limit \<and> 0 < image_size_limit st
                        then max 0 (current_image_size st - s32 (image_size_limit st * 256)) else 0)
      in max (max user_limit (storage_still_required ops st)) (ram_still_required ops st))"

definition need_pageset2 :: "'w prep_ops \<Rightarrow> 'w prep \<Rightarrow> bool" where
  "need_pageset2 ops st \<longleftrightarrow>
     real_nr_free_low_pages st + extra_pages_allocated st - 2 * extra_pd1_pages_allowance st - MIN_FREE_RAM -
     op_memory_for_modules ops (writer st) - size (pagedir1 (pages st)) < size (pagedir2 (pages st))"

definition amount_needed :: "'w prep_ops \<Rightarrow> bool \<Rightarrow> 'w prep \<Rightarrow> int" where
  "amount_needed ops use_image_size_limit st =
     max (highpages_ps1_to_free st + lowpages_ps1_to_free ops st) (any_to_free ops use_image_size_limit st)"

definition image_not_ready :: "'w prep_ops \<Rightarrow> bool \<Rightarrow> 'w prep \<Rightarrow> bool" where
  "image_not_ready ops use_image_size_limit st \<longleftrightarrow>
     0 < amount_needed ops use_image_size_limit st \<or> main_storage_allocated st < main_storage_needed ops True True st"

definition display_failure_reason :: "'w prep_ops \<Rightarrow> 'w prep \<Rightarrow> 'w prep" where
  "display_failure_reason ops st =
     (if storage_available st = 0 then st
      else let st1 = (if storage_still_required ops st \<noteq> 0 then set_result TOI_INSUFFICIENT_STORAGE st else st);
               st2 = (if ram_still_required ops st \<noteq> 0 then set_result TOI_UNABLE_TO_FREE_ENOUGH_MEMORY st1 else st1);
               st3 = (if highpages_ps1_to_free st \<noteq> 0 then set_result TOI_UNABLE_TO_FREE_ENOUGH_MEMORY st2 else st2)
           in if lowpages_ps1_to_free ops st \<noteq> 0 then set_result TOI_UNABLE_TO_FREE_ENOUGH_MEMORY st3 else st3)"

section \<open>Preparing\<close>

definition toi_recalculate_image_contents :: "'w prep_ops \<Rightarrow> bool \<Rightarrow> 'w prep \<Rightarrow> 'w prep" where
  "toi_recalculate_image_contents ops atomic_copy st =
     (let st1 = st\<lparr>pages := recalculate_contents atomic_copy (pages st)\<rparr>
      in if atomic_copy then st1 else st1\<lparr>storage_available := op_storage_available ops (writer st1)\<rparr>)"

text \<open>
  The loop of \<open>update_image\<close> that allocates storage: more storage may need a larger header, and a
  larger header leaves less for storage.
\<close>

partial_function (option) header_loop :: "'w prep_ops \<Rightarrow> 'w prep \<Rightarrow> 'w prep option" where
  "header_loop ops st =
     (let old_header_req = s32 (header_storage_needed st);
          w1 = op_reserve_header_space ops (s32 (header_storage_needed st)) (writer st);
          avail = op_storage_available ops w1;
          seek = min avail (main_storage_needed ops False False (st\<lparr>writer := w1\<rparr>));
          w2 = op_allocate_storage ops (s32 seek) w1;
          st1 = st\<lparr>writer := w2, storage_available := avail, main_storage_allocated := op_storage_allocated ops w2\<rparr>;
          st2 = st1\<lparr>header_storage_needed := get_header_storage_needed ops st1\<rparr>
      in if old_header_req < header_storage_needed st2 then header_loop ops st2 else Some st2)"

definition update_image :: "'w prep_ops \<Rightarrow> kernel \<Rightarrow> bool \<Rightarrow> 'w prep \<Rightarrow> 'w prep option" where
  "update_image ops k ps2_recalc st0 =
     (let st = toi_recalculate_image_contents ops False st0;
          wanted = s32 (size (pagedir1 (pages st)) + extra_pd1_pages_allowance st - get_lowmem_size (pagedir2 (pages st)));
          (got, st1) = (if extra_pages_allocated st < wanted then toi_allocate_extra_pagedir_memory k wanted st else (wanted, st))
      in if wanted < got then Some st1
         else if ps2_recalc then Some (toi_recalculate_image_contents ops False st1)
         else do {
           st2 \<leftarrow> header_loop ops st1;
           let (r, st3) = freeze_processes k st2;
           Some (toi_recalculate_image_contents ops False (if r \<noteq> 0 then set_result TOI_FREEZING_FAILED st3 else st3))
         })"

definition attempt_to_freeze :: "kernel \<Rightarrow> 'w prep \<Rightarrow> int \<times> 'w prep" where
  "attempt_to_freeze k st =
     (let (r, st1) = freeze_processes k st
      in (r, if r \<noteq> 0 then set_result TOI_FREEZING_FAILED st1 else st1))"

definition reclaim :: "(mem \<Rightarrow> mem) \<Rightarrow> 'w prep \<Rightarrow> 'w prep" where
  "reclaim f st = st\<lparr>pages := (pages st)\<lparr>memory := f (memory (pages st))\<rparr>\<rparr>"

definition eat_memory :: "'w prep_ops \<Rightarrow> kernel \<Rightarrow> 'w prep \<Rightarrow> 'w prep" where
  "eat_memory ops k st0 =
     (let st = toi_recalculate_image_contents ops False st0; amount_wanted = amount_needed ops True st
      in if image_size_limit st = -1 \<and> 0 < amount_wanted then set_result TOI_WOULD_EAT_MEMORY st
         else let (st1, did1) = (if image_size_limit st = -2
                                 then (toi_recalculate_image_contents ops False (reclaim (drop_pagecache k) st), True)
                                 else (st, False));
                  amount1 = (if image_size_limit st = -2 then amount_needed ops True st1 else amount_wanted);
                  (st2, did2) =
                    (if 0 < amount1 \<and> \<not> aborted st1 \<and> image_size_limit st1 \<noteq> -1
                     then let s = toi_recalculate_image_contents ops False (reclaim (shrink_all_memory k (amount1 + 50)) st1);
                              (r, s1) = freeze_processes k s
                          in (if r \<noteq> 0 then set_result TOI_FREEZING_FAILED s1 else s1, True)
                     else (st1, did1))
              in if did2 then toi_recalculate_image_contents ops False st2 else st2)"

text \<open>
  The loop of \<open>toi_prepare_image\<close>, at most \<open>MAX_TRIES\<close> rounds; \<open>n\<close> is the number of rounds left.
\<close>

fun prepare_loop :: "'w prep_ops \<Rightarrow> kernel \<Rightarrow> nat \<Rightarrow> 'w prep \<Rightarrow> 'w prep option" where
  "prepare_loop ops k 0 st = Some st"
| "prepare_loop ops k (Suc n) st =
     (let st1 = eat_memory ops k st
      in if aborted st1 then Some st1
         else do {
           st2 \<leftarrow> update_image ops k False st1;
           if image_not_ready ops True st2 \<and> \<not> aborted st2 then prepare_loop ops k n st2 else Some st2
         })"

definition finish_prepare :: "'w prep_ops \<Rightarrow> kernel \<Rightarrow> 'w prep \<Rightarrow> (int \<times> 'w prep) option" where
  "finish_prepare ops k st =
     (let result = image_not_ready ops False st
      in do {
        st1 \<leftarrow> (if aborted st then Some st
               else if result then Some (set_result TOI_UNABLE_TO_PREPARE_IMAGE (display_failure_reason ops st))
               else if \<not> need_pageset2 ops st \<and> TOI_NO_PS2_IF_UNNEEDED \<in> p_actions (pages st)
               then update_image ops k True (st\<lparr>pages := (pages st)\<lparr>no_ps2_needed := True\<rparr>\<rparr>)
               else Some st);
        Some (if result then 1 else op_allocate_checksum_pages ops (size (pagedir2 (pages st1))), st1)
      })"

definition toi_prepare_image :: "'w prep_ops \<Rightarrow> kernel \<Rightarrow> (nat \<Rightarrow> bool) \<Rightarrow> 'w prep \<Rightarrow> (int \<times> 'w prep) option" where
  "toi_prepare_image ops k got st0 =
     (let st = st0\<lparr>main_storage_allocated := 0, pages := (pages st0)\<lparr>no_ps2_needed := False\<rparr>\<rparr>;
          (r, st1) = attempt_to_freeze k st
      in if r \<noteq> 0 then Some (1, st1)
         else let st2 = (if extra_pd1_pages_allowance st1 = 0 then get_extra_pd1_allowance k st1 else st1);
                  st3 = st2\<lparr>storage_available := op_storage_available ops (writer st2)\<rparr>
              in if storage_available st3 = 0
                 then Some (1, set_result TOI_NOSTORAGE_AVAILABLE (display_failure_reason ops st3))
                 else let (b, pg) = build_attention_list got (pages st3); st4 = st3\<lparr>pages := pg\<rparr>
                      in if b \<noteq> 0 then Some (1, set_result TOI_UNABLE_TO_PREPARE_IMAGE st4)
                         else do { st5 \<leftarrow> prepare_loop ops k (nat MAX_TRIES) st4; finish_prepare ops k st5 })"

section \<open>The extra memory\<close>

text \<open>The list of blocks, their number of pages and their nosave bits agree.\<close>

definition extras_ok :: "'w prep \<Rightarrow> bool" where
  "extras_ok st \<longleftrightarrow> extra_pages_allocated st = (\<Sum>b\<leftarrow>extras_list st. 2 ^ snd b) \<and>
     (\<forall>b \<in> set (extras_list st). set (order_pfns b) \<subseteq> nosave_map (pages st))"

lemma extra_loop_step:
  assumes "try_pages k (shrink_order order n) m = Some (page, o2, m')" and "0 < n"
  shows "2 ^ o2 \<le> n"
proof -
  have "(2 :: nat) ^ o2 \<le> 2 ^ shrink_order order n"
    using try_pages_order [OF assms(1)] by (simp add: power_increasing)
  with shrink_order_fits [OF assms(2), of order] show ?thesis by linarith
qed

lemma extra_loop_bounds:
  "extra_pages_allocated st \<le> extra_pages_allocated (extra_loop k n order st) \<and>
   extra_pages_allocated (extra_loop k n order st) \<le> extra_pages_allocated st + int n"
proof (induction k n order st rule: extra_loop.induct)
  case (1 k n order st)
  note unfold = extra_loop.simps [of k n order st]
  let ?st1 = "st\<lparr>slabs := Suc (slabs st)\<rparr>"
  show ?case
  proof (cases "n = 0 \<or> \<not> slab_ok k (slabs st) \<or> try_pages k (shrink_order order n) (memory (pages ?st1)) = None")
    case True
    with unfold show ?thesis by (auto simp: Let_def)
  next
    case False
    then obtain page o2 m where t: "try_pages k (shrink_order order n) (memory (pages ?st1)) = Some (page, o2, m)" by auto
    have fits: "2 ^ o2 \<le> n" using extra_loop_step [OF t] False by simp
    then have num: "int (n - 2 ^ o2) = int n - 2 ^ o2" by (simp add: of_nat_diff)
    have eq: "extra_loop k n order st = extra_loop k (n - 2 ^ o2) o2 (add_extras page o2 m ?st1)"
      using unfold False t by (simp add: Let_def)
    have "extra_pages_allocated (add_extras page o2 m ?st1) \<le> extra_pages_allocated (extra_loop k n order st) \<and>
        extra_pages_allocated (extra_loop k n order st) \<le> extra_pages_allocated (add_extras page o2 m ?st1) + int (n - 2 ^ o2)"
      unfolding eq by (rule "1.IH" [OF _ refl refl _ t refl refl]) (use False in auto)
    moreover have "extra_pages_allocated (add_extras page o2 m ?st1) = extra_pages_allocated st + 2 ^ o2"
      by (simp add: add_extras_def)
    moreover have "(0 :: int) \<le> 2 ^ o2" by simp
    ultimately show ?thesis using num by linarith
  qed
qed

lemma extra_loop_ok: "extras_ok st \<Longrightarrow> extras_ok (extra_loop k n order st)"
proof (induction k n order st rule: extra_loop.induct)
  case (1 k n order st)
  note unfold = extra_loop.simps [of k n order st]
  let ?st1 = "st\<lparr>slabs := Suc (slabs st)\<rparr>"
  have ok1: "extras_ok ?st1" using "1.prems" by (simp add: extras_ok_def)
  show ?case
  proof (cases "n = 0 \<or> \<not> slab_ok k (slabs st) \<or> try_pages k (shrink_order order n) (memory (pages ?st1)) = None")
    case True
    with unfold ok1 "1.prems" show ?thesis by (auto simp: Let_def)
  next
    case False
    then obtain page o2 m where t: "try_pages k (shrink_order order n) (memory (pages ?st1)) = Some (page, o2, m)" by auto
    have eq: "extra_loop k n order st = extra_loop k (n - 2 ^ o2) o2 (add_extras page o2 m ?st1)"
      using unfold False t by (simp add: Let_def)
    have "extras_ok (add_extras page o2 m ?st1)" using ok1 by (auto simp: extras_ok_def add_extras_def)
    then show ?thesis unfolding eq by (intro "1.IH" [OF _ refl refl _ t refl refl]) (use False in auto)
  qed
qed

lemma extra_loop_all:
  assumes "\<forall>i. slab_ok k i" and "\<forall>m. get_free_pages k 0 m \<noteq> None"
  shows "extra_pages_allocated (extra_loop k n order st) = extra_pages_allocated st + int n"
  using assms
proof (induction k n order st rule: extra_loop.induct)
  case (1 k n order st)
  note unfold = extra_loop.simps [of k n order st]
  let ?st1 = "st\<lparr>slabs := Suc (slabs st)\<rparr>"
  have some: "try_pages k i m \<noteq> None" for i m
    using "1.prems"(2) by (induction i) (auto split: option.splits)
  show ?case
  proof (cases "n = 0")
    case False
    obtain page o2 m where t: "try_pages k (shrink_order order n) (memory (pages ?st1)) = Some (page, o2, m)"
      using some [of "shrink_order order n" "memory (pages ?st1)"] by auto
    have fits: "2 ^ o2 \<le> n" using extra_loop_step [OF t] False by simp
    then have num: "int (n - 2 ^ o2) = int n - 2 ^ o2" by (simp add: of_nat_diff)
    have eq: "extra_loop k n order st = extra_loop k (n - 2 ^ o2) o2 (add_extras page o2 m ?st1)"
      using unfold False t "1.prems" by (simp add: Let_def)
    have "extra_pages_allocated (extra_loop k n order st) = extra_pages_allocated (add_extras page o2 m ?st1) + int (n - 2 ^ o2)"
      unfolding eq by (rule "1.IH" [OF _ refl refl _ t refl refl]) (use False "1.prems" in auto)
    then show ?thesis unfolding num by (simp add: add_extras_def)
  qed (use unfold in simp)
qed

lemma s32_small: "0 \<le> x \<Longrightarrow> x < 2 ^ 31 \<Longrightarrow> s32 x = x"
  by simp

text \<open>
  C31. The extra memory for the atomic copy: never more pages are allocated than were asked for,
  exactly as many when no allocation fails, and the count, the list of blocks and the nosave bits
  stay consistent. In particular \<open>update_image\<close> never sees more pages than it wanted: its test
  \<open>wanted < got\<close> cannot succeed, and a shortage goes unnoticed there.
\<close>

theorem extra_pagedir_memory:
  assumes "extras_ok st" and "0 \<le> extra_pages_allocated st" and "extra_pages_allocated st < wanted" and "wanted < 2 ^ 31"
    and "toi_allocate_extra_pagedir_memory k wanted st = (got, st')"
  shows "got = extra_pages_allocated st' \<and> extra_pages_allocated st \<le> got \<and> got \<le> wanted \<and> extras_ok st' \<and>
    ((\<forall>i. slab_ok k i) \<and> (\<forall>m. get_free_pages k 0 m \<noteq> None) \<longrightarrow> got = wanted)"
proof -
  let ?n = "nat (wanted - extra_pages_allocated st)"
  let ?o = "if MAX_ORDER \<le> fls ?n then MAX_ORDER - 1 else fls ?n"
  have num: "s32 (wanted - extra_pages_allocated st) = wanted - extra_pages_allocated st"
    using assms(2-4) by (intro s32_small) simp_all
  have n: "int ?n = wanted - extra_pages_allocated st" using assms(3) by simp
  have "toi_allocate_extra_pagedir_memory k wanted st =
      (s32 (extra_pages_allocated (extra_loop k ?n ?o st)), extra_loop k ?n ?o st)"
    unfolding toi_allocate_extra_pagedir_memory_def num Let_def using assms(3) by simp
  then have st': "st' = extra_loop k ?n ?o st" and got: "got = s32 (extra_pages_allocated st')"
    using assms(5) by simp_all
  note b = extra_loop_bounds [of st k ?n ?o, unfolded n]
  have "got = extra_pages_allocated st'" unfolding got using b assms(2,4) st' by (intro s32_small) simp_all
  with b st' extra_loop_ok [OF assms(1)] extra_loop_all [of k ?n ?o st] n show ?thesis by auto
qed

section \<open>A prepared image fits\<close>

lemma c_div_2_le: "c_div x 2 \<le> 0 \<longleftrightarrow> x \<le> 1"
  by (auto simp: c_div_def)

lemma round_up_2_le: "round_up x 2 \<le> 0 \<longleftrightarrow> x \<le> 0"
  by (simp add: round_up_def c_div_2_le)

text \<open>
  What it means for the image to fit: the storage allocated and available holds it at the expected compression, low
  memory (free, allocated already, or given up by pageset 2) holds the atomic copy of the low pages of pageset 1 with
  what drivers and modules need, and enough low memory stays free.
\<close>

definition image_fits :: "'w prep_ops \<Rightarrow> 'w prep \<Rightarrow> bool" where
  "image_fits ops st \<longleftrightarrow>
     main_storage_needed ops True True st \<le> main_storage_allocated st \<and>
     main_storage_needed ops True True st \<le> storage_available st \<and>
     get_lowmem_size (pagedir1 (pages st)) + extra_pd1_pages_allowance st + MIN_FREE_RAM + op_memory_for_modules ops (writer st) \<le>
       get_lowmem_size (pagedir2 (pages st)) + real_nr_free_low_pages st + extra_pages_allocated st \<and>
     MIN_FREE_RAM + op_memory_for_modules ops (writer st) + 2 * extra_pd1_pages_allowance st \<le> real_nr_free_low_pages st"

lemma image_ready_fits: "\<not> image_not_ready ops b st \<Longrightarrow> image_fits ops st"
proof -
  assume r: "\<not> image_not_ready ops b st"
  then have high: "highpages_ps1_to_free st + lowpages_ps1_to_free ops st \<le> 0" and any: "any_to_free ops b st \<le> 0"
    and sto: "main_storage_needed ops True True st \<le> main_storage_allocated st"
    by (auto simp: image_not_ready_def amount_needed_def less_max_iff_disj)
  from any have "storage_still_required ops st \<le> 0" "ram_still_required ops st \<le> 0"
    by (simp_all add: any_to_free_def Let_def)
  moreover have "0 \<le> highpages_ps1_to_free st" "0 \<le> lowpages_ps1_to_free ops st"
    by (simp_all add: highpages_ps1_to_free_def lowpages_ps1_to_free_def)
  with high have "highpages_ps1_to_free st \<le> 0" "lowpages_ps1_to_free ops st \<le> 0" by linarith+
  ultimately show ?thesis
    using sto
    by (simp add: image_fits_def storage_still_required_def ram_still_required_def
        lowpages_ps1_to_free_def round_up_2_le)
qed

lemma recalc_kept: "kept (pages st) (pages (toi_recalculate_image_contents ops b st))"
  using kept_recalculate [of "pages st" b] by (cases b) (simp_all add: toi_recalculate_image_contents_def Let_def)

lemma extra_loop_bits:
  "p_actions (pages (extra_loop k n order st)) = p_actions (pages st) \<and>
   p_results (pages (extra_loop k n order st)) = p_results (pages st)"
proof (induction k n order st rule: extra_loop.induct)
  case (1 k n order st)
  note unfold = extra_loop.simps [of k n order st]
  let ?st1 = "st\<lparr>slabs := Suc (slabs st)\<rparr>"
  show ?case
  proof (cases "n = 0 \<or> \<not> slab_ok k (slabs st) \<or> try_pages k (shrink_order order n) (memory (pages ?st1)) = None")
    case True
    with unfold show ?thesis by (auto simp: Let_def)
  next
    case False
    then obtain page o2 m where t: "try_pages k (shrink_order order n) (memory (pages ?st1)) = Some (page, o2, m)" by auto
    have eq: "extra_loop k n order st = extra_loop k (n - 2 ^ o2) o2 (add_extras page o2 m ?st1)"
      using unfold False t by (simp add: Let_def)
    have "p_actions (pages (extra_loop k n order st)) = p_actions (pages (add_extras page o2 m ?st1)) \<and>
        p_results (pages (extra_loop k n order st)) = p_results (pages (add_extras page o2 m ?st1))"
      unfolding eq by (rule "1.IH" [OF _ refl refl _ t refl refl]) (use False in auto)
    then show ?thesis by (simp add: add_extras_def)
  qed
qed

lemma allocate_extra_bits:
  "p_actions (pages (snd (toi_allocate_extra_pagedir_memory k w st))) = p_actions (pages st)"
  "p_results (pages (snd (toi_allocate_extra_pagedir_memory k w st))) = p_results (pages st)"
  by (simp_all add: toi_allocate_extra_pagedir_memory_def Let_def extra_loop_bits)

lemma extra_loop_header:
  "header_storage_needed (extra_loop k n order st) = header_storage_needed st \<and> freezes (extra_loop k n order st) = freezes st"
proof (induction k n order st rule: extra_loop.induct)
  case (1 k n order st)
  note unfold = extra_loop.simps [of k n order st]
  show ?case unfolding unfold using "1.IH" by (auto simp: Let_def add_extras_def split: option.splits)
qed

lemma allocate_extra_header:
  "header_storage_needed (snd (toi_allocate_extra_pagedir_memory k w st)) = header_storage_needed st"
  "freezes (snd (toi_allocate_extra_pagedir_memory k w st)) = freezes st"
  by (simp_all add: toi_allocate_extra_pagedir_memory_def Let_def extra_loop_header)

lemma update_ps2_actions:
  assumes "update_image ops k True st = Some st'"
  shows "p_actions (pages st') = p_actions (pages st)"
proof -
  let ?st = "toi_recalculate_image_contents ops False st"
  let ?w = "s32 (size (pagedir1 (pages ?st)) + extra_pd1_pages_allowance ?st - get_lowmem_size (pagedir2 (pages ?st)))"
  obtain got st1 where st1: "(if extra_pages_allocated ?st < ?w then toi_allocate_extra_pagedir_memory k ?w ?st else (?w, ?st)) = (got, st1)"
    by force
  have "p_actions (pages st1) = p_actions (pages ?st)"
    using st1 allocate_extra_bits(1) [of k ?w ?st] by (auto split: if_splits)
  moreover have "st' = st1 \<or> st' = toi_recalculate_image_contents ops False st1"
    using assms st1 unfolding update_image_def Let_def by (auto split: if_splits)
  ultimately show ?thesis
    using recalc_kept [of st ops False] recalc_kept [of st1 ops False] by (auto simp: kept_def)
qed

text \<open>
  C3. When \<open>toi_prepare_image\<close> reports success and dropping an unneeded pageset 2
  (\<open>TOI_NO_PS2_IF_UNNEEDED\<close>) is not enabled, the storage allocated and the storage available hold the
  image at the expected compression, low memory holds the atomic copy of the low pages of pageset 1
  with the allowance for drivers, the modules and the minimum of free memory, and the minimum, the
  modules and twice the allowance are free now. (About high memory the code guarantees less, see
  \<open>ps1_pages_to_free\<close>.)
\<close>

theorem prepared_image_fits:
  assumes "toi_prepare_image ops k got st = Some (0, st')" and "TOI_NO_PS2_IF_UNNEEDED \<notin> p_actions (pages st')"
  shows "image_fits ops st'"
proof -
  obtain st5 where fin: "finish_prepare ops k st5 = Some (0, st')"
    using assms(1) by (auto simp: toi_prepare_image_def Let_def split: if_splits prod.splits Option.bind_splits)
  have ready: "\<not> image_not_ready ops False st5"
    using fin by (auto simp: finish_prepare_def Let_def split: if_splits Option.bind_splits)
  have "st' = st5"
    using fin ready assms(2) by (auto simp: finish_prepare_def Let_def split: if_splits Option.bind_splits dest: update_ps2_actions)
  with image_ready_fits [OF ready] show ?thesis by simp
qed

lemma c_div_2_le_iff: "0 \<le> n \<Longrightarrow> c_div x 2 \<le> n \<longleftrightarrow> x \<le> 2 * n + 1"
  by (auto simp: c_div_def)

lemma round_up_2_le_iff: "0 \<le> n \<Longrightarrow> round_up x 2 \<le> n \<longleftrightarrow> x \<le> 2 * n"
  by (simp add: round_up_def c_div_2_le_iff)

text \<open>
  C32. The number of low pages of pageset 1 to free is exact: freeing \<open>n\<close> of them (one page less to copy and one more
  to copy to) is enough for the atomic copy if and only if \<open>n\<close> is at least what \<open>lowpages_ps1_to_free\<close>
  asks for. The figure for high memory is not: it halves the need before it subtracts the free pages,
  so it is satisfied by \<open>n\<close> as soon as the need is at most twice the free pages and \<open>n\<close> together, and
  when the need is more than the free pages and at most twice as many, the shortage goes unseen.
\<close>

theorem ps1_pages_to_free:
  assumes "0 \<le> n" and "0 \<le> real_nr_free_high_pages st"
  shows "(lowpages_ps1_to_free ops st \<le> n \<longleftrightarrow>
      (get_lowmem_size (pagedir1 (pages st)) - n) + extra_pd1_pages_allowance st + MIN_FREE_RAM + op_memory_for_modules ops (writer st) \<le>
        get_lowmem_size (pagedir2 (pages st)) + (real_nr_free_low_pages st + n) + extra_pages_allocated st) \<and>
    (highpages_ps1_to_free st \<le> n \<longleftrightarrow>
      size_high (pagedir1 (pages st)) - size_high (pagedir2 (pages st)) \<le> 2 * (real_nr_free_high_pages st + n)) \<and>
    (real_nr_free_high_pages st < size_high (pagedir1 (pages st)) - size_high (pagedir2 (pages st)) \<and>
      size_high (pagedir1 (pages st)) - size_high (pagedir2 (pages st)) \<le> 2 * real_nr_free_high_pages st \<longrightarrow>
      highpages_ps1_to_free st = 0)"
proof -
  have high: "highpages_ps1_to_free st \<le> m \<longleftrightarrow>
      size_high (pagedir1 (pages st)) - size_high (pagedir2 (pages st)) \<le> 2 * (real_nr_free_high_pages st + m)" if "0 \<le> m" for m
    using round_up_2_le_iff [of "real_nr_free_high_pages st + m"] assms(2) that
    by (simp add: highpages_ps1_to_free_def algebra_simps)
  have low: "lowpages_ps1_to_free ops st \<le> n \<longleftrightarrow>
      (get_lowmem_size (pagedir1 (pages st)) - n) + extra_pd1_pages_allowance st + MIN_FREE_RAM + op_memory_for_modules ops (writer st) \<le>
        get_lowmem_size (pagedir2 (pages st)) + (real_nr_free_low_pages st + n) + extra_pages_allocated st"
    using assms(1) by (auto simp: lowpages_ps1_to_free_def round_up_2_le_iff)
  have "0 \<le> highpages_ps1_to_free st" by (simp add: highpages_ps1_to_free_def)
  with low high [OF assms(1)] high [of 0] show ?thesis by auto
qed

text \<open>
  C27. A cycle that could not be prepared is marked as aborted: whenever \<open>toi_prepare_image\<close> fails
  for a reason other than the checksum pages, a result bit with \<open>TOI_ABORTED\<close> is set.
\<close>

theorem failed_prepare_aborts:
  assumes "toi_prepare_image ops k got st = Some (r, st')" and "r \<noteq> 0" and "\<forall>n. op_allocate_checksum_pages ops n = 0"
  shows "TOI_ABORTED \<in> p_results (pages st')"
proof -
  have set: "TOI_ABORTED \<in> p_results (pages (set_result b s))" for b and s :: "'a prep" by (simp add: set_result_def)
  have fin: "TOI_ABORTED \<in> p_results (pages st')" if "finish_prepare ops k s = Some (r, st')" for s
    using that assms(2,3) set by (auto simp: finish_prepare_def aborted_def Let_def split: if_splits Option.bind_splits)
  show ?thesis
    using assms(1) set fin
    by (auto simp: toi_prepare_image_def attempt_to_freeze_def freeze_processes_def Let_def split: if_splits prod.splits Option.bind_splits)
qed

section \<open>Allocating storage ends\<close>

text \<open>The figures are bounded: \<open>H\<close> pages always hold the header.\<close>

definition header_bounded :: "'w prep_ops \<Rightarrow> int \<Rightarrow> bool" where
  "header_bounded ops H \<longleftrightarrow> H < 2 ^ 31 \<and> (\<forall>st :: 'w prep. 0 \<le> get_header_storage_needed ops st \<and> get_header_storage_needed ops st \<le> H)"

lemma header_loop_ends:
  assumes "header_bounded ops H" and "0 \<le> header_storage_needed st" and "header_storage_needed st < 2 ^ 31"
  shows "\<exists>st' w h s. header_loop ops st = Some st' \<and> writer st' = op_allocate_storage ops s (op_reserve_header_space ops h w) \<and>
    header_storage_needed st' = get_header_storage_needed ops st' \<and> header_storage_needed st' \<le> h \<and>
    main_storage_allocated st' = op_storage_allocated ops (writer st') \<and> freezes st' = freezes st"
  using assms(2,3)
proof (induction "nat (H - header_storage_needed st)" arbitrary: st rule: less_induct)
  case less
  let ?h = "header_storage_needed st"
  have h: "s32 ?h = ?h" using less.prems by (intro s32_small) simp_all
  define w1 where "w1 = op_reserve_header_space ops ?h (writer st)"
  define sk where "sk = min (op_storage_available ops w1) (main_storage_needed ops False False (st\<lparr>writer := w1\<rparr>))"
  define w2 where "w2 = op_allocate_storage ops (s32 sk) w1"
  define st1 where "st1 = st\<lparr>writer := w2, storage_available := op_storage_available ops w1, main_storage_allocated := op_storage_allocated ops w2\<rparr>"
  define st2 where "st2 = st1\<lparr>header_storage_needed := get_header_storage_needed ops st1\<rparr>"
  have hs: "header_storage_needed st2 = get_header_storage_needed ops st1" by (simp add: st2_def)
  have unfold: "header_loop ops st = (if ?h < header_storage_needed st2 then header_loop ops st2 else Some st2)"
    by (subst header_loop.simps) (simp add: Let_def h hs w1_def [symmetric] sk_def [symmetric] w2_def [symmetric] st1_def [symmetric] st2_def [symmetric])
  have b: "0 \<le> header_storage_needed st2" "header_storage_needed st2 \<le> H" "H < 2 ^ 31"
    using assms(1) by (simp_all add: header_bounded_def st2_def)
  have same: "get_header_storage_needed ops st2 = header_storage_needed st2" "writer st2 = w2"
    "main_storage_allocated st2 = op_storage_allocated ops w2" "freezes st2 = freezes st"
    by (simp_all add: st2_def st1_def get_header_storage_needed_def)
  show ?case
  proof (cases "?h < header_storage_needed st2")
    case True
    with b have "nat (H - header_storage_needed st2) < nat (H - ?h)" by simp
    from less.hyps [OF this] b True unfold same(4) show ?thesis by simp
  next
    case False
    then have "writer st2 = op_allocate_storage ops (s32 sk) (op_reserve_header_space ops ?h (writer st)) \<and> header_storage_needed st2 \<le> ?h"
      using same by (simp add: w2_def w1_def)
    with False unfold same show ?thesis
      by (intro exI [of _ st2] exI [of _ "writer st"] exI [of _ ?h] exI [of _ "s32 sk"]) simp
  qed
qed

lemma recalculate_keeps:
  "header_storage_needed (toi_recalculate_image_contents ops c s) = header_storage_needed s"
  "freezes (toi_recalculate_image_contents ops c s) = freezes s"
  by (simp_all add: toi_recalculate_image_contents_def Let_def)

text \<open>The size of the header is a non-negative \<open>int\<close>, and at most \<open>n\<close> calls of \<open>freeze_processes\<close> were made since \<open>st\<close>.\<close>

definition preparing :: "nat \<Rightarrow> 'w prep \<Rightarrow> 'w prep \<Rightarrow> bool" where
  "preparing n st st' \<longleftrightarrow> 0 \<le> header_storage_needed st' \<and> header_storage_needed st' < 2 ^ 31 \<and> freezes st' \<le> freezes st + n"

lemma preparing_trans: "preparing m st st1 \<Longrightarrow> preparing n st1 st2 \<Longrightarrow> preparing (m + n) st st2"
  by (simp add: preparing_def)

lemma preparing_mono: "preparing m st st' \<Longrightarrow> m \<le> n \<Longrightarrow> preparing n st st'"
  by (simp add: preparing_def)

lemma update_image_ends:
  assumes "header_bounded ops H" and "0 \<le> header_storage_needed st" and "header_storage_needed st < 2 ^ 31"
  shows "\<exists>st'. update_image ops k b st = Some st' \<and> preparing (if b then 0 else 1) st st'"
proof -
  let ?st = "toi_recalculate_image_contents ops False st"
  let ?w = "s32 (size (pagedir1 (pages ?st)) + extra_pd1_pages_allowance ?st - get_lowmem_size (pagedir2 (pages ?st)))"
  obtain got st1 where st1: "(if extra_pages_allocated ?st < ?w then toi_allocate_extra_pagedir_memory k ?w ?st else (?w, ?st)) = (got, st1)"
    by force
  have h1: "header_storage_needed st1 = header_storage_needed st" "freezes st1 = freezes st"
    using st1 allocate_extra_header [of k ?w ?st] by (auto simp: recalculate_keeps split: if_splits)
  obtain st2 where st2: "header_loop ops st1 = Some st2" "header_storage_needed st2 = get_header_storage_needed ops st2" "freezes st2 = freezes st"
    using header_loop_ends [OF assms(1), of st1] assms(2,3) h1 by auto
  have "0 \<le> header_storage_needed st2" "header_storage_needed st2 < 2 ^ 31"
    using assms(1) st2(2) by (auto simp: header_bounded_def) (metis order_le_less_trans)+
  then show ?thesis
    using st1 st2(1,3) assms(2,3) h1
    by (auto simp: update_image_def Let_def freeze_processes_def recalculate_keeps set_result_def preparing_def)
qed

lemma eat_memory_keeps:
  "header_storage_needed (eat_memory ops k st) = header_storage_needed st" "freezes (eat_memory ops k st) \<le> Suc (freezes st)"
  by (simp_all add: eat_memory_def toi_recalculate_image_contents_def reclaim_def set_result_def freeze_processes_def Let_def)

lemma prepare_loop_ends:
  assumes "header_bounded ops H" and "0 \<le> header_storage_needed st" and "header_storage_needed st < 2 ^ 31"
  shows "\<exists>st'. prepare_loop ops k n st = Some st' \<and> preparing (2 * n) st st'"
  using assms(2,3)
proof (induction n arbitrary: st)
  case (Suc n)
  let ?e = "eat_memory ops k st"
  have e: "preparing 1 st ?e" using Suc.prems eat_memory_keeps [of ops k st] by (simp add: preparing_def)
  then have h: "0 \<le> header_storage_needed ?e" "header_storage_needed ?e < 2 ^ 31" by (simp_all add: preparing_def)
  obtain st2 where st2: "update_image ops k False ?e = Some st2" "preparing 1 ?e st2"
    using update_image_ends [OF assms(1) h, of k False] by auto
  have p2: "preparing 2 st st2" using preparing_trans [OF e st2(2)] by (simp add: numeral_2_eq_2)
  then obtain st3 where st3: "prepare_loop ops k n st2 = Some st3" "preparing (2 * n) st2 st3"
    using Suc.IH [of st2] by (auto simp: preparing_def)
  have "preparing (2 * Suc n) st ?e" "preparing (2 * Suc n) st st2" "preparing (2 * Suc n) st st3"
    using preparing_mono [OF e] preparing_mono [OF p2] preparing_trans [OF p2 st3(2)] by simp_all
  then show ?case using st2(1) st3(1) by (simp add: Let_def)
qed (simp add: preparing_def)

lemma finish_prepare_ends:
  assumes "header_bounded ops H" and "0 \<le> header_storage_needed st" and "header_storage_needed st < 2 ^ 31"
  shows "\<exists>r st'. finish_prepare ops k st = Some (r, st') \<and> freezes st' \<le> freezes st"
proof -
  let ?st = "st\<lparr>pages := (pages st)\<lparr>no_ps2_needed := True\<rparr>\<rparr>"
  obtain s where "update_image ops k True ?st = Some s" "preparing 0 ?st s"
    using update_image_ends [OF assms(1), of ?st k True] assms(2,3) by auto
  then show ?thesis by (simp add: finish_prepare_def display_failure_reason_def set_result_def preparing_def Let_def)
qed

text \<open>
  C18. \<open>toi_prepare_image\<close> returns: although allocating storage may need a larger header, for which
  more storage is reserved, the loop around it ends as soon as the size of the header the modules ask
  for is bounded (below \<open>2 ^ 31\<close> pages, as is the size recorded at the start), whatever the allocator
  does. And there are at most two rounds of freeing memory and updating the image: \<open>freeze_processes\<close> is called at
  most five times, once at the start and twice in each round.
\<close>

theorem prepare_image_ends:
  assumes "header_bounded ops H" and "0 \<le> header_storage_needed st" and "header_storage_needed st < 2 ^ 31"
  shows "\<exists>r st'. toi_prepare_image ops k got st = Some (r, st') \<and> freezes st' \<le> freezes st + 5"
proof -
  let ?st = "st\<lparr>main_storage_allocated := 0, pages := (pages st)\<lparr>no_ps2_needed := False\<rparr>\<rparr>"
  obtain r st1 where st1: "attempt_to_freeze k ?st = (r, st1)" by force
  then have h1: "header_storage_needed st1 = header_storage_needed st" "freezes st1 = freezes st + 1"
    by (auto simp: attempt_to_freeze_def freeze_processes_def set_result_def)
  let ?st2 = "if extra_pd1_pages_allowance st1 = 0 then get_extra_pd1_allowance k st1 else st1"
  let ?st3 = "?st2\<lparr>storage_available := op_storage_available ops (writer ?st2)\<rparr>"
  have h3: "header_storage_needed ?st3 = header_storage_needed st" "freezes ?st3 = freezes st + 1"
    using h1 by (simp_all add: get_extra_pd1_allowance_def Let_def split: option.splits)
  obtain b pg where b: "build_attention_list got (pages ?st3) = (b, pg)" by force
  have h4: "header_storage_needed (?st3\<lparr>pages := pg\<rparr>) = header_storage_needed st" using h3 by simp
  obtain st5 where st5: "prepare_loop ops k (nat MAX_TRIES) (?st3\<lparr>pages := pg\<rparr>) = Some st5"
    "preparing (2 * nat MAX_TRIES) (?st3\<lparr>pages := pg\<rparr>) st5"
    using prepare_loop_ends [OF assms(1), of "?st3\<lparr>pages := pg\<rparr>" k "nat MAX_TRIES"] assms(2,3) h4 by auto
  then have f5: "freezes st5 \<le> freezes st + 5" using h3 by (simp add: preparing_def)
  obtain r' st' where "finish_prepare ops k st5 = Some (r', st')" "freezes st' \<le> freezes st5"
    using finish_prepare_ends [OF assms(1)] st5(2) unfolding preparing_def by blast
  then show ?thesis
    using st1 b st5(1) f5 h1 h3(2) unfolding toi_prepare_image_def Let_def
    by (auto simp del: nat_numeral simp: set_result_def display_failure_reason_def Let_def)
qed

section \<open>An example\<close>

text \<open>No tasks and no pages to save, 5000 free pages, storage for 1000 pages.\<close>

definition idle_mem :: mem where
  "idle_mem = demo_mem\<lparr>zones := [(hd (zones demo_mem))\<lparr>zone_spanned := 0, free_blocks := [], pcp_pages := [], nr_free := 5000\<rparr>], tasks := []\<rparr>"

definition demo_kernel :: kernel where
  "demo_kernel = \<lparr>freeze = \<lambda>_. 0, slab_ok = \<lambda>_. True, get_free_pages = \<lambda>order m. Some (64, m), free_pages = \<lambda>_ _ m. m,
     shrink_all_memory = \<lambda>_ m. m, drop_pagecache = \<lambda>m. m, free_when_atomic = \<lambda>_. None\<rparr>"

definition demo_ops :: "int prep_ops" where
  "demo_ops = \<lparr>op_storage_available = \<lambda>_. 1000, op_reserve_header_space = \<lambda>_ w. w, op_allocate_storage = \<lambda>s _. s,
     op_storage_allocated = \<lambda>w. w, op_header_storage_for_modules = \<lambda>_. 0, op_memory_for_modules = \<lambda>_. 0,
     op_expected_compression_ratio = \<lambda>_. 100, op_pageflags_space_needed = 0, op_sizeof_toi_header = 100,
     op_allocate_checksum_pages = \<lambda>_. 0\<rparr>"

lemma demo_ops_simps [simp]:
  "op_storage_available demo_ops w = 1000" "op_reserve_header_space demo_ops h w = w" "op_allocate_storage demo_ops h w = h"
  "op_storage_allocated demo_ops w = w" "op_header_storage_for_modules demo_ops w = 0" "op_memory_for_modules demo_ops w = 0"
  "op_expected_compression_ratio demo_ops w = 100" "op_pageflags_space_needed demo_ops = 0" "op_sizeof_toi_header demo_ops = 100"
  "op_allocate_checksum_pages demo_ops n = 0"
  by (simp_all add: demo_ops_def)

definition demo_prep :: "int prep" where
  "demo_prep = \<lparr>pages = demo_pages\<lparr>memory := idle_mem\<rparr>, writer = 0, main_storage_allocated = 0, storage_available = 0,
     header_storage_needed = 1, extra_pd1_pages_allowance = 1, image_size_limit = 0, extras_list = [], extra_pages_allocated = 0,
     freezes = 0, slabs = 0\<rparr>"

lemma demo_header_bounded: "header_bounded demo_ops 1"
  by (simp add: header_bounded_def get_header_storage_needed_def demo_ops_def round_up_def c_div_def)

theorem extra_pagedir_memory_witness:
  "\<exists>st'. toi_allocate_extra_pagedir_memory demo_kernel 7 demo_prep = (7, st') \<and> extra_pages_allocated st' = 7"
proof -
  obtain got st' where run: "toi_allocate_extra_pagedir_memory demo_kernel 7 demo_prep = (got, st')" by force
  from extra_pagedir_memory [OF _ _ _ _ run] run show ?thesis
    by (auto simp: extras_ok_def demo_prep_def demo_kernel_def)
qed

theorem prepare_image_ends_witness:
  "\<exists>r st'. toi_prepare_image demo_ops demo_kernel (\<lambda>_. True) demo_prep = Some (r, st') \<and> freezes st' \<le> 5"
  using prepare_image_ends [OF demo_header_bounded, of demo_prep demo_kernel "\<lambda>_. True"] by (simp add: demo_prep_def)

text \<open>Ten pages of high memory are needed and five are free: the code asks for none.\<close>

definition high_short :: "int prep" where
  "high_short = demo_prep\<lparr>pages := demo_pages\<lparr>
     memory := idle_mem\<lparr>zones := [(hd (zones idle_mem))\<lparr>zone_highmem := True, nr_free := 5\<rparr>]\<rparr>,
     pagedir1 := \<lparr>size = 10, size_high = 10\<rparr>\<rparr>\<rparr>"

theorem ps1_pages_to_free_witness:
  "real_nr_free_high_pages high_short = 5 \<and> size_high (pagedir1 (pages high_short)) - size_high (pagedir2 (pages high_short)) = 10 \<and>
   highpages_ps1_to_free high_short = 0"
proof -
  have f: "real_nr_free_high_pages high_short = 5"
    by (simp add: high_short_def real_nr_free_high_pages_def real_nr_free_pages_def idle_mem_def demo_mem_def)
  have s: "size_high (pagedir1 (pages high_short)) - size_high (pagedir2 (pages high_short)) = 10"
    by (simp add: high_short_def demo_pages_def)
  show ?thesis using ps1_pages_to_free [of 0 high_short] f s by simp
qed

theorem failed_prepare_aborts_witness:
  "\<exists>st'. toi_prepare_image demo_ops (demo_kernel\<lparr>freeze := \<lambda>_. 1\<rparr>) (\<lambda>_. True) demo_prep = Some (1, st') \<and>
     TOI_ABORTED \<in> p_results (pages st')"
proof -
  have "\<exists>st'. toi_prepare_image demo_ops (demo_kernel\<lparr>freeze := \<lambda>_. 1\<rparr>) (\<lambda>_. True) demo_prep = Some (1, st')"
    by (simp add: toi_prepare_image_def attempt_to_freeze_def freeze_processes_def)
  then obtain st' where st': "toi_prepare_image demo_ops (demo_kernel\<lparr>freeze := \<lambda>_. 1\<rparr>) (\<lambda>_. True) demo_prep = Some (1, st')" by blast
  from failed_prepare_aborts [OF st'] st' show ?thesis by (simp add: demo_ops_def)
qed

text \<open>With no pages and tasks, recalculating finds nothing to save.\<close>

definition nothing_to_save :: "page_state \<Rightarrow> bool" where
  "nothing_to_save pg \<longleftrightarrow> (\<exists>z. zones (memory pg) = [z] \<and> zone_spanned z = 0 \<and> \<not> zone_highmem z \<and> pcp_pages z = [] \<and> nr_free z = 5000) \<and>
     tasks (memory pg) = [] \<and> attention_list pg = [] \<and> p_actions pg = {} \<and> p_results pg = {}"

lemma nothing_sizes:
  assumes "nothing_to_save pg"
  shows "pagedir1 (recalculate_contents False pg) = \<lparr>size = 0, size_high = 0\<rparr>"
    and "pagedir2 (recalculate_contents False pg) = \<lparr>size = 0, size_high = 0\<rparr>"
    and "nothing_to_save (recalculate_contents False pg)"
proof -
  let ?m = "toi_mark_pages_for_pageset2 (pg\<lparr>ps1_map := {}, ps1_copy_map := ps1_copy_map pg - ps2_map pg\<rparr>)"
  have m: "kept pg ?m" using kept_mark_pages [of "pg\<lparr>ps1_map := {}, ps1_copy_map := ps1_copy_map pg - ps2_map pg\<rparr>"] by (simp add: kept_def)
  obtain z where z: "zones (memory ?m) = [z]" "zone_spanned z = 0" using assms m by (auto simp: nothing_to_save_def kept_def)
  have eq: "recalculate_contents False pg = snd (flag_image_pages ?m)" by (simp add: recalculate_contents_def)
  show "pagedir1 (recalculate_contents False pg) = \<lparr>size = 0, size_high = 0\<rparr>"
    "pagedir2 (recalculate_contents False pg) = \<lparr>size = 0, size_high = 0\<rparr>"
    unfolding eq flag_image_pages_def Let_def using z by (simp_all add: generate_keeps flag_zone.simps)
  show "nothing_to_save (recalculate_contents False pg)"
    using kept_recalculate [of pg False] assms by (simp add: kept_def nothing_to_save_def)
qed

definition quiet :: "int prep \<Rightarrow> bool" where
  "quiet st \<longleftrightarrow> nothing_to_save (pages st) \<and> extra_pd1_pages_allowance st = 1 \<and> image_size_limit st = 0 \<and>
     0 \<le> extra_pages_allocated st \<and> 0 \<le> main_storage_allocated st"

lemma quiet_recalculate:
  assumes "quiet st"
  shows "quiet (toi_recalculate_image_contents demo_ops False st)"
    and "\<not> image_not_ready demo_ops b (toi_recalculate_image_contents demo_ops False st)"
    and "eat_memory demo_ops demo_kernel st = toi_recalculate_image_contents demo_ops False st"
proof -
  let ?st = "toi_recalculate_image_contents demo_ops False st"
  note sz = nothing_sizes [of "pages st"]
  show "quiet ?st" using assms sz(3) by (simp add: quiet_def toi_recalculate_image_contents_def Let_def)
  have z: "pagedir1 (pages ?st) = \<lparr>size = 0, size_high = 0\<rparr>" "pagedir2 (pages ?st) = \<lparr>size = 0, size_high = 0\<rparr>"
    "storage_available ?st = 1000"
    using assms sz(1,2) by (simp_all add: quiet_def toi_recalculate_image_contents_def Let_def)
  have f: "real_nr_free_low_pages ?st = 5000" "real_nr_free_high_pages ?st = 0"
    using \<open>quiet ?st\<close>
    by (auto simp: quiet_def nothing_to_save_def real_nr_free_low_pages_def real_nr_free_high_pages_def real_nr_free_pages_def)
  have q: "extra_pd1_pages_allowance ?st = 1" "image_size_limit ?st = 0" "0 \<le> extra_pages_allocated ?st" "0 \<le> main_storage_allocated ?st"
    using \<open>quiet ?st\<close> by (simp_all add: quiet_def)
  have "round_up (1 + 100 - 5000 - extra_pages_allocated ?st) 2 \<le> 0" using q(3) by (simp add: round_up_2_le)
  then have low: "lowpages_ps1_to_free demo_ops ?st = 0"
    unfolding lowpages_ps1_to_free_def get_lowmem_size_def using q(1) z f by (simp add: max_def)
  have amount: "amount_needed demo_ops c ?st = 0" for c
    using q(2) z f q(1) low
    by (simp add: amount_needed_def highpages_ps1_to_free_def any_to_free_def storage_still_required_def
        main_storage_needed_def ram_still_required_def round_up_def c_div_def Let_def)
  then show "\<not> image_not_ready demo_ops b ?st"
    using q(4) z by (simp add: image_not_ready_def main_storage_needed_def c_div_def)
  show "eat_memory demo_ops demo_kernel st = ?st"
    using amount q(2) by (simp add: eat_memory_def Let_def)
qed

lemma demo_header_loop:
  assumes "header_storage_needed st = 1" and "size (pagedir1 (pages st)) = 0" and "size (pagedir2 (pages st)) = 0"
    and "extra_pd1_pages_allowance st = 1"
  shows "header_loop demo_ops st = Some (st\<lparr>writer := 1, storage_available := 1000, main_storage_allocated := 1\<rparr>)"
  using assms
  by (subst header_loop.simps) (simp add: Let_def main_storage_needed_def get_header_storage_needed_def round_up_def c_div_def)

lemma demo_extra:
  assumes "extra_pages_allocated st = 0"
  shows "toi_allocate_extra_pagedir_memory demo_kernel 1 st = (1, add_extras 64 0 (memory (pages st)) (st\<lparr>slabs := Suc (slabs st)\<rparr>))"
  using assms
  by (simp add: toi_allocate_extra_pagedir_memory_def fls.simps extra_loop.simps demo_kernel_def Let_def add_extras_def)

lemma demo_update:
  assumes "quiet st" and "extra_pages_allocated st = 0" and "header_storage_needed st = 1"
  shows "\<exists>s. update_image demo_ops demo_kernel False st = Some (toi_recalculate_image_contents demo_ops False s) \<and> quiet s"
proof -
  let ?rec = "toi_recalculate_image_contents demo_ops False"
  let ?s = "?rec st"
  let ?s3 = "add_extras 64 0 (memory (pages ?s)) (?s\<lparr>slabs := Suc (slabs ?s)\<rparr>)"
  let ?s4 = "?s3\<lparr>writer := 1, storage_available := 1000, main_storage_allocated := 1\<rparr>"
  have q: "quiet ?s" by (rule quiet_recalculate(1) [OF assms(1)])
  have pd: "pagedir1 (pages ?s) = \<lparr>size = 0, size_high = 0\<rparr>" "pagedir2 (pages ?s) = \<lparr>size = 0, size_high = 0\<rparr>"
    "extra_pages_allocated ?s = 0" "header_storage_needed ?s = 1" "extra_pd1_pages_allowance ?s = 1"
    using assms nothing_sizes(1,2) [of "pages st"] q
    by (simp_all add: toi_recalculate_image_contents_def Let_def quiet_def)
  have q3: "quiet (?s4\<lparr>freezes := n\<rparr>)" for n using q by (simp add: quiet_def add_extras_def nothing_to_save_def)
  have loop: "header_loop demo_ops ?s3 = Some ?s4"
    by (rule demo_header_loop) (use pd in \<open>simp_all add: add_extras_def\<close>)
  have w: "s32 (size (pagedir1 (pages ?s)) + extra_pd1_pages_allowance ?s - get_lowmem_size (pagedir2 (pages ?s))) = 1"
    using pd by (simp add: get_lowmem_size_def)
  have "freeze demo_kernel n = 0" for n by (simp add: demo_kernel_def)
  then have "update_image demo_ops demo_kernel False st = Some (?rec (?s4\<lparr>freezes := Suc (freezes ?s4)\<rparr>))"
    unfolding update_image_def Let_def w using pd(3) demo_extra [OF pd(3)] loop by (simp add: freeze_processes_def)
  with q3 show ?thesis by blast
qed

theorem prepared_image_fits_witness:
  "\<exists>st'. toi_prepare_image demo_ops demo_kernel (\<lambda>_. True) demo_prep = Some (0, st') \<and> image_fits demo_ops st'"
proof -
  let ?st4 = "demo_prep\<lparr>freezes := 1, storage_available := 1000, pages := demo_pages\<lparr>memory := idle_mem\<rparr>\<rparr>"
  let ?rec = "toi_recalculate_image_contents demo_ops False"
  have q4: "quiet ?st4" by (simp add: quiet_def demo_prep_def demo_pages_def nothing_to_save_def idle_mem_def demo_mem_def)
  note e4 = quiet_recalculate [OF q4]
  have "extra_pages_allocated (?rec ?st4) = 0" "header_storage_needed (?rec ?st4) = 1"
    by (simp_all add: toi_recalculate_image_contents_def demo_prep_def)
  with demo_update [OF e4(1)] obtain s where s: "update_image demo_ops demo_kernel False (?rec ?st4) = Some (?rec s)" "quiet s" by blast
  note es = quiet_recalculate [OF s(2)]
  have bits: "p_results (pages t) = {}" "p_actions (pages t) = {}" if "quiet t" for t
    using that by (simp_all add: quiet_def nothing_to_save_def)
  have loop: "prepare_loop demo_ops demo_kernel (nat MAX_TRIES) ?st4 = Some (?rec s)"
    using s(1) e4(3) es(2) [of True] bits [OF e4(1)] by (simp add: numeral_2_eq_2 Let_def aborted_def)
  have fin: "finish_prepare demo_ops demo_kernel (?rec s) = Some (0, ?rec s)"
    using es(2) [of False] bits [OF es(1)] by (simp add: finish_prepare_def Let_def aborted_def)
  have "toi_prepare_image demo_ops demo_kernel (\<lambda>_. True) demo_prep =
      Option.bind (prepare_loop demo_ops demo_kernel (nat MAX_TRIES) ?st4) (finish_prepare demo_ops demo_kernel)"
    unfolding toi_prepare_image_def
    by (simp add: attempt_to_freeze_def freeze_processes_def demo_kernel_def demo_prep_def build_attention_list_def
        demo_pages_def idle_mem_def)
  then have run: "toi_prepare_image demo_ops demo_kernel (\<lambda>_. True) demo_prep = Some (0, ?rec s)" using loop fin by simp
  from prepared_image_fits [OF run] run bits(2) [OF es(1)] show ?thesis by simp
qed

end
