(* ===== verification/TOI_Swapfile.thy ===== *)
theory TOI_Swapfile
  imports TOI_Prelude
begin

text \<open>
  The kernel's swap space (\<open>mm/swapfile.c\<close>, \<open>linux/swapops.h\<close>) as far as the swap allocator of
  TuxOnIce uses it: getting and freeing swap entries, and the block an entry is stored in.

  Processes are frozen while this code runs, so that what one thread sees is modelled: the locks
  and the rescheduling points are left out, and the reference that \<open>SWP_SCANNING\<close> counts is taken
  and dropped within one call. A discard request has no effect that is modelled. \<open>swap_map\<close> is the
  memory that begins at the pointer, so that an access beyond \<open>max\<close> reads what is there. \<open>None\<close> is a
  \<open>BUG()\<close>, an access outside \<open>swap_info\<close>, or a wait or search that never ends.

  The lemmas show that the entry returned was free and is then counted once, that no other
  entry changes and that freeing undoes it (the interface \<open>swap_space\<close>), and that the block of an
  entry does not depend on the cached extent.
\<close>

section \<open>Swap entries\<close>

abbreviation (input) MAX_SWAPFILES :: nat where "MAX_SWAPFILES \<equiv> 32"
abbreviation (input) SWP_TYPE_SHIFT :: nat where "SWP_TYPE_SHIFT \<equiv> 59"
abbreviation (input) SWAPFILE_CLUSTER :: nat where "SWAPFILE_CLUSTER \<equiv> 256"
abbreviation (input) SWAP_MAP_MAX :: nat where "SWAP_MAP_MAX \<equiv> 0x7fff"
abbreviation (input) SWAP_MAP_BAD :: nat where "SWAP_MAP_BAD \<equiv> 0x8000"

unbundle bit_operations_syntax

definition swp_entry :: "nat \<Rightarrow> nat \<Rightarrow> ulong" where
  "swp_entry type offset = push_bit SWP_TYPE_SHIFT (of_nat type) OR (of_nat offset AND mask SWP_TYPE_SHIFT)"

definition swp_type :: "ulong \<Rightarrow> nat" where
  "swp_type entry = unat (drop_bit SWP_TYPE_SHIFT entry)"

definition swp_offset :: "ulong \<Rightarrow> nat" where
  "swp_offset entry = unat (entry AND mask SWP_TYPE_SHIFT)"

section \<open>Data\<close>

datatype swap_flag = SWP_USED | SWP_WRITEOK | SWP_DISCARDABLE | SWP_DISCARDING | SWP_SOLIDSTATE

record swap_extent =
  start_page :: nat
  nr_pages :: nat
  start_block :: nat

text \<open>
  The device of a swap area is its number, its \<open>dev_t\<close> and whether its disk name begins with
  \<open>ram\<close>; \<open>bdev_of\<close> is \<open>None\<close> for a null pointer.
\<close>

record swap_bdev =
  bd_id :: nat
  bd_dev :: nat
  bd_ram :: bool

record swap_info_struct =
  flags :: "swap_flag set"
  prio :: int
  next_type :: int
  swap_file :: bool
  bdev_of :: "swap_bdev option"
  extent_list :: "swap_extent list"
  curr_swap_extent :: nat
  swap_map :: "nat \<Rightarrow> nat"
  lowest_bit :: nat
  highest_bit :: nat
  lowest_alloc :: nat
  highest_alloc :: nat
  cluster_next :: nat
  cluster_nr :: nat
  si_pages :: nat
  si_max :: nat
  inuse_pages :: nat

record swap_kernel =
  nr_swap_pages :: int
  swap_list_head :: int
  swap_list_next :: int
  nr_swapfiles :: nat
  swap_info :: "swap_info_struct list"

section \<open>Getting an entry\<close>

text \<open>
  The two loops that look for an empty cluster: \<open>offset\<close> up to the limit \<open>lim\<close> of
  \<open>last_in_cluster\<close>. The result is the last page of the cluster. The test \<open>offset \<le> last_in_cluster\<close>
  always holds in the code.
\<close>

function find_cluster :: "(nat \<Rightarrow> nat) \<Rightarrow> nat \<Rightarrow> nat \<Rightarrow> nat \<Rightarrow> nat option" where
  "find_cluster m lim offset last_in_cluster =
     (if offset \<le> last_in_cluster \<and> last_in_cluster < lim
      then if m offset \<noteq> 0 then find_cluster m lim (Suc offset) (offset + SWAPFILE_CLUSTER)
           else if offset = last_in_cluster then Some offset
           else find_cluster m lim (Suc offset) last_in_cluster
      else None)"
  by pat_completeness auto
termination
  by (relation "measure (\<lambda>(m, lim, offset, last_in_cluster). lim - offset)") auto

declare find_cluster.simps [simp del]

text \<open>Taking the page at \<open>offset\<close> (after the label \<open>checks\<close>).\<close>

definition use_page :: "nat \<Rightarrow> swap_info_struct \<Rightarrow> swap_info_struct" where
  "use_page offset si =
     (let si1 = si\<lparr>lowest_bit := (if offset = lowest_bit si then lowest_bit si + 1 else lowest_bit si)\<rparr>;
          si2 = si1\<lparr>highest_bit := (if offset = highest_bit si1 then highest_bit si1 - 1 else highest_bit si1)\<rparr>;
          si3 = si2\<lparr>inuse_pages := inuse_pages si2 + 1\<rparr>;
          si4 = (if inuse_pages si3 = si_pages si3 then si3\<lparr>lowest_bit := si_max si3, highest_bit := 0\<rparr> else si3)
      in si4\<lparr>swap_map := (swap_map si4)(offset := 1), cluster_next := offset + 1\<rparr>)"

text \<open>The labels \<open>checks\<close> and \<open>scan\<close>: the offset (0 when there is none) and the area.\<close>

partial_function (option) scan_checks ::
    "swap_info_struct \<Rightarrow> nat \<Rightarrow> nat \<Rightarrow> (nat \<times> swap_info_struct) option" where
  "scan_checks si offset0 scan_base0 =
     (if SWP_WRITEOK \<notin> flags si \<or> highest_bit si = 0 then Some (0, si)
      else let offset = (if highest_bit si < offset0 then lowest_bit si else offset0);
               scan_base = (if highest_bit si < offset0 then lowest_bit si else scan_base0)
           in if swap_map si offset = 0 then Some (offset, use_page offset si)
              else case find (\<lambda>i. swap_map si i = 0) [Suc offset ..< Suc (highest_bit si)] of
                     Some i \<Rightarrow> scan_checks si i scan_base
                   | None \<Rightarrow>
                       (case find (\<lambda>i. swap_map si i = 0) [Suc (lowest_bit si) ..< scan_base] of
                          Some i \<Rightarrow> scan_checks si i scan_base
                        | None \<Rightarrow> Some (0, si)))"

text \<open>
  The accounts of a discard in progress, after a page was taken. Waiting for another task's
  discard never ends here.
\<close>

definition after_alloc :: "bool \<Rightarrow> nat \<Rightarrow> swap_info_struct \<Rightarrow> swap_info_struct option" where
  "after_alloc found_free_cluster offset si =
     (if lowest_alloc si = 0 then Some si
      else if found_free_cluster then Some (si\<lparr>lowest_alloc := 0, flags := flags si - {SWP_DISCARDING}\<rparr>)
      else if SWP_DISCARDING \<in> flags si then None
      else Some (si\<lparr>lowest_alloc := min (lowest_alloc si) offset, highest_alloc := max (highest_alloc si) offset\<rparr>))"

definition scan_from ::
    "bool \<Rightarrow> swap_info_struct \<Rightarrow> nat \<Rightarrow> nat \<Rightarrow> (nat \<times> swap_info_struct) option" where
  "scan_from found_free_cluster si offset scan_base = do {
     (offset, si1) \<leftarrow> scan_checks si offset scan_base;
     if offset = 0 then Some (0, si1)
     else do { si2 \<leftarrow> after_alloc found_free_cluster offset si1; Some (offset, si2) }
   }"

definition scan_swap_map :: "swap_info_struct \<Rightarrow> (nat \<times> swap_info_struct) option" where
  "scan_swap_map si =
     (let scan_base = cluster_next si;
          si1 = si\<lparr>cluster_nr := (if cluster_nr si = 0 then 2 ^ 32 - 1 else cluster_nr si - 1)\<rparr>
      in if cluster_nr si \<noteq> 0 then scan_from False si1 scan_base scan_base
         else if (int (si_pages si) - int (inuse_pages si)) mod 2 ^ 32 < int SWAPFILE_CLUSTER
         then scan_from False (si1\<lparr>cluster_nr := SWAPFILE_CLUSTER - 1\<rparr>) scan_base scan_base
         else if SWP_DISCARDABLE \<in> flags si \<and> lowest_alloc si \<noteq> 0 then scan_from False si1 scan_base scan_base
         else
           let si2 = (if SWP_DISCARDABLE \<in> flags si then si1\<lparr>lowest_alloc := si_max si, highest_alloc := 0\<rparr> else si1);
               base = (if SWP_SOLIDSTATE \<in> flags si then scan_base else lowest_bit si);
               cluster = (case find_cluster (swap_map si) (Suc (highest_bit si)) base (base + SWAPFILE_CLUSTER - 1) of
                            Some e \<Rightarrow> Some e
                          | None \<Rightarrow> find_cluster (swap_map si) base (lowest_bit si) (lowest_bit si + SWAPFILE_CLUSTER - 1))
           in case cluster of
                Some e \<Rightarrow>
                  let offset = e - (SWAPFILE_CLUSTER - 1)
                  in scan_from True (si2\<lparr>cluster_next := offset, cluster_nr := SWAPFILE_CLUSTER - 1\<rparr>) offset base
              | None \<Rightarrow> scan_from False (si2\<lparr>cluster_nr := SWAPFILE_CLUSTER - 1, lowest_alloc := 0\<rparr>) base base)"

text \<open>
  The loop of \<open>get_swap_page\<close> over the swap areas, by priority and round robin among areas of
  the same priority. \<open>next_area\<close> is the assignment of \<open>next\<close> and \<open>wrapped\<close> at its beginning.
\<close>

definition next_area :: "swap_kernel \<Rightarrow> int \<Rightarrow> nat \<Rightarrow> int \<times> nat" where
  "next_area k type wrapped =
     (let si = swap_info k ! nat type
      in if next_type si < 0 \<or> wrapped = 0 \<and> prio si \<noteq> prio (swap_info k ! nat (next_type si))
         then (swap_list_head k, wrapped + 1) else (next_type si, wrapped))"

partial_function (option) get_swap_loop :: "swap_kernel \<Rightarrow> int \<Rightarrow> nat \<Rightarrow> (ulong \<times> swap_kernel) option" where
  "get_swap_loop k type wrapped =
     (if type < 0 \<or> 2 \<le> wrapped then Some (0, k\<lparr>nr_swap_pages := nr_swap_pages k + 1\<rparr>)
      else let si = swap_info k ! nat type;
               (next_t, wrapped1) = next_area k type wrapped
           in if highest_bit si = 0 \<or> SWP_WRITEOK \<notin> flags si then get_swap_loop k next_t wrapped1
              else Option.bind (scan_swap_map si) (\<lambda>(offset, si1).
                let k1 = k\<lparr>swap_list_next := next_t, swap_info := (swap_info k)[nat type := si1]\<rparr>
                in if offset \<noteq> 0 then Some (swp_entry (nat type) offset, k1)
                   else get_swap_loop k1 next_t wrapped1))"

definition get_swap_page :: "swap_kernel \<Rightarrow> (ulong \<times> swap_kernel) option" where
  "get_swap_page k =
     (if nr_swap_pages k \<le> 0 then Some (0, k)
      else get_swap_loop (k\<lparr>nr_swap_pages := nr_swap_pages k - 1\<rparr>) (swap_list_next k) 0)"

section \<open>Freeing an entry\<close>

text \<open>\<open>swap_info_get\<close>: the type of a valid entry that is in use.\<close>

definition swap_info_get :: "ulong \<Rightarrow> swap_kernel \<Rightarrow> nat option" where
  "swap_info_get entry k =
     (let type = swp_type entry; p = swap_info k ! type; offset = swp_offset entry
      in if entry = 0 then None
         else if nr_swapfiles k \<le> type then None
         else if SWP_USED \<notin> flags p then None
         else if si_max p \<le> offset then None
         else if swap_map p offset = 0 then None
         else Some type)"

definition swap_entry_free :: "nat \<Rightarrow> ulong \<Rightarrow> swap_kernel \<Rightarrow> swap_kernel option" where
  "swap_entry_free type entry k =
     (let p = swap_info k ! type; offset = swp_offset entry; cnt = swap_map p offset
      in if SWAP_MAP_MAX \<le> cnt then Some k
         else
           let p1 = p\<lparr>swap_map := (swap_map p)(offset := cnt - 1)\<rparr>
           in if cnt - 1 \<noteq> 0 then Some (k\<lparr>swap_info := (swap_info k)[type := p1]\<rparr>)
              else
                let p2 = p1\<lparr>lowest_bit := min (lowest_bit p1) offset, highest_bit := max (highest_bit p1) offset,
                            inuse_pages := inuse_pages p1 - 1\<rparr>
                in if swap_list_next k < 0 then None
                   else Some (k\<lparr>swap_info := (swap_info k)[type := p2], nr_swap_pages := nr_swap_pages k + 1,
                                swap_list_next := (if prio (swap_info k ! nat (swap_list_next k)) < prio p
                                                   then int type else swap_list_next k)\<rparr>))"

definition swap_free :: "ulong \<Rightarrow> swap_kernel \<Rightarrow> swap_kernel option" where
  "swap_free entry k =
     (case swap_info_get entry k of
        None \<Rightarrow> Some k
      | Some type \<Rightarrow> swap_entry_free type entry k)"

section \<open>The block of an entry\<close>

fun map_swap_loop :: "swap_extent list \<Rightarrow> nat \<Rightarrow> nat \<Rightarrow> nat \<Rightarrow> (nat \<times> nat) option" where
  "map_swap_loop es 0 i offset = None"
| "map_swap_loop es (Suc n) i offset =
     (let se = es ! i
      in if start_page se \<le> offset \<and> offset < start_page se + nr_pages se
         then Some (start_block se + (offset - start_page se), i)
         else map_swap_loop es n (if Suc i = length es then 0 else Suc i) offset)"

definition map_swap_page :: "swap_info_struct \<Rightarrow> nat \<Rightarrow> (nat \<times> swap_info_struct) option" where
  "map_swap_page sis offset = do {
     (block, i) \<leftarrow> map_swap_loop (extent_list sis) (length (extent_list sis)) (curr_swap_extent sis) offset;
     Some (block, sis\<lparr>curr_swap_extent := i\<rparr>)
   }"

section \<open>Entries as numbers\<close>

lemma swp_offset_div: "swp_offset v = unat v mod 2 ^ 59"
  unfolding swp_offset_def take_bit_eq_mask [symmetric] unsigned_take_bit_eq by (simp add: take_bit_eq_mod)

lemma swp_type_div: "swp_type v = unat v div 2 ^ 59"
  unfolding swp_type_def drop_bit_eq_div unat_div by simp

lemma bit_below: "i < 2 ^ m \<Longrightarrow> m \<le> n \<Longrightarrow> \<not> bit i n" for i :: nat
  by (metis bit_take_bit_iff leD take_bit_nat_eq_self)

lemma swp_entry_unat:
  assumes "t < 32" and "i < 2 ^ 59"
  shows "unat (swp_entry t i) = t * 2 ^ 59 + i"
proof -
  have "of_nat i AND mask 59 = (of_nat i :: ulong)"
    using assms(2) by (simp add: flip: take_bit_eq_mask) (simp add: take_bit_of_nat take_bit_nat_eq_self)
  then have "swp_entry t i = push_bit 59 (of_nat t) OR of_nat i" by (simp add: swp_entry_def)
  also have "\<dots> = push_bit 59 (of_nat t) + of_nat i"
    by (rule disjunctive_add [symmetric]) (use assms(2) in \<open>auto simp: bit_simps bit_below [of i 59]\<close>)
  also have "\<dots> = of_nat (t * 2 ^ 59 + i)" by (simp add: push_bit_eq_mult)
  finally have "of_nat (t * 2 ^ 59 + i) = swp_entry t i" by (rule sym)
  then show ?thesis by (rule of_nat_inverse) (use assms in simp)
qed

lemma swp_type_entry [simp]: "t < 32 \<Longrightarrow> i < 2 ^ 59 \<Longrightarrow> swp_type (swp_entry t i) = t"
  by (simp add: swp_type_div swp_entry_unat)

lemma swp_offset_entry [simp]: "t < 32 \<Longrightarrow> i < 2 ^ 59 \<Longrightarrow> swp_offset (swp_entry t i) = i"
  by (simp add: swp_offset_div swp_entry_unat)

lemma swp_entry_inj: "swp_type v = swp_type w \<Longrightarrow> swp_offset v = swp_offset w \<Longrightarrow> v = w"
  unfolding swp_type_div swp_offset_div by (metis div_mult_mod_eq unsigned_word_eqI)

section \<open>A consistent area\<close>

text \<open>
  The map counts what is in use; the free pages lie between \<open>lowest_bit\<close> and \<open>highest_bit\<close>, which
  is 0 when there are none; page 0 holds the header. No discard is in progress.
\<close>

definition free_slots :: "swap_info_struct \<Rightarrow> nat set" where
  "free_slots si = {i. i < si_max si \<and> swap_map si i = 0}"

definition used_slots :: "swap_info_struct \<Rightarrow> nat set" where
  "used_slots si = {i. i < si_max si \<and> swap_map si i \<noteq> 0 \<and> swap_map si i \<noteq> SWAP_MAP_BAD}"

definition wf_area :: "swap_info_struct \<Rightarrow> bool" where
  "wf_area si \<longleftrightarrow> swap_map si 0 = SWAP_MAP_BAD \<and> highest_bit si < si_max si \<and> si_max si \<le> 2 ^ 32 \<and>
     (\<forall>i \<in> free_slots si. lowest_bit si \<le> i \<and> i \<le> highest_bit si) \<and>
     si_pages si = card (used_slots si) + card (free_slots si) \<and> inuse_pages si = card (used_slots si) \<and>
     (free_slots si = {} \<longrightarrow> highest_bit si = 0) \<and> cluster_next si \<le> si_max si \<and>
     lowest_alloc si = 0 \<and> SWP_DISCARDING \<notin> flags si"

lemma finite_slots [simp]: "finite (free_slots si)" "finite (used_slots si)"
  by (simp_all add: free_slots_def used_slots_def)

lemma wf_area_simps [simp]:
  "wf_area (si\<lparr>cluster_nr := n\<rparr>) = wf_area si"
  by (simp add: wf_area_def free_slots_def used_slots_def)

lemma use_page_simps [simp]:
  "swap_map (use_page i si) = (swap_map si)(i := 1)" "si_max (use_page i si) = si_max si"
  "si_pages (use_page i si) = si_pages si" "cluster_next (use_page i si) = i + 1"
  "inuse_pages (use_page i si) = inuse_pages si + 1" "lowest_alloc (use_page i si) = lowest_alloc si"
  "flags (use_page i si) = flags si"
  by (simp_all add: use_page_def Let_def)

lemma use_page_slots:
  assumes "i \<in> free_slots si"
  shows "free_slots (use_page i si) = free_slots si - {i}" and "used_slots (use_page i si) = insert i (used_slots si)"
    and "i \<notin> used_slots si"
  using assms by (auto simp: free_slots_def used_slots_def)

lemma wf_use_page:
  assumes "wf_area si" and "i \<in> free_slots si"
  shows "wf_area (use_page i si)"
proof -
  note s = use_page_slots [OF assms(2)]
  have i: "i < si_max si" "lowest_bit si \<le> i" "i \<le> highest_bit si" "swap_map si i = 0"
    using assms by (auto simp: wf_area_def free_slots_def)
  have cards: "card (free_slots (use_page i si)) = card (free_slots si) - 1" "0 < card (free_slots si)"
    "card (used_slots (use_page i si)) = card (used_slots si) + 1"
    using s assms(2) by (auto simp: card_gt_0_iff)
  have full: "inuse_pages si + 1 = si_pages si \<longleftrightarrow> free_slots (use_page i si) = {}"
    using assms(1) cards by (auto simp: wf_area_def simp flip: card_0_eq)
  have bits: "\<forall>f \<in> free_slots (use_page i si). lowest_bit (use_page i si) \<le> f \<and> f \<le> highest_bit (use_page i si)"
  proof
    fix f assume f: "f \<in> free_slots (use_page i si)"
    then have "f \<in> free_slots si" "f \<noteq> i" using s(1) by auto
    then have "lowest_bit si \<le> f" "f \<le> highest_bit si" using assms(1) by (auto simp: wf_area_def)
    moreover have "inuse_pages si + 1 \<noteq> si_pages si" using f full by auto
    ultimately show "lowest_bit (use_page i si) \<le> f \<and> f \<le> highest_bit (use_page i si)"
      using \<open>f \<noteq> i\<close> by (auto simp: use_page_def Let_def)
  qed
  have "highest_bit (use_page i si) < si_max si"
    using assms(1) i by (auto simp: use_page_def Let_def wf_area_def)
  moreover have "free_slots (use_page i si) = {} \<Longrightarrow> highest_bit (use_page i si) = 0"
    using full by (simp add: use_page_def Let_def)
  ultimately show ?thesis
    using assms(1) cards bits i by (auto simp: wf_area_def)
qed

text \<open>The part of an area that getting and freeing entries leave alone.\<close>

definition area :: "swap_info_struct \<Rightarrow> swap_info_struct" where
  "area si = si\<lparr>swap_map := \<lambda>_. 0, lowest_bit := 0, highest_bit := 0, lowest_alloc := 0, highest_alloc := 0,
     cluster_next := 0, cluster_nr := 0, inuse_pages := 0\<rparr>"

lemma area_eqD:
  assumes "area a = area b"
  shows "flags a = flags b" "prio a = prio b" "next_type a = next_type b" "swap_file a = swap_file b"
    "bdev_of a = bdev_of b" "extent_list a = extent_list b" "curr_swap_extent a = curr_swap_extent b"
    "si_max a = si_max b" "si_pages a = si_pages b"
  using assms by (cases a; cases b; simp add: area_def)+

lemma area_use_page [simp]: "area (use_page i si) = area si"
  by (simp add: area_def use_page_def Let_def)

text \<open>What a scan may do: find nothing, or take a free page.\<close>

definition took :: "swap_info_struct \<Rightarrow> nat \<Rightarrow> swap_info_struct \<Rightarrow> bool" where
  "took si i si' \<longleftrightarrow> wf_area si' \<and> area si' = area si \<and>
     (if i = 0 then swap_map si' = swap_map si
      else i \<in> free_slots si \<and> swap_map si' = (swap_map si)(i := 1))"

text \<open>While a cluster is looked for, \<open>lowest_alloc\<close> may be set; nothing else is disturbed.\<close>

definition scanning :: "swap_info_struct \<Rightarrow> swap_info_struct \<Rightarrow> bool" where
  "scanning si si' \<longleftrightarrow> wf_area (si'\<lparr>lowest_alloc := 0\<rparr>) \<and> area si' = area si \<and> swap_map si' = swap_map si"

lemma free_slots_cong: "swap_map a = swap_map b \<Longrightarrow> si_max a = si_max b \<Longrightarrow> free_slots a = free_slots b"
  by (simp add: free_slots_def)

lemma wf_area_bits:
  assumes "wf_area (si\<lparr>lowest_alloc := 0\<rparr>)"
  shows "highest_bit si < si_max si" and "i \<in> free_slots si \<Longrightarrow> i \<le> highest_bit si" and "0 \<notin> free_slots si"
    and "highest_bit si \<noteq> 0 \<Longrightarrow> lowest_bit si < si_max si"
  using assms by (fastforce simp: wf_area_def free_slots_def)+

lemma scan_checks_free:
  assumes "wf_area (si\<lparr>lowest_alloc := 0\<rparr>)" and "SWP_WRITEOK \<in> flags si" and "i \<in> free_slots si"
  shows "scan_checks si i base = Some (i, use_page i si)"
proof -
  have "i \<le> highest_bit si" "i \<noteq> 0" "swap_map si i = 0"
    using wf_area_bits(2,3) [OF assms(1)] assms(3) by (auto simp: free_slots_def intro: gr0I)
  with assms(2) show ?thesis by (subst scan_checks.simps) auto
qed

lemma find_free:
  "find (\<lambda>i. swap_map si i = 0) [a ..< b] = Some i \<Longrightarrow> b \<le> si_max si \<Longrightarrow> i \<in> free_slots si"
  by (auto simp: find_Some_iff free_slots_def)

lemma scan_checks_spec:
  assumes "wf_area (si\<lparr>lowest_alloc := 0\<rparr>)" and "SWP_WRITEOK \<in> flags si" and "base \<le> si_max si"
  shows "scan_checks si offset base = Some (0, si) \<or> (\<exists>i \<in> free_slots si. scan_checks si offset base = Some (i, use_page i si))"
proof (cases "highest_bit si = 0")
  case True
  then show ?thesis by (subst scan_checks.simps) simp
next
  case False
  define off where "off = (if highest_bit si < offset then lowest_bit si else offset)"
  define base' where "base' = (if highest_bit si < offset then lowest_bit si else base)"
  note bits = wf_area_bits [OF assms(1)]
  have bound: "off < si_max si" "base' \<le> si_max si"
    using bits(1) bits(4) [OF False] assms(3) by (auto simp: off_def base'_def)
  note unfold = scan_checks.simps [of si offset base]
  note again = scan_checks_free [OF assms(1,2)]
  consider (here) "swap_map si off = 0"
    | (up) i where "swap_map si off \<noteq> 0" "find (\<lambda>i. swap_map si i = 0) [Suc off ..< Suc (highest_bit si)] = Some i"
    | (down) i where "swap_map si off \<noteq> 0" "find (\<lambda>i. swap_map si i = 0) [Suc off ..< Suc (highest_bit si)] = None"
        "find (\<lambda>i. swap_map si i = 0) [Suc (lowest_bit si) ..< base'] = Some i"
    | (full) "swap_map si off \<noteq> 0" "find (\<lambda>i. swap_map si i = 0) [Suc off ..< Suc (highest_bit si)] = None"
        "find (\<lambda>i. swap_map si i = 0) [Suc (lowest_bit si) ..< base'] = None"
    by (metis option.exhaust)
  then show ?thesis
  proof cases
    case here
    then have "off \<in> free_slots si" using bound by (simp add: free_slots_def)
    with here show ?thesis unfolding unfold Let_def off_def [symmetric] using False assms(2) by auto
  next
    case up
    have "i \<in> free_slots si" by (rule find_free [OF up(2)]) (use bits(1) in simp)
    with up again show ?thesis unfolding unfold Let_def off_def [symmetric] base'_def [symmetric]
      using False assms(2) by (auto simp del: upt_Suc)
  next
    case down
    then have "i \<in> free_slots si" using bound by (auto intro: find_free)
    with down again show ?thesis unfolding unfold Let_def off_def [symmetric] base'_def [symmetric]
      using False assms(2) by (auto simp del: upt_Suc)
  next
    case full
    then show ?thesis unfolding unfold Let_def off_def [symmetric] base'_def [symmetric]
      using False assms(2) by (simp del: upt_Suc)
  qed
qed

lemma use_page_lowest_alloc: "use_page i (si\<lparr>lowest_alloc := n\<rparr>) = (use_page i si)\<lparr>lowest_alloc := n\<rparr>"
  by (simp add: use_page_def Let_def)

lemma took_use_page:
  assumes "scanning si si'" and "i \<in> free_slots si'"
  shows "took si i ((use_page i si')\<lparr>lowest_alloc := 0\<rparr>)"
proof -
  have wf: "wf_area (si'\<lparr>lowest_alloc := 0\<rparr>)" and same: "area si' = area si" "swap_map si' = swap_map si"
    using assms(1) by (auto simp: scanning_def)
  have "i \<noteq> 0" using wf_area_bits(3) [OF wf] assms(2) by metis
  moreover have "wf_area (use_page i (si'\<lparr>lowest_alloc := 0\<rparr>))"
    by (rule wf_use_page [OF wf]) (use assms(2) in \<open>simp add: free_slots_def\<close>)
  moreover have "area ((use_page i si')\<lparr>lowest_alloc := 0\<rparr>) = area si"
    using same(1) area_use_page [of i si'] by (simp add: area_def)
  ultimately show ?thesis
    using same(2) assms(2) area_eqD(8) [OF same(1)]
    by (auto simp: took_def use_page_lowest_alloc free_slots_def)
qed

lemma find_cluster_free:
  assumes "find_cluster m lim i e0 = Some e" and "\<forall>j. e0 < j + SWAPFILE_CLUSTER \<and> j < i \<longrightarrow> m j = 0"
    and "e0 < i + SWAPFILE_CLUSTER" and "SWAPFILE_CLUSTER \<le> e0 + 1"
  shows "e < lim \<and> SWAPFILE_CLUSTER \<le> e + 1 \<and> m (e - (SWAPFILE_CLUSTER - 1)) = 0"
  using assms
proof (induction m lim i e0 rule: find_cluster.induct)
  case (1 m lim i e0)
  from "1.prems"(1) have range: "i \<le> e0 \<and> e0 < lim"
    by (subst (asm) find_cluster.simps) (auto split: if_splits)
  consider (used) "m i \<noteq> 0" | (last) "m i = 0" "i = e0" | (step) "m i = 0" "i \<noteq> e0" by blast
  then show ?case
  proof cases
    case used
    with "1.prems"(1) range have "find_cluster m lim (Suc i) (i + SWAPFILE_CLUSTER) = Some e"
      by (subst (asm) find_cluster.simps) simp
    from "1.IH"(1) [OF range used this] show ?thesis by auto
  next
    case last
    with "1.prems"(1) range have "e = e0" by (subst (asm) find_cluster.simps) simp
    moreover have "m (e0 - (SWAPFILE_CLUSTER - 1)) = 0"
      using "1.prems"(2) [rule_format, of "e0 - (SWAPFILE_CLUSTER - 1)"] "1.prems"(4) last by simp
    ultimately show ?thesis using "1.prems"(4) range by simp
  next
    case step
    with "1.prems"(1) range have "find_cluster m lim (Suc i) e0 = Some e"
      by (subst (asm) find_cluster.simps) simp
    moreover have "\<forall>j. e0 < j + SWAPFILE_CLUSTER \<and> j < Suc i \<longrightarrow> m j = 0"
      using "1.prems"(2) step(1) less_Suc_eq by metis
    ultimately show ?thesis using "1.IH"(2) [OF range _ step(2)] step(1) "1.prems"(3,4) by simp
  qed
qed

lemma find_cluster_start:
  assumes "find_cluster m lim i (i + SWAPFILE_CLUSTER - 1) = Some e"
  shows "e - (SWAPFILE_CLUSTER - 1) < lim \<and> m (e - (SWAPFILE_CLUSTER - 1)) = 0"
  using find_cluster_free [OF assms] by auto

lemma scan_from_spec:
  assumes "scanning si si'" and "SWP_WRITEOK \<in> flags si" and "base \<le> si_max si"
    and "lowest_alloc si' = 0 \<or> found \<and> offset \<in> free_slots si"
  shows "\<exists>i s. scan_from found si' offset base = Some (i, s) \<and> took si i s"
proof -
  have wf: "wf_area (si'\<lparr>lowest_alloc := 0\<rparr>)" and same: "area si' = area si" "swap_map si' = swap_map si"
    using assms(1) by (auto simp: scanning_def)
  note eq = area_eqD [OF same(1)]
  have fs: "free_slots si' = free_slots si" by (rule free_slots_cong [OF same(2) eq(8)])
  have disc: "SWP_DISCARDING \<notin> flags si" using wf eq by (simp add: wf_area_def)
  have take: "scan_from found si' offset base = Some (i, (use_page i si')\<lparr>lowest_alloc := 0\<rparr>)"
    if "i \<in> free_slots si'" "scan_checks si' offset base = Some (i, use_page i si')" for i
  proof -
    have "i \<noteq> 0" using wf_area_bits(3) [OF wf] that(1) by metis
    moreover have "after_alloc found i (use_page i si') = Some ((use_page i si')\<lparr>lowest_alloc := 0\<rparr>)"
      if "lowest_alloc si' = 0 \<or> found"
      using that disc eq(1) by (auto simp: after_alloc_def)
    ultimately show ?thesis using that assms(4) by (auto simp: scan_from_def)
  qed
  consider "scan_checks si' offset base = Some (0, si')" "lowest_alloc si' = 0"
    | i where "i \<in> free_slots si'" "scan_checks si' offset base = Some (i, use_page i si')"
    using scan_checks_spec [OF wf, of base offset] scan_checks_free [OF wf, of offset base] assms eq fs by auto
  then show ?thesis
  proof cases
    case 1
    then have "wf_area si'" using wf by (simp add: wf_area_def free_slots_def used_slots_def)
    with 1 same show ?thesis by (simp add: scan_from_def took_def)
  next
    case 2
    show ?thesis using take [OF 2] took_use_page [OF assms(1) 2(1)] by blast
  qed
qed

lemma scan_swap_map_spec:
  assumes "wf_area si" and "SWP_WRITEOK \<in> flags si"
  shows "\<exists>i s. scan_swap_map si = Some (i, s) \<and> took si i s"
proof -
  define n1 where "n1 = (if cluster_nr si = 0 then 2 ^ 32 - 1 else cluster_nr si - 1)"
  define base where "base = (if SWP_SOLIDSTATE \<in> flags si then cluster_next si else lowest_bit si)"
  define si2 where "si2 = (if SWP_DISCARDABLE \<in> flags si then si\<lparr>cluster_nr := n1, lowest_alloc := si_max si, highest_alloc := 0\<rparr>
    else si\<lparr>cluster_nr := n1\<rparr>)"
  have la: "lowest_alloc si = 0" and cn: "cluster_next si \<le> si_max si" using assms(1) by (auto simp: wf_area_def)
  have sc: "scanning si (si\<lparr>cluster_nr := n\<rparr>)" "scanning si (si2\<lparr>cluster_nr := n, lowest_alloc := 0\<rparr>)"
    "c \<le> si_max si \<Longrightarrow> scanning si (si2\<lparr>cluster_next := c, cluster_nr := n\<rparr>)" for n c
    using assms(1) by (auto simp: scanning_def area_def si2_def wf_area_def free_slots_def used_slots_def)
  note simple = scan_from_spec [OF sc(1) assms(2) cn, where found = False and offset = "cluster_next si"]
  show ?thesis
  proof (cases "cluster_nr si \<noteq> 0 \<or> (int (si_pages si) - int (inuse_pages si)) mod 2 ^ 32 < int SWAPFILE_CLUSTER")
    case True
    then show ?thesis
      using simple [of "cluster_nr si - 1"] simple [of "SWAPFILE_CLUSTER - 1"] la
      by (auto simp: scan_swap_map_def Let_def)
  next
    case False
    have "free_slots si \<noteq> {}"
      using False assms(1) by (auto simp: wf_area_def)
    then obtain f where "f < si_max si" "lowest_bit si \<le> f" using assms(1) by (auto simp: wf_area_def free_slots_def)
    then have base: "base \<le> si_max si" "lowest_bit si < si_max si" using cn by (auto simp: base_def)
    define cluster where "cluster = (case find_cluster (swap_map si) (Suc (highest_bit si)) base (base + SWAPFILE_CLUSTER - 1) of
       Some e \<Rightarrow> Some e | None \<Rightarrow> find_cluster (swap_map si) base (lowest_bit si) (lowest_bit si + SWAPFILE_CLUSTER - 1))"
    have unfold: "scan_swap_map si = (case cluster of
       Some e \<Rightarrow> scan_from True (si2\<lparr>cluster_next := e - (SWAPFILE_CLUSTER - 1), cluster_nr := SWAPFILE_CLUSTER - 1\<rparr>) (e - (SWAPFILE_CLUSTER - 1)) base
     | None \<Rightarrow> scan_from False (si2\<lparr>cluster_nr := SWAPFILE_CLUSTER - 1, lowest_alloc := 0\<rparr>) base base)"
      using False la unfolding scan_swap_map_def cluster_def base_def si2_def n1_def
      by (simp add: Let_def cong: option.case_cong)
    show ?thesis
    proof (cases cluster)
      case None
      with unfold scan_from_spec [OF sc(2) assms(2) base(1), where found = False and offset = base] show ?thesis by simp
    next
      case (Some e)
      let ?off = "e - (SWAPFILE_CLUSTER - 1)"
      have "?off < si_max si \<and> swap_map si ?off = 0"
        using Some find_cluster_start [of "swap_map si"] base assms(1) unfolding cluster_def
        by (fastforce simp: wf_area_def split: option.splits)
      then have "?off \<in> free_slots si" "?off \<le> si_max si" by (auto simp: free_slots_def)
      with unfold Some scan_from_spec [OF sc(3) assms(2) base(1), where found = True and offset = ?off]
      show ?thesis by simp
    qed
  qed
qed

section \<open>The swap space\<close>

text \<open>
  The swap areas in use form the list that begins at \<open>swap_list.head\<close>; \<open>swap_list.next\<close> is one
  of them.
\<close>

fun linked :: "swap_info_struct list \<Rightarrow> int \<Rightarrow> nat list \<Rightarrow> bool" where
  "linked sis t [] \<longleftrightarrow> t < 0"
| "linked sis t (u # us) \<longleftrightarrow> t = int u \<and> linked sis (next_type (sis ! u)) us"

definition wf_swap :: "swap_kernel \<Rightarrow> bool" where
  "wf_swap k \<longleftrightarrow> length (swap_info k) = MAX_SWAPFILES \<and> nr_swapfiles k \<le> MAX_SWAPFILES \<and>
     (\<forall>t < nr_swapfiles k. SWP_USED \<in> flags (swap_info k ! t) \<longrightarrow> wf_area (swap_info k ! t)) \<and>
     (\<exists>ts. linked (swap_info k) (swap_list_head k) ts \<and>
        set ts = {t. t < nr_swapfiles k \<and> SWP_USED \<in> flags (swap_info k ! t)} \<and>
        (if ts = [] then swap_list_next k < 0 else swap_list_next k \<in> int ` set ts))"

text \<open>How often an entry is in use; 0 for one that does not exist.\<close>

definition swap_count :: "swap_kernel \<Rightarrow> ulong \<Rightarrow> nat" where
  "swap_count k v = (case swap_info_get v k of None \<Rightarrow> 0 | Some t \<Rightarrow> swap_map (swap_info k ! t) (swp_offset v))"

text \<open>What does not change when entries are taken and freed.\<close>

definition areas :: "swap_kernel \<Rightarrow> nat \<times> swap_info_struct list" where
  "areas k = (nr_swapfiles k, map area (swap_info k))"

lemma areas_nth:
  assumes "areas a = areas b" and "t < length (swap_info a)"
  shows "area (swap_info a ! t) = area (swap_info b ! t)"
proof -
  have eq: "map area (swap_info a) = map area (swap_info b)" using assms(1) by (simp add: areas_def)
  then have "t < length (swap_info b)" using assms(2) map_eq_imp_length_eq by metis
  with arg_cong [OF eq, of "\<lambda>l. l ! t"] assms(2) show ?thesis by simp
qed

text \<open>Replacing an area by one that differs in the use of its pages only.\<close>

lemma areas_update:
  "t < length (swap_info k) \<Longrightarrow> area si = area (swap_info k ! t) \<Longrightarrow>
   areas (k\<lparr>swap_list_next := n, swap_info := (swap_info k)[t := si]\<rparr>) = areas k"
  by (simp add: areas_def map_update) (metis list_update_id length_map nth_map)

lemma linked_cong:
  assumes "\<forall>t. next_type (sis ! t) = next_type (sis' ! t)"
  shows "linked sis t ts = linked sis' t ts"
  using assms by (induction ts arbitrary: t) auto

lemma next_type_update:
  "t < length sis \<Longrightarrow> area si = area (sis ! t) \<Longrightarrow> next_type (sis[t := si] ! u) = next_type (sis ! u)"
  by (cases "u = t") (auto dest: area_eqD)

lemma flags_update:
  "t < length sis \<Longrightarrow> area si = area (sis ! t) \<Longrightarrow> flags (sis[t := si] ! u) = flags (sis ! u)"
  by (cases "u = t") (auto dest: area_eqD)

lemma wf_swap_update:
  assumes "wf_swap k" and "t < nr_swapfiles k" and "SWP_USED \<in> flags (swap_info k ! t)"
    and "area si = area (swap_info k ! t)" and "wf_area si" and "swap_list_next k' = swap_list_next k \<or> swap_list_next k' = int t \<or>
      (\<exists>u < nr_swapfiles k. swap_list_next k' = int u \<and> SWP_USED \<in> flags (swap_info k ! u))"
    and "swap_info k' = (swap_info k)[t := si]" and "nr_swapfiles k' = nr_swapfiles k" and "swap_list_head k' = swap_list_head k"
  shows "wf_swap k'"
proof -
  have len: "t < length (swap_info k)" using assms(1,2) by (auto simp: wf_swap_def)
  note fl = flags_update [OF len assms(4)]
  obtain ts where ts: "linked (swap_info k) (swap_list_head k) ts"
    "set ts = {t. t < nr_swapfiles k \<and> SWP_USED \<in> flags (swap_info k ! t)}"
    "if ts = [] then swap_list_next k < 0 else swap_list_next k \<in> int ` set ts"
    using assms(1) by (auto simp: wf_swap_def)
  have "t \<in> set ts" using ts(2) assms(2,3) by simp
  then have "swap_list_next k' \<in> int ` set ts" "ts \<noteq> []" using ts assms(6) by (auto split: if_splits)
  moreover have "linked (swap_info k') (swap_list_head k') ts"
    unfolding assms(7,9) by (rule linked_cong [THEN iffD1, OF _ ts(1)]) (simp add: next_type_update [OF len assms(4)])
  moreover have "\<forall>u < nr_swapfiles k. SWP_USED \<in> flags (swap_info k ! u) \<longrightarrow> wf_area (swap_info k' ! u)"
    unfolding assms(7) nth_list_update [OF len, where x = si] using assms(1,5) by (simp add: wf_swap_def)
  moreover have "length (swap_info k') = MAX_SWAPFILES" "nr_swapfiles k' \<le> MAX_SWAPFILES"
    using assms(1,7,8) by (simp_all add: wf_swap_def)
  ultimately show ?thesis
    unfolding wf_swap_def assms(8) by (intro conjI exI [of _ ts]) (simp_all only: assms(7) ts(2) fl if_False simp_thms)
qed

lemma swap_count_update:
  assumes "wf_swap k" and "t < nr_swapfiles k" and "SWP_USED \<in> flags (swap_info k ! t)"
    and "area si = area (swap_info k ! t)" and "swap_map si = (swap_map (swap_info k ! t))(i := n)"
    and "i < si_max si" and "i \<noteq> 0"
    and "swap_info k' = (swap_info k)[t := si]" and "nr_swapfiles k' = nr_swapfiles k"
  shows "swap_count k' = (swap_count k)(swp_entry t i := n)"
proof
  fix v
  have len: "t < length (swap_info k)" "t < 32" using assms(1,2) by (auto simp: wf_swap_def)
  have "si_max (swap_info k ! t) \<le> 2 ^ 32" using assms(1-3) by (auto simp: wf_swap_def wf_area_def)
  then have i: "i < 2 ^ 59" using assms(6) area_eqD(8) [OF assms(4)] by simp
  note fl = flags_update [OF len(1) assms(4)]
  have ne: "swp_entry t i \<noteq> 0"
    using swp_offset_entry [OF len(2) i] assms(7) by (auto simp: swp_offset_def)
  show "swap_count k' v = ((swap_count k)(swp_entry t i := n)) v"
  proof (cases "v = swp_entry t i")
    case True
    then show ?thesis
      using ne assms(2,3,5,6,8,9) len i area_eqD(1) [OF assms(4)]
      by (auto simp: swap_count_def swap_info_get_def Let_def)
  next
    case False
    then have "swp_type v = t \<Longrightarrow> swp_offset v \<noteq> i"
      using swp_entry_inj [of v "swp_entry t i"] len i by auto
    then show ?thesis
      using False assms(5,8,9) len area_eqD(8) [OF assms(4)] fl [of "swp_type v"]
      by (cases "swp_type v = t") (auto simp: swap_count_def swap_info_get_def Let_def)
  qed
qed

lemma swap_count_same:
  assumes "t < length (swap_info k)" and "area si = area (swap_info k ! t)" and "swap_map si = swap_map (swap_info k ! t)"
    and "swap_info k' = (swap_info k)[t := si]" and "nr_swapfiles k' = nr_swapfiles k"
  shows "swap_count k' = swap_count k"
proof
  fix v
  show "swap_count k' v = swap_count k v"
    using assms area_eqD(8) [OF assms(2)] flags_update [OF assms(1,2), of "swp_type v"]
    by (cases "swp_type v = t") (auto simp: swap_count_def swap_info_get_def Let_def)
qed

text \<open>Going through the areas from one of them: the round robin ends.\<close>

lemma linked_rest:
  assumes "linked sis t us" and "u \<in> set us"
  shows "\<exists>vs. linked sis (int u) vs \<and> set vs \<subseteq> set us"
  using assms
proof (induction us arbitrary: t)
  case (Cons a us)
  show ?case
  proof (cases "u = a")
    case True
    with Cons.prems show ?thesis by (intro exI [of _ "a # us"]) simp
  next
    case False
    with Cons.prems have "linked sis (next_type (sis ! a)) us" "u \<in> set us" by auto
    from Cons.IH [OF this] show ?thesis by auto
  qed
qed simp

definition used_types :: "swap_kernel \<Rightarrow> nat set" where
  "used_types k = {t. t < nr_swapfiles k \<and> SWP_USED \<in> flags (swap_info k ! t)}"

lemma used_types_update:
  "t < length (swap_info k) \<Longrightarrow> area si = area (swap_info k ! t) \<Longrightarrow>
   used_types (k\<lparr>swap_list_next := n, swap_info := (swap_info k)[t := si]\<rparr>) = used_types k"
  by (simp add: used_types_def flags_update)

text \<open>The number of free pages in all areas.\<close>

definition room :: "swap_kernel \<Rightarrow> nat" where
  "room k = (\<Sum>t \<in> used_types k. card (free_slots (swap_info k ! t)))"

lemma room_update:
  assumes "t \<in> used_types k" and "t < length (swap_info k)" and "area si = area (swap_info k ! t)"
    and "k' = k\<lparr>swap_list_next := n, swap_info := (swap_info k)[t := si]\<rparr>"
  shows "room k' + card (free_slots (swap_info k ! t)) = room k + card (free_slots si)"
proof -
  have fin: "finite (used_types k)" by (simp add: used_types_def)
  have "room k' = (\<Sum>u \<in> used_types k. card (free_slots (swap_info k' ! u)))"
    unfolding room_def using used_types_update [OF assms(2,3)] assms(4) by simp
  also have "\<dots> = card (free_slots si) + (\<Sum>u \<in> used_types k - {t}. card (free_slots (swap_info k' ! u)))"
    using assms(2,4) by (simp add: sum.remove [OF fin assms(1)])
  also have "(\<Sum>u \<in> used_types k - {t}. card (free_slots (swap_info k' ! u))) = (\<Sum>u \<in> used_types k - {t}. card (free_slots (swap_info k ! u)))"
    by (rule sum.cong) (auto simp: assms(4))
  finally show ?thesis by (simp add: room_def sum.remove [OF fin assms(1)])
qed

definition got_entry :: "swap_kernel \<Rightarrow> ulong \<Rightarrow> swap_kernel \<Rightarrow> bool" where
  "got_entry k v k' \<longleftrightarrow> wf_swap k' \<and> areas k' = areas k \<and>
     (if v = 0 then swap_count k' = swap_count k \<and> room k' = room k
      else swap_count k v = 0 \<and> swap_count k' = (swap_count k)(v := 1) \<and> room k = Suc (room k'))"

lemma wf_swap_area:
  assumes "wf_swap k" and "t < nr_swapfiles k" and "SWP_USED \<in> flags (swap_info k ! t)"
  shows "wf_area (swap_info k ! t)" and "t < length (swap_info k)" and "t < 32"
  using assms by (auto simp: wf_swap_def)

lemma area_step:
  assumes "wf_swap k" and "t < nr_swapfiles k" and "SWP_USED \<in> flags (swap_info k ! t)"
    and "took (swap_info k ! t) i si" and "u < nr_swapfiles k" and "SWP_USED \<in> flags (swap_info k ! u)"
  shows "got_entry k (if i = 0 then 0 else swp_entry t i) (k\<lparr>swap_list_next := int u, swap_info := (swap_info k)[t := si]\<rparr>)"
proof -
  let ?k = "k\<lparr>swap_list_next := int u, swap_info := (swap_info k)[t := si]\<rparr>"
  note wa = wf_swap_area [OF assms(1-3)]
  have took: "wf_area si" "area si = area (swap_info k ! t)"
    "if i = 0 then swap_map si = swap_map (swap_info k ! t)
     else i \<in> free_slots (swap_info k ! t) \<and> swap_map si = (swap_map (swap_info k ! t))(i := 1)"
    using assms(4) by (auto simp: took_def)
  have wf: "wf_swap ?k"
    by (rule wf_swap_update [OF assms(1-3) took(2,1)]) (use assms(5,6) in auto)
  have ar: "areas ?k = areas k" by (rule areas_update [OF wa(2) took(2)])
  have "t \<in> used_types k" using assms(2,3) by (simp add: used_types_def)
  note rm = room_update [OF this wa(2) took(2) refl, of "int u"]
  show ?thesis
  proof (cases "i = 0")
    case True
    have "swap_count ?k = swap_count k"
      by (rule swap_count_same [OF wa(2) took(2)]) (use True took(3) in simp_all)
    moreover have "free_slots si = free_slots (swap_info k ! t)"
      by (rule free_slots_cong) (use True took(3) area_eqD(8) [OF took(2)] in simp_all)
    ultimately show ?thesis using True wf ar rm by (simp add: got_entry_def)
  next
    case False
    with took(3) have i: "i < si_max (swap_info k ! t)" "swap_map (swap_info k ! t) i = 0"
      "swap_map si = (swap_map (swap_info k ! t))(i := 1)" by (auto simp: free_slots_def)
    have "i < 2 ^ 59" using i(1) wa(1) by (simp add: wf_area_def)
    then have ent: "swp_type (swp_entry t i) = t" "swp_offset (swp_entry t i) = i" using wa(3) by simp_all
    then have new: "swp_entry t i \<noteq> 0" "swap_count k (swp_entry t i) = 0"
      using False i(2) by (auto simp: swp_offset_def swap_count_def swap_info_get_def Let_def)
    have cnt: "swap_count ?k = (swap_count k)(swp_entry t i := 1)"
      by (rule swap_count_update [OF assms(1-3) took(2) i(3)]) (use False i(1) area_eqD(8) [OF took(2)] in simp_all)
    have "free_slots si = free_slots (swap_info k ! t) - {i}"
      unfolding free_slots_def i(3) area_eqD(8) [OF took(2)] by (rule set_eqI) simp
    moreover have "i \<in> free_slots (swap_info k ! t)" using i(1,2) by (simp add: free_slots_def)
    ultimately have "card (free_slots (swap_info k ! t)) = Suc (card (free_slots si))"
      by (simp only: card.remove [of "free_slots (swap_info k ! t)" i] finite_slots)
    with rm have "room k = Suc (room ?k)" by linarith
    with new cnt False wf ar show ?thesis by (simp add: got_entry_def)
  qed
qed

lemma got_entry_trans:
  "got_entry k 0 k1 \<Longrightarrow> got_entry k1 v k2 \<Longrightarrow> got_entry k v k2"
  by (auto simp: got_entry_def)

lemma wf_swap_simps [simp]:
  "wf_swap (k\<lparr>nr_swap_pages := n\<rparr>) = wf_swap k" "areas (k\<lparr>nr_swap_pages := n\<rparr>) = areas k"
  "swap_count (k\<lparr>nr_swap_pages := n\<rparr>) = swap_count k" "used_types (k\<lparr>nr_swap_pages := n\<rparr>) = used_types k"
  "room (k\<lparr>nr_swap_pages := n\<rparr>) = room k"
  by (simp_all add: room_def wf_swap_def areas_def swap_count_def swap_info_get_def used_types_def fun_eq_iff Let_def)

lemma got_entry_nr_pages:
  "got_entry (k\<lparr>nr_swap_pages := n\<rparr>) v k' = got_entry k v k'" "got_entry k v (k'\<lparr>nr_swap_pages := n\<rparr>) = got_entry k v k'"
  by (simp_all add: got_entry_def)

lemma next_area_step:
  assumes "linked (swap_info k) (swap_list_head k) ts" and "set ts = used_types k"
    and "linked (swap_info k) (int t) (t # vs)" and "set (t # vs) \<subseteq> used_types k" and "wrapped < 2"
  shows "\<exists>u w ws. next_area k (int t) wrapped = (int u, w) \<and> u \<in> used_types k \<and>
    linked (swap_info k) (int u) ws \<and> set ws \<subseteq> used_types k \<and>
    (2 - w) * Suc (length ts) + length ws < (2 - wrapped) * Suc (length ts) + length (t # vs)"
proof (cases "next_area k (int t) wrapped = (swap_list_head k, wrapped + 1)")
  case True
  have "ts \<noteq> []" using assms(2,4) by (metis empty_iff list.set(1) list.set_intros(1) subsetD)
  then obtain u us where ts: "ts = u # us" by (cases ts) simp
  have head: "swap_list_head k = int u" using assms(1) by (simp add: ts)
  have "(2 - (wrapped + 1)) * Suc (length ts) + length ts < (2 - wrapped) * Suc (length ts) + length (t # vs)"
    using less_2_cases [OF assms(5)] by auto
  moreover have "u \<in> used_types k" unfolding assms(2) [symmetric] ts by simp
  ultimately show ?thesis
    using True assms(1) unfolding head assms(2) [symmetric] by blast
next
  case False
  let ?n = "next_type (swap_info k ! t)"
  have nxt: "next_area k (int t) wrapped = (?n, wrapped)" "\<not> ?n < 0"
    using False by (auto simp: next_area_def Let_def split: if_splits)
  have link: "linked (swap_info k) ?n vs" using assms(3) by simp
  then obtain u us where vs: "vs = u # us" using nxt(2) by (cases vs) simp_all
  then have n: "?n = int u" using link by simp
  have "(2 - wrapped) * Suc (length ts) + length vs < (2 - wrapped) * Suc (length ts) + length (t # vs)" by simp
  moreover have "u \<in> used_types k" "set vs \<subseteq> used_types k" using assms(4) by (simp_all add: vs)
  ultimately show ?thesis
    using nxt(1) link unfolding n by blast
qed

lemma get_swap_loop_spec:
  assumes "wf_swap k" and "linked (swap_info k) (swap_list_head k) ts" and "set ts = used_types k"
    and "linked (swap_info k) type us" and "set us \<subseteq> used_types k"
  shows "\<exists>v k'. get_swap_loop k type wrapped = Some (v, k') \<and> got_entry k v k'"
  using assms
proof (induction "(2 - wrapped) * Suc (length ts) + length us" arbitrary: k type wrapped us rule: less_induct)
  case less
  show ?case
  proof (cases "type < 0 \<or> 2 \<le> wrapped")
    case True
    then show ?thesis using less.prems(1)
      by (subst get_swap_loop.simps) (simp add: got_entry_def)
  next
    case False
    then obtain t vs where us: "us = t # vs" "type = int t"
      using less.prems(4) by (cases us) auto
    then have t: "t < nr_swapfiles k" "SWP_USED \<in> flags (swap_info k ! t)"
      using less.prems(5) by (auto simp: used_types_def)
    obtain u w ws where nxt: "next_area k type wrapped = (int u, w)" "u \<in> used_types k"
      "linked (swap_info k) (int u) ws" "set ws \<subseteq> used_types k"
      "(2 - w) * Suc (length ts) + length ws < (2 - wrapped) * Suc (length ts) + length us"
      using next_area_step [OF less.prems(2,3), of t vs wrapped] less.prems(4,5) False us by auto
    let ?si = "swap_info k ! t"
    have unfold: "get_swap_loop k type wrapped =
        (if highest_bit ?si = 0 \<or> SWP_WRITEOK \<notin> flags ?si then get_swap_loop k (int u) w
         else Option.bind (scan_swap_map ?si) (\<lambda>(offset, si1).
           let k1 = k\<lparr>swap_list_next := int u, swap_info := (swap_info k)[t := si1]\<rparr>
           in if offset \<noteq> 0 then Some (swp_entry t offset, k1) else get_swap_loop k1 (int u) w))"
      using False unfolding us(2) by (subst get_swap_loop.simps) (simp add: Let_def nxt(1) [unfolded us(2)] cong: if_cong)
    show ?thesis
    proof (cases "highest_bit ?si = 0 \<or> SWP_WRITEOK \<notin> flags ?si")
      case True
      with unfold less.hyps [OF nxt(5) less.prems(1-3) nxt(3,4)] show ?thesis by simp
    next
      case ok: False
      note wa = wf_swap_area [OF less.prems(1) t]
      obtain i si1 where scan: "scan_swap_map ?si = Some (i, si1)" "took ?si i si1"
        using scan_swap_map_spec [of ?si] wa(1) ok by auto
      let ?k1 = "k\<lparr>swap_list_next := int u, swap_info := (swap_info k)[t := si1]\<rparr>"
      have same: "area si1 = area ?si" using scan(2) by (simp add: took_def)
      have got: "got_entry k (if i = 0 then 0 else swp_entry t i) ?k1"
        using area_step [OF less.prems(1) t scan(2)] nxt(2) by (simp add: used_types_def)
      show ?thesis
      proof (cases "i = 0")
        case False
        with unfold ok scan got show ?thesis by (auto simp: Let_def)
      next
        case True
        have link: "linked (swap_info ?k1) x l = linked (swap_info k) x l" for x l
          using linked_cong [of "swap_info ?k1" "swap_info k"] next_type_update [OF wa(2) same] by simp
        have "\<exists>v k'. get_swap_loop ?k1 (int u) w = Some (v, k') \<and> got_entry ?k1 v k'"
          by (rule less.hyps [OF nxt(5)])
            (use got less.prems(2,3) nxt(3,4) link used_types_update [OF wa(2) same] in \<open>simp_all add: got_entry_def True\<close>)
        with unfold ok scan True got_entry_trans [of k ?k1] got show ?thesis by (auto simp: Let_def)
      qed
    qed
  qed
qed

lemma get_swap_page_spec:
  assumes "wf_swap k"
  shows "\<exists>v k'. get_swap_page k = Some (v, k') \<and> got_entry k v k'"
proof (cases "nr_swap_pages k \<le> 0")
  case True
  with assms show ?thesis by (simp add: get_swap_page_def got_entry_def)
next
  case False
  let ?k = "k\<lparr>nr_swap_pages := nr_swap_pages k - 1\<rparr>"
  obtain ts where ts: "linked (swap_info k) (swap_list_head k) ts" "set ts = used_types k"
    "if ts = [] then swap_list_next k < 0 else swap_list_next k \<in> int ` set ts"
    using assms by (auto simp: wf_swap_def used_types_def)
  have "\<exists>us. linked (swap_info k) (swap_list_next k) us \<and> set us \<subseteq> used_types k"
  proof (cases "ts = []")
    case True
    with ts(3) show ?thesis by (intro exI [of _ "[]"]) simp
  next
    case False
    with ts(3) obtain u where "u \<in> set ts" "swap_list_next k = int u" by auto
    with linked_rest [OF ts(1)] ts(2) show ?thesis by simp
  qed
  then obtain us where "linked (swap_info k) (swap_list_next k) us" "set us \<subseteq> used_types k" by blast
  with get_swap_loop_spec [of ?k ts "swap_list_next k" us 0] assms ts(1,2) False show ?thesis
    by (auto simp: get_swap_page_def got_entry_nr_pages)
qed

section \<open>Freeing\<close>

text \<open>The area after its page \<open>i\<close>, which was used once, became free.\<close>

definition unuse_page :: "nat \<Rightarrow> swap_info_struct \<Rightarrow> swap_info_struct" where
  "unuse_page i si = si\<lparr>swap_map := (swap_map si)(i := 0), lowest_bit := min (lowest_bit si) i,
     highest_bit := max (highest_bit si) i, inuse_pages := inuse_pages si - 1\<rparr>"

lemma wf_unuse_page:
  assumes "wf_area si" and "i < si_max si" and "swap_map si i = 1" and "i \<noteq> 0"
  shows "wf_area (unuse_page i si)"
proof -
  have s: "free_slots (unuse_page i si) = insert i (free_slots si)" "used_slots (unuse_page i si) = used_slots si - {i}"
    "i \<notin> free_slots si" "i \<in> used_slots si"
    using assms by (auto simp: free_slots_def used_slots_def unuse_page_def)
  then have "card (free_slots (unuse_page i si)) = card (free_slots si) + 1"
    "card (used_slots (unuse_page i si)) = card (used_slots si) - 1" "0 < card (used_slots si)"
    by (auto simp: card_gt_0_iff)
  moreover have "\<forall>f \<in> insert i (free_slots si). min (lowest_bit si) i \<le> f \<and> f \<le> max (highest_bit si) i"
    using assms(1) by (auto simp: wf_area_def)
  ultimately show ?thesis
    using assms s(1) by (simp add: wf_area_def unuse_page_def)
qed

lemma swap_free_spec:
  assumes "wf_swap k" and "swap_count k v = 1"
  shows "\<exists>k'. swap_free v k = Some k' \<and> wf_swap k' \<and> areas k' = areas k \<and> swap_count k' = (swap_count k)(v := 0)"
proof -
  define t where "t = swp_type v"
  define i where "i = swp_offset v"
  define si where "si = swap_info k ! t"
  have get: "swap_info_get v k = Some t" and cnt: "swap_map si i = 1"
    using assms(2) by (auto simp: swap_count_def swap_info_get_def Let_def t_def i_def si_def split: if_splits)
  then have t: "t < nr_swapfiles k" "SWP_USED \<in> flags si" and i: "i < si_max si"
    by (auto simp: swap_info_get_def Let_def t_def i_def si_def split: if_splits)
  note wa = wf_swap_area [OF assms(1) t(1) t(2) [unfolded si_def], folded si_def]
  have "i \<noteq> 0" using cnt wa(1) by (cases "i = 0") (auto simp: wf_area_def)
  have same: "area (unuse_page i si) = area (swap_info k ! t)" by (simp add: unuse_page_def area_def si_def)
  let ?k = "k\<lparr>swap_info := (swap_info k)[t := unuse_page i si], nr_swap_pages := nr_swap_pages k + 1,
    swap_list_next := (if prio (swap_info k ! nat (swap_list_next k)) < prio si then int t else swap_list_next k)\<rparr>"
  have nxt: "\<not> swap_list_next k < 0"
  proof -
    obtain ts where ts: "set ts = {t. t < nr_swapfiles k \<and> SWP_USED \<in> flags (swap_info k ! t)}"
      "if ts = [] then swap_list_next k < 0 else swap_list_next k \<in> int ` set ts"
      using assms(1) unfolding wf_swap_def by blast
    have "t \<in> set ts" unfolding ts(1) using t by (simp add: si_def)
    with ts(2) show ?thesis by (cases "ts = []") auto
  qed
  have "swap_free v k = Some ?k"
    using get cnt nxt by (simp add: swap_free_def swap_entry_free_def Let_def i_def [symmetric] si_def [symmetric] unuse_page_def)
  moreover have "wf_swap ?k"
    by (rule wf_swap_update [OF assms(1) t(1) t(2) [unfolded si_def] same wf_unuse_page [OF wa(1) i cnt \<open>i \<noteq> 0\<close>]]) simp_all
  moreover have "areas ?k = areas k"
    using areas_update [OF wa(2) same] by (simp add: areas_def)
  moreover have "swap_count ?k = (swap_count k)(swp_entry t i := 0)"
    by (rule swap_count_update [OF assms(1) t(1) t(2) [unfolded si_def] same])
      (use i \<open>i \<noteq> 0\<close> in \<open>simp_all add: unuse_page_def si_def\<close>)
  moreover have "swp_entry t i = v"
    by (rule swp_entry_inj) (use wa(1,3) i in \<open>simp_all add: wf_area_def t_def i_def\<close>)
  ultimately show ?thesis by blast
qed

section \<open>Blocks\<close>

definition in_extent :: "swap_extent \<Rightarrow> nat \<Rightarrow> bool" where
  "in_extent se i \<longleftrightarrow> start_page se \<le> i \<and> i < start_page se + nr_pages se"

lemma map_swap_loop_found:
  "map_swap_loop es n j i = Some (b, j') \<Longrightarrow> j < length es \<Longrightarrow>
   j' < length es \<and> in_extent (es ! j') i \<and> b = start_block (es ! j') + (i - start_page (es ! j'))"
proof (induction es n j i rule: map_swap_loop.induct)
  case (2 es n j i)
  show ?case
  proof (cases "in_extent (es ! j) i")
    case True
    with "2.prems" show ?thesis by (auto simp: Let_def in_extent_def)
  next
    case False
    have "(if Suc j = length es then 0 else Suc j) < length es" using "2.prems"(2) by auto
    moreover have "map_swap_loop es n (if Suc j = length es then 0 else Suc j) i = Some (b, j')"
      using "2.prems"(1) False by (auto simp: Let_def in_extent_def split: if_splits)
    ultimately show ?thesis using "2.IH" [OF refl] False by (simp add: in_extent_def)
  qed
qed simp

lemma map_swap_loop_finds:
  assumes "m < length es" and "in_extent (es ! m) i" and "j < length es"
    and "(if j \<le> m then m - j else length es + m - j) < n"
  shows "map_swap_loop es n j i \<noteq> None"
  using assms
proof (induction es n j i rule: map_swap_loop.induct)
  case (2 es n j i)
  show ?case
  proof (cases "in_extent (es ! j) i")
    case True
    then show ?thesis by (simp add: Let_def in_extent_def)
  next
    case False
    then have "j \<noteq> m" using "2.prems"(2) by auto
    let ?j = "if Suc j = length es then 0 else Suc j"
    have "?j < length es" "(if ?j \<le> m then m - ?j else length es + m - ?j) < n"
      using "2.prems"(1,3,4) \<open>j \<noteq> m\<close> by (auto split: if_splits)
    with "2.IH" [OF refl] "2.prems"(1,2) False show ?thesis
      by (simp add: Let_def in_extent_def)
  qed
qed simp

text \<open>
  Whatever extent is cached, a page in one of the extents is found, and (the extents being
  disjoint) its block is the one that extent gives.
\<close>

definition wf_extent_list :: "swap_info_struct \<Rightarrow> bool" where
  "wf_extent_list si \<longleftrightarrow> curr_swap_extent si < length (extent_list si) \<and>
     (\<forall>a \<in> set (extent_list si). \<forall>b \<in> set (extent_list si). \<forall>i. in_extent a i \<and> in_extent b i \<longrightarrow> a = b)"

lemma map_swap_page_spec:
  assumes "wf_extent_list si" and "se \<in> set (extent_list si)" and "in_extent se i"
  shows "\<exists>j. map_swap_page si i = Some (start_block se + (i - start_page se), si\<lparr>curr_swap_extent := j\<rparr>) \<and>
    wf_extent_list (si\<lparr>curr_swap_extent := j\<rparr>)"
proof -
  obtain m where m: "m < length (extent_list si)" "extent_list si ! m = se"
    using assms(2) by (auto simp: in_set_conv_nth)
  have cur: "curr_swap_extent si < length (extent_list si)" using assms(1) by (simp add: wf_extent_list_def)
  have "map_swap_loop (extent_list si) (length (extent_list si)) (curr_swap_extent si) i \<noteq> None"
    by (rule map_swap_loop_finds [OF m(1) _ cur]) (use m assms(3) cur in auto)
  then obtain b j where r: "map_swap_loop (extent_list si) (length (extent_list si)) (curr_swap_extent si) i = Some (b, j)"
    by auto
  note found = map_swap_loop_found [OF r cur]
  have "extent_list si ! j = se"
    using found assms m(2) nth_mem by (metis wf_extent_list_def)
  with r found assms(1) show ?thesis
    by (auto simp: map_swap_page_def wf_extent_list_def)
qed

text \<open>
  The interface the swap allocator relies on: taking an entry and freeing it, \<open>count k v\<close> being
  how often \<open>v\<close> is in use.
\<close>

locale swap_space =
  fixes get_page :: "'k \<Rightarrow> (ulong \<times> 'k) option" and free_page :: "ulong \<Rightarrow> 'k \<Rightarrow> 'k option"
    and valid :: "'k \<Rightarrow> bool" and count :: "'k \<Rightarrow> ulong \<Rightarrow> nat" and layout :: "'k \<Rightarrow> 'a" and space :: "'k \<Rightarrow> nat"
  assumes get_law: "valid k \<Longrightarrow> \<exists>v k'. get_page k = Some (v, k') \<and> valid k' \<and> layout k' = layout k \<and>
      (if v = 0 then count k' = count k
       else count k v = 0 \<and> count k' = (count k)(v := 1) \<and> space k' < space k)"
    and free_law: "valid k \<Longrightarrow> count k v = 1 \<Longrightarrow>
      \<exists>k'. free_page v k = Some k' \<and> valid k' \<and> layout k' = layout k \<and> count k' = (count k)(v := 0)"

lemma get_swap_page_law:
  assumes "wf_swap k"
  shows "\<exists>v k'. get_swap_page k = Some (v, k') \<and> wf_swap k' \<and> areas k' = areas k \<and>
    (if v = 0 then swap_count k' = swap_count k
     else swap_count k v = 0 \<and> swap_count k' = (swap_count k)(v := 1) \<and> room k' < room k)"
proof -
  obtain v k' where "get_swap_page k = Some (v, k')" "got_entry k v k'"
    using get_swap_page_spec [OF assms] by blast
  then show ?thesis by (intro exI [of _ v] exI [of _ k']) (simp add: got_entry_def split: if_splits)
qed

interpretation swap_map: swap_space get_swap_page swap_free wf_swap swap_count areas room
  by unfold_locales (rule get_swap_page_law, assumption, rule swap_free_spec)

section \<open>Properties\<close>

text \<open>
  C11. \<open>get_swap_page\<close> returns in every consistent state of the swap areas; an entry it returns was
  not in use before and is in use once afterwards, no other entry is affected, and freeing it with
  \<open>swap_free\<close> restores the counts of all entries and keeps the areas consistent.
\<close>

theorem swap_entry_lifecycle:
  assumes "wf_swap k"
  shows "\<exists>v k1. get_swap_page k = Some (v, k1) \<and> wf_swap k1 \<and>
    (if v = 0 then swap_count k1 = swap_count k
     else swap_count k v = 0 \<and> swap_count k1 = (swap_count k)(v := 1) \<and>
       (\<exists>k2. swap_free v k1 = Some k2 \<and> wf_swap k2 \<and> swap_count k2 = swap_count k))"
proof -
  obtain v k1 where get: "get_swap_page k = Some (v, k1)" "wf_swap k1"
    "if v = 0 then swap_count k1 = swap_count k else swap_count k v = 0 \<and> swap_count k1 = (swap_count k)(v := 1) \<and> room k1 < room k"
    using swap_map.get_law [OF assms] by blast
  show ?thesis
  proof (cases "v = 0")
    case False
    with get(3) have cnt: "swap_count k v = 0" "swap_count k1 = (swap_count k)(v := 1)" by auto
    then have "swap_count k1 v = 1" "(swap_count k1)(v := 0) = swap_count k" by auto
    with swap_map.free_law [OF get(2)] obtain k2 where "swap_free v k1 = Some k2" "wf_swap k2" "swap_count k2 = swap_count k"
      by metis
    with get(1,2) False cnt show ?thesis by (intro exI [of _ v] exI [of _ k1]) simp
  qed (use get in auto)
qed

definition demo_area :: "nat set \<Rightarrow> nat \<Rightarrow> nat \<Rightarrow> nat \<Rightarrow> nat \<Rightarrow> swap_info_struct" where
  "demo_area used low high after n =
     \<lparr>flags = {SWP_USED, SWP_WRITEOK}, prio = 0, next_type = -1, swap_file = True,
      bdev_of = Some \<lparr>bd_id = 8, bd_dev = 8, bd_ram = False\<rparr>,
      extent_list = [\<lparr>start_page = 0, nr_pages = 4, start_block = 100\<rparr>, \<lparr>start_page = 4, nr_pages = 2, start_block = 40\<rparr>],
      curr_swap_extent = 1, swap_map = (\<lambda>i. if i = 0 then 0x8000 else if i \<in> used then 1 else 0),
      lowest_bit = low, highest_bit = high, lowest_alloc = 0, highest_alloc = 0, cluster_next = after, cluster_nr = 9,
      si_pages = 5, si_max = 6, inuse_pages = n\<rparr>"

definition demo_swap :: swap_kernel where
  "demo_swap = \<lparr>nr_swap_pages = 4, swap_list_head = 0, swap_list_next = 0, nr_swapfiles = 1,
     swap_info = replicate MAX_SWAPFILES (demo_area {2} 1 5 2 1)\<rparr>"

lemma demo_area_slots:
  assumes "used \<subseteq> {1 ..< 6}"
  shows "free_slots (demo_area used low high after n) = {1 ..< 6} - used" and "used_slots (demo_area used low high after n) = used"
  using assms by (auto simp: free_slots_def used_slots_def demo_area_def)

lemma wf_demo_area: "wf_area (demo_area {2} 1 5 2 1)"
proof -
  have "card ({1 ..< 6} - {2 :: nat}) = 4" "\<not> {Suc 0 ..< 6} \<subseteq> {2}" by (auto simp: subset_iff)
  then show ?thesis
    by (simp add: wf_area_def demo_area_slots) (auto simp: demo_area_def)
qed

lemma wf_demo_swap: "wf_swap demo_swap"
  unfolding wf_swap_def
  by (intro conjI exI [of _ "[0]"]) (use wf_demo_area in \<open>auto simp: demo_swap_def demo_area_def\<close>)

theorem swap_entry_lifecycle_witness:
  "\<exists>v k1. get_swap_page demo_swap = Some (v, k1) \<and> wf_swap k1 \<and>
    (if v = 0 then swap_count k1 = swap_count demo_swap
     else swap_count demo_swap v = 0 \<and> swap_count k1 = (swap_count demo_swap)(v := 1) \<and>
       (\<exists>k2. swap_free v k1 = Some k2 \<and> wf_swap k2 \<and> swap_count k2 = swap_count demo_swap))"
  by (rule swap_entry_lifecycle [OF wf_demo_swap])

text \<open>
  C33. A free page can be missed: when the search begins above the lowest free page and all the
  pages from there up to \<open>highest_bit\<close> are in use, \<open>scan_swap_map\<close> continues at the page after
  \<open>lowest_bit\<close>, so that an area whose only free page is \<open>lowest_bit\<close> is reported to be full.
\<close>

theorem scan_misses_lowest_page:
  assumes "wf_area si" and "free_slots si = {lowest_bit si}" and "lowest_bit si < cluster_next si"
    and "cluster_next si \<le> highest_bit si" and "cluster_nr si \<noteq> 0"
  shows "\<exists>si'. scan_swap_map si = Some (0, si') \<and> swap_map si' (lowest_bit si) = 0"
proof -
  let ?si = "si\<lparr>cluster_nr := cluster_nr si - 1\<rparr>"
  have hi: "highest_bit si < si_max si" using assms(1) by (simp add: wf_area_def)
  have used: "swap_map si i \<noteq> 0" if "lowest_bit si < i" "i \<le> highest_bit si" for i
  proof -
    have "i \<notin> free_slots si" unfolding assms(2) using that(1) by simp
    with that(2) hi show ?thesis by (simp add: free_slots_def)
  qed
  have "lowest_bit si \<in> free_slots si" unfolding assms(2) by simp
  then have low: "swap_map si (lowest_bit si) = 0" by (simp add: free_slots_def)
  have "find (\<lambda>i. swap_map ?si i = 0) [Suc (cluster_next si) ..< Suc (highest_bit si)] = None"
    "find (\<lambda>i. swap_map ?si i = 0) [Suc (lowest_bit si) ..< cluster_next si] = None"
    using used assms(3,4) by (auto simp: find_None_iff simp del: upt_Suc)
  moreover have "swap_map si (cluster_next si) \<noteq> 0" using used assms(3,4) by simp
  ultimately have "scan_checks ?si (cluster_next si) (cluster_next si) = Some (0, ?si)"
    using assms(4) by (subst scan_checks.simps) (simp add: Let_def del: upt_Suc)
  then show ?thesis using assms(5) low by (simp add: scan_swap_map_def scan_from_def Let_def)
qed

theorem scan_misses_lowest_page_witness:
  "\<exists>si'. scan_swap_map (demo_area {2, 3, 4, 5} 1 4 4 4) = Some (0, si') \<and> swap_map si' 1 = 0"
proof -
  have "free_slots (demo_area {2, 3, 4, 5} 1 4 4 4) = {1}" "card {2, 3, 4, 5 :: nat} = 4"
    by (subst demo_area_slots) auto
  moreover from this have "wf_area (demo_area {2, 3, 4, 5} 1 4 4 4)"
    by (simp add: wf_area_def demo_area_slots(2)) (simp add: demo_area_def)
  ultimately show ?thesis
    using scan_misses_lowest_page [of "demo_area {2, 3, 4, 5} 1 4 4 4"] by (simp add: demo_area_def)
qed

end
