(* ===== verification/TOI_Swap.thy ===== *)
theory TOI_Swap
  imports TOI_Block_Stream TOI_Swapfile
begin

text \<open>
  The swap allocator (\<open>tuxonice_swap.c\<close>): storage for the image in the swap space of the kernel, and
  the signature in the header of a swap area that says whether there is an image.

  Arrays that the file shares with the block I/O layer are one object here as they are there:
  \<open>block_chain\<close> is the array the iterator walks (\<open>chains (posn (bio st))\<close>), and \<open>devinfo\<close> is
  \<open>devinfo (bio st)\<close>. Devices are opened by number through the kernel, which also turns swap files
  on and off and parses numbers: these services are the record \<open>swap_env\<close>. The outcome of an
  allocation is taken from the stream of outcomes of the block I/O state. A pointer to a block
  device is null, an error pointer, or a device; \<open>None\<close> is a dereference of one of the first two,
  or a \<open>BUG()\<close> or endless loop of the routines called.
\<close>

section \<open>State\<close>

datatype bdev_ptr = Null | Err int | Bdev bdev

datatype signature_change = IMAGE_SIGNATURE | NO_IMAGE_SIGNATURE | TRIED_RESUME | NO_TRIED_RESUME

record swap_state =
  bio :: bio_state
  kswap :: swap_kernel
  self :: nat
  swapextents :: hibernate_extent_chain
  header_dev_t :: nat
  headerblock :: ulong
  header_block_device :: bdev_ptr
  resume_swap_dev_t :: nat
  resume_firstblock :: ulong
  resume_block_device :: bdev_ptr
  header_pages_reserved :: int
  swap_pages_allocated :: int
  current_signature_page :: "page option"
  no_image_signature_contents :: "byte list"
  swapfilename :: string
  toi_swapon_status :: bool
  bdevs_opened :: "(nat \<times> bdev) option list"
  toi_state :: "toi_state_bit set"
  nr_hibernates :: int

record swap_env =
  open_by_devnum :: "nat \<Rightarrow> bdev option"
  name_to_dev_t :: "string \<Rightarrow> nat"
  stat_rdev :: "string \<Rightarrow> nat option"
  sys_swapon :: "string \<Rightarrow> swap_kernel \<Rightarrow> int \<times> swap_kernel"
  sys_swapoff :: "string \<Rightarrow> swap_kernel \<Rightarrow> swap_kernel"
  strict_strtoul :: "string \<Rightarrow> ulong option"

definition get_swap_info_struct :: "swap_state \<Rightarrow> nat \<Rightarrow> swap_info_struct" where
  "get_swap_info_struct st i = swap_info (kswap st) ! i"

definition ask :: "swap_state \<Rightarrow> bool \<times> swap_state" where
  "ask st = (let (got, b) = consult (bio st) in (got, st\<lparr>bio := b\<rparr>))"

section \<open>Devices\<close>

definition close_bdev :: "nat \<Rightarrow> swap_state \<Rightarrow> swap_state" where
  "close_bdev i st = st\<lparr>bdevs_opened := (bdevs_opened st)[i := None]\<rparr>"

definition close_bdevs :: "swap_state \<Rightarrow> swap_state" where
  "close_bdevs st = (fold close_bdev [0 ..< MAX_SWAPFILES + 2] st)\<lparr>resume_block_device := Null, header_block_device := Null\<rparr>"

definition open_bdev :: "swap_env \<Rightarrow> nat \<Rightarrow> nat \<Rightarrow> swap_state \<Rightarrow> bdev_ptr \<times> swap_state" where
  "open_bdev env index device st =
     (let cached = (case bdevs_opened st ! index of Some (d, b) \<Rightarrow> (if d = device then Some b else None) | None \<Rightarrow> None)
      in case cached of
           Some b \<Rightarrow> (Bdev b, st)
         | None \<Rightarrow>
             let st1 = close_bdev index st
             in case open_by_devnum env device of
                  None \<Rightarrow> (Err (- EINVAL), st1)
                | Some b \<Rightarrow>
                    let (got, st2) = ask st1
                    in if \<not> got then (Err (- ENOMEM), st2)
                       else (Bdev b, st2\<lparr>bdevs_opened := (bdevs_opened st2)[index := Some (device, b)]\<rparr>))"

text \<open>The swap file the user named is turned on for the cycle, and off again if it was not on before.\<close>

definition enable_swapfile :: "swap_env \<Rightarrow> swap_state \<Rightarrow> swap_state" where
  "enable_swapfile env st =
     (if swapfilename st = [] then st
      else let (result, k) = sys_swapon env (swapfilename st) (kswap st); st1 = st\<lparr>kswap := k\<rparr>
           in if result = 0 then st1\<lparr>toi_swapon_status := True\<rparr> else st1)"

definition disable_swapfile :: "swap_env \<Rightarrow> swap_state \<Rightarrow> swap_state" where
  "disable_swapfile env st =
     (if \<not> toi_swapon_status st then st
      else st\<lparr>kswap := sys_swapoff env (swapfilename st) (kswap st), toi_swapon_status := False\<rparr>)"

definition is_err :: "bdev_ptr \<Rightarrow> bool" where
  "is_err p = (case p of Err _ \<Rightarrow> True | _ \<Rightarrow> False)"

text \<open>
  \<open>stat_rdev\<close> is the device number found through \<open>filp_open\<close> and \<open>vfs_getattr\<close>, or else through
  \<open>vfs_stat\<close>. The error pointer of a failed open is stored.
\<close>

definition try_to_parse_resume_device :: "swap_env \<Rightarrow> string \<Rightarrow> swap_state \<Rightarrow> int \<times> swap_state" where
  "try_to_parse_resume_device env commandline st =
     (let dev0 = name_to_dev_t env commandline;
          dev = (if dev0 = 0 then (case stat_rdev env commandline of Some d \<Rightarrow> d | None \<Rightarrow> 0) else dev0);
          st1 = st\<lparr>resume_swap_dev_t := dev\<rparr>
      in if dev = 0 then (1, st1)
         else let (p, st2) = open_bdev env MAX_SWAPFILES dev st1
              in (if is_err p then 1 else 0, st2\<lparr>resume_block_device := p\<rparr>))"

definition toi_swap_noresume_reset :: "swap_state \<Rightarrow> swap_state option" where
  "toi_swap_noresume_reset st = do {
     (r, b) \<leftarrow> toi_rw_cleanup False (bio st);
     Some (st\<lparr>bio := b\<lparr>devinfo := replicate MAX_SWAPFILES
       \<lparr>bdev = 0, dev_t = 0, bmap_shift = 0, blocks_per_page = 0, ignored = False\<rparr>\<rparr>\<rparr>)
   }"

section \<open>The signature\<close>

text \<open>
  The page that holds the signature: \<open>struct sig_data\<close> at its beginning, the magic string in its
  last ten bytes.
\<close>

abbreviation (input) SIZEOF_SIG_DATA :: nat where "SIZEOF_SIG_DATA \<equiv> 24"
abbreviation (input) MAGIC_AT :: nat where "MAGIC_AT \<equiv> 4086"

definition ascii :: "string \<Rightarrow> byte list" where
  "ascii s = map of_char s"

definition tuxonice_signature :: "byte list" where
  "tuxonice_signature = [0xed, 0xc3, 0x02, 0xe9, 0x98, 0x56, 0xe5, 0x0c]"

definition sigs :: "byte list list" where
  "sigs = [ascii ''SWAP-SPACE'', ascii ''SWAPSPACE2'', ascii ''S1SUSP'', ascii ''S2SUSP'', ascii ''S1SUSPEND'']"

definition magic :: "page \<Rightarrow> byte list" where
  "magic p = drop MAGIC_AT p"

definition sig_device :: "page \<Rightarrow> nat" where "sig_device p = le_nat (take 4 p)"

definition sig_sector :: "page \<Rightarrow> ulong" where "sig_sector p = bytes_ulong (take 8 (drop 8 p))"

definition sig_resume_attempted :: "page \<Rightarrow> int" where "sig_resume_attempted p = bytes_int (take 4 (drop 16 p))"

definition sig_orig_type :: "page \<Rightarrow> int" where "sig_orig_type p = bytes_int (take 4 (drop 20 p))"

definition get_current_signature :: "swap_state \<Rightarrow> (int \<times> swap_state) option" where
  "get_current_signature st =
     (let (got, st1) = (case current_signature_page st of
                          Some _ \<Rightarrow> (True, st)
                        | None \<Rightarrow> let (g, s) = ask st in (g, if g then s\<lparr>current_signature_page := Some zero_page\<rparr> else s))
      in if \<not> got then Some (- ENOMEM, st1)
         else case (resume_block_device st1, current_signature_page st1) of
                (Bdev d, Some p) \<Rightarrow> do {
                  (ret, p', b) \<leftarrow> toi_bdev_page_io False d (resume_firstblock st1) p (bio st1);
                  Some (ret, st1\<lparr>bio := b, current_signature_page := Some p'\<rparr>)
                }
              | _ \<Rightarrow> None)"

text \<open>The loop over the known signatures: the first one the magic string begins with.\<close>

fun match_sig :: "int \<Rightarrow> byte list list \<Rightarrow> byte list \<Rightarrow> int option" where
  "match_sig i [] m = None"
| "match_sig i (s # ss) m = (if take (length s) m = s then Some i else match_sig (i + 1) ss m)"

definition parse_signature :: "swap_state \<Rightarrow> (int \<times> swap_state) option" where
  "parse_signature st = do {
     (result, st1) \<leftarrow> get_current_signature st;
     if result \<noteq> 0 then Some (result, st1)
     else do {
       sig \<leftarrow> current_signature_page st1;
       case match_sig 0 sigs (magic sig) of
         Some type \<Rightarrow> Some (type, st1)
       | None \<Rightarrow>
           if take 8 (magic sig) \<noteq> tuxonice_signature then Some (-1, st1)
           else Some (10, st1\<lparr>header_dev_t := sig_device sig, headerblock := sig_sector sig,
                              toi_state := (if sig_resume_attempted sig \<noteq> 0 then insert TOI_RESUMED_BEFORE (toi_state st1)
                                            else toi_state st1 - {TOI_RESUMED_BEFORE})\<rparr>)
     }
   }"

definition forget_signatures :: "swap_state \<Rightarrow> swap_state" where
  "forget_signatures st = st\<lparr>current_signature_page := None\<rparr>"

text \<open>
  The page with the image signature: the position of the first header page, and the type the
  signature had. The code zeroes nothing: the four pad bytes after \<open>device\<close> keep their value.
\<close>

definition image_signature :: "swap_state \<Rightarrow> page \<Rightarrow> (page \<times> swap_state) option" where
  "image_signature st p = do {
     let st1 = st\<lparr>no_image_signature_contents := take SIZEOF_SIG_DATA p,
                  bio := (bio st)\<lparr>posn := toi_extent_state_goto_start (posn (bio st))\<rparr>\<rparr>;
     (r, b) \<leftarrow> go_next_page True True (bio st1);
     let st2 = st1\<lparr>bio := b\<rparr>;
     if current_chain (posn b) < 0 \<or> int MAX_SWAPFILES \<le> current_chain (posn b) then None
     else do {
       dev \<leftarrow> bdev_of (get_swap_info_struct st2 (nat (current_chain (posn b))));
       (type, st3) \<leftarrow> parse_signature st2;
       let p1 = put_bytes p 0 (le_bytes 4 (bd_dev dev));
       let p2 = put_bytes p1 8 (ulong_bytes (current_offset (posn b)));
       let p3 = put_bytes p2 16 (int_bytes 0);
       let p4 = put_bytes p3 20 (int_bytes type);
       Some (put_bytes p4 MAGIC_AT tuxonice_signature, st3)
     }
   }"

definition no_image_signature :: "swap_state \<Rightarrow> page \<Rightarrow> page" where
  "no_image_signature st p =
     (let orig_sig = (if sig_orig_type p = 0 then ascii ''SWAP-SPACE'' else ascii ''SWAPSPACE2'')
      in put_bytes (put_bytes p MAGIC_AT orig_sig) 0 (no_image_signature_contents st))"

definition modify_signature :: "signature_change \<Rightarrow> swap_state \<Rightarrow> page \<Rightarrow> (page \<times> swap_state) option" where
  "modify_signature modification st p =
     (case modification of
        IMAGE_SIGNATURE \<Rightarrow> image_signature st p
      | NO_IMAGE_SIGNATURE \<Rightarrow> Some (no_image_signature st p, st)
      | TRIED_RESUME \<Rightarrow> Some (put_bytes p 16 (int_bytes 1), st)
      | NO_TRIED_RESUME \<Rightarrow> Some (put_bytes p 16 (int_bytes 0), st))"

definition write_modified_signature :: "signature_change \<Rightarrow> swap_state \<Rightarrow> (int \<times> swap_state) option" where
  "write_modified_signature modification st = do {
     (result, st1) \<leftarrow> get_current_signature st;
     if result \<noteq> 0 then Some (result, st1)
     else let (got, st2) = ask st1
          in if \<not> got then Some (- ENOMEM, st2)
             else do {
               p \<leftarrow> current_signature_page st2;
               (p', st3) \<leftarrow> modify_signature modification st2 p;
               case resume_block_device st3 of
                 Bdev d \<Rightarrow> do {
                   (ret, q, b) \<leftarrow> toi_bdev_page_io True d (resume_firstblock st3) p' (bio st3);
                   Some (ret, st3\<lparr>bio := b, current_signature_page := Some p'\<rparr>)
                 }
               | _ \<Rightarrow> None
             }
   }"

section \<open>Block chains\<close>

fun forward_pages :: "nat \<Rightarrow> bio_state \<Rightarrow> (int \<times> bio_state) option" where
  "forward_pages 0 b = Some (0, b)"
| "forward_pages (Suc n) b = do {
     (r, b1) \<leftarrow> go_next_page True False b;
     if r \<noteq> 0 then Some (- ENOSPC, b1) else forward_pages n b1
   }"

definition apply_header_reservation :: "swap_state \<Rightarrow> (int \<times> swap_state) option" where
  "apply_header_reservation st = do {
     (r, b) \<leftarrow> forward_pages (nat (header_pages_reserved st)) ((bio st)\<lparr>posn := toi_extent_state_goto_start (posn (bio st))\<rparr>);
     if r \<noteq> 0 then Some (r, st\<lparr>bio := b\<rparr>)
     else do {
       saved \<leftarrow> toi_extent_state_save (posn b);
       Some (0, st\<lparr>bio := b\<lparr>posn_save := (posn_save b)[2 := saved]\<rparr>\<rparr>)
     }
   }"

definition toi_swap_reserve_header_space :: "int \<Rightarrow> swap_state \<Rightarrow> swap_state" where
  "toi_swap_reserve_header_space request st = st\<lparr>header_pages_reserved := request\<rparr>"

definition block_chain :: "swap_state \<Rightarrow> hibernate_extent_chain list" where
  "block_chain st = chains (posn (bio st))"

definition set_block_chain :: "hibernate_extent_chain list \<Rightarrow> swap_state \<Rightarrow> swap_state" where
  "set_block_chain cs st = st\<lparr>bio := (bio st)\<lparr>posn := (posn (bio st))\<lparr>chains := cs\<rparr>\<rparr>\<rparr>"

definition free_block_chains :: "swap_state \<Rightarrow> swap_state" where
  "free_block_chains st =
     set_block_chain (map (\<lambda>c. if extents c \<noteq> [] then toi_put_extent_chain c else c) (block_chain st)) st"

definition add_blocks_to_extent_chain :: "nat \<Rightarrow> int \<Rightarrow> int \<Rightarrow> swap_state \<Rightarrow> int \<times> swap_state" where
  "add_blocks_to_extent_chain chain start end st =
     (let (got, st1) = ask st;
          (r, c) = toi_add_to_extent_chain got (block_chain st1 ! chain) (of_int start) (of_int end);
          st2 = set_block_chain ((block_chain st1)[chain := c]) st1
      in if r \<noteq> 0 then (- ENOMEM, free_block_chains st2) else (0, st2))"

text \<open>
  The loop of \<open>get_main_pool_phys_params\<close> over the swap entries. Runs of neighbouring blocks of
  one swap area become one extent. The variables \<open>extent_min\<close> and \<open>extent_max\<close> are \<open>int\<close>s, although a
  sector has 64 bits.
\<close>

record run_vars =
  extent_min :: int
  extent_max :: int
  last_chain :: int

definition flush_run :: "run_vars \<Rightarrow> swap_state \<Rightarrow> int \<times> swap_state" where
  "flush_run v st =
     (if extent_min v > -1 then add_blocks_to_extent_chain (nat (last_chain v)) (extent_min v) (extent_max v) st
      else (0, st))"

fun phys_params_loop :: "ulong list \<Rightarrow> run_vars \<Rightarrow> swap_state \<Rightarrow> (int \<times> run_vars \<times> swap_state) option" where
  "phys_params_loop [] v st = Some (0, v, st)"
| "phys_params_loop (address # addresses) v st = do {
     let swapfilenum = swp_type address;
     (new_sector, sis) \<leftarrow> map_swap_page (get_swap_info_struct st swapfilenum) (swp_offset address);
     let st1 = st\<lparr>kswap := (kswap st)\<lparr>swap_info := (swap_info (kswap st))[swapfilenum := sis]\<rparr>\<rparr>;
     if ignored (devinfo (bio st1) ! swapfilenum) then phys_params_loop addresses v st1
     else if of_nat new_sector = (of_int (s32 (extent_max v + 1)) :: ulong) \<and> last_chain v = int swapfilenum
     then phys_params_loop addresses (v\<lparr>extent_max := s32 (extent_max v + 1)\<rparr>) st1
     else let (r, st2) = flush_run v st1; sector = s32 (int new_sector)
          in if r \<noteq> 0 then Some (r, v, st2)
             else phys_params_loop addresses \<lparr>extent_min = sector, extent_max = sector, last_chain = int swapfilenum\<rparr> st2
   }"

definition get_main_pool_phys_params :: "swap_state \<Rightarrow> (int \<times> swap_state) option" where
  "get_main_pool_phys_params st = do {
     (r, v, st1) \<leftarrow> phys_params_loop (toi_extent_for_each (swapextents st))
        \<lparr>extent_min = -1, extent_max = -1, last_chain = -1\<rparr> (free_block_chains st);
     if r \<noteq> 0 then Some (r, st1)
     else let (r2, st2) = flush_run v st1
          in if r2 \<noteq> 0 then Some (r2, st2) else apply_header_reservation st2
   }"

section \<open>Amounts\<close>

text \<open>The product and the quotient are computed in \<open>unsigned long\<close>.\<close>

definition raw_to_real :: "int \<Rightarrow> int" where
  "raw_to_real raw =
     (let result = raw - ((raw * 12 + (4096 + 12 + 1)) mod 2 ^ 64) div (4096 + 12)
      in if result < 0 then 0 else result)"

definition toi_swap_storage_allocated :: "swap_state \<Rightarrow> int" where
  "toi_swap_storage_allocated st = s32 (raw_to_real (swap_pages_allocated st - header_pages_reserved st))"

text \<open>An area that is in use has a device.\<close>

definition counted_area :: "swap_info_struct \<Rightarrow> bool" where
  "counted_area si \<longleftrightarrow> SWP_USED \<in> flags si \<and> SWP_WRITEOK \<in> flags si \<and>
     (case bdev_of si of Some b \<Rightarrow> \<not> bd_ram b | None \<Rightarrow> False)"

text \<open>\<open>freeswap\<close> and \<open>totalswap\<close> as \<open>si_swapinfo_no_compcache\<close> sets them.\<close>

definition si_swapinfo_no_compcache :: "swap_state \<Rightarrow> int \<times> int" where
  "si_swapinfo_no_compcache st =
     (let sis = filter counted_area (take MAX_SWAPFILES (swap_info (kswap st)))
      in (sum_list (map (\<lambda>si. (int (si_pages si) - int (inuse_pages si)) mod 2 ^ 32) sis),
          sum_list (map (\<lambda>si. int (inuse_pages si)) sis)))"

definition toi_swap_storage_available :: "swap_state \<Rightarrow> int" where
  "toi_swap_storage_available st =
     s32 (raw_to_real (fst (si_swapinfo_no_compcache st) + swap_pages_allocated st - header_pages_reserved st))"

definition toi_swap_initialise :: "swap_env \<Rightarrow> bool \<Rightarrow> swap_state \<Rightarrow> int \<times> swap_state" where
  "toi_swap_initialise env starting_cycle st =
     (if \<not> starting_cycle then (0, st)
      else let st1 = enable_swapfile env st
           in if resume_swap_dev_t st1 \<noteq> 0 \<and> resume_block_device st1 = Null
              then let (p, st2) = open_bdev env MAX_SWAPFILES (resume_swap_dev_t st1) st1
                   in (if is_err p then 1 else 0, st2\<lparr>resume_block_device := p\<rparr>)
              else (0, st1))"

definition toi_swap_cleanup :: "swap_env \<Rightarrow> bool \<Rightarrow> swap_state \<Rightarrow> swap_state" where
  "toi_swap_cleanup env ending_cycle st =
     forget_signatures (close_bdevs (if ending_cycle then disable_swapfile env st else st))"

section \<open>Allocating and releasing storage\<close>

text \<open>
  The routines of the kernel's swap space are arguments (\<open>get_page\<close>, \<open>free_page\<close>) of the loops,
  which are then used with \<open>get_swap_page\<close> and \<open>swap_free\<close>.
\<close>

fun free_entries :: "(ulong \<Rightarrow> 'k \<Rightarrow> 'k option) \<Rightarrow> ulong list \<Rightarrow> 'k \<Rightarrow> 'k option" where
  "free_entries free_page [] k = Some k"
| "free_entries free_page (v # vs) k = do { k1 \<leftarrow> free_page v k; free_entries free_page vs k1 }"

definition toi_swap_release_storage :: "swap_state \<Rightarrow> (int \<times> swap_state) option" where
  "toi_swap_release_storage st =
     (let st1 = st\<lparr>header_pages_reserved := 0, swap_pages_allocated := 0\<rparr>
      in if extents (swapextents st1) = [] then Some (0, st1)
         else do {
           k \<leftarrow> free_entries swap_free (toi_extent_for_each (swapextents st1)) (kswap st1);
           Some (0, free_block_chains (st1\<lparr>kswap := k, swapextents := toi_put_extent_chain (swapextents st1)\<rparr>))
         })"

text \<open>
  \<open>free_swap_range\<close>: the loop variable is an \<open>int\<close>. It is truncated when the loop begins, wraps
  around at \<open>2 ^ 31\<close>, and is sign extended for the comparison and for the entry.
\<close>

partial_function (option) free_range_loop ::
    "(ulong \<Rightarrow> 'k \<Rightarrow> 'k option) \<Rightarrow> int \<Rightarrow> ulong \<Rightarrow> 'k \<Rightarrow> 'k option" where
  "free_range_loop free_page j mx k =
     (if of_int j \<le> mx then Option.bind (free_page (of_int j) k) (\<lambda>k1. free_range_loop free_page (s32 (j + 1)) mx k1)
      else Some k)"

definition free_swap_range :: "(ulong \<Rightarrow> 'k \<Rightarrow> 'k option) \<Rightarrow> ulong \<Rightarrow> ulong \<Rightarrow> 'k \<Rightarrow> 'k option" where
  "free_swap_range free_page mn mx k = free_range_loop free_page (s32 (uint mn)) mx k"

text \<open>The local variables of \<open>toi_swap_allocate_storage\<close>: a run of entries for each swap area.\<close>

record alloc_vars =
  to_add :: "nat \<Rightarrow> bool"
  run_min :: "nat \<Rightarrow> ulong"
  run_max :: "nat \<Rightarrow> ulong"
  gotten :: int

definition start_run :: "nat \<Rightarrow> ulong \<Rightarrow> bool \<Rightarrow> alloc_vars \<Rightarrow> alloc_vars" where
  "start_run t v ign l = l\<lparr>to_add := (to_add l)(t := True), run_min := (run_min l)(t := v), run_max := (run_max l)(t := v),
     gotten := (if ign then gotten l else gotten l + 1)\<rparr>"

definition grow_run :: "nat \<Rightarrow> bool \<Rightarrow> alloc_vars \<Rightarrow> alloc_vars" where
  "grow_run t ign l = l\<lparr>run_max := (run_max l)(t := run_max l t + 1), gotten := (if ign then gotten l else gotten l + 1)\<rparr>"

text \<open>The pages of a run that could not be recorded are given back.\<close>

definition uncount_run :: "nat \<Rightarrow> bool \<Rightarrow> alloc_vars \<Rightarrow> alloc_vars" where
  "uncount_run t ign l =
     (if ign then l else l\<lparr>gotten := s32 (gotten l - uint (run_max l t - run_min l t + 1))\<rparr>)"

partial_function (option) alloc_loop ::
    "('k \<Rightarrow> (ulong \<times> 'k) option) \<Rightarrow> (ulong \<Rightarrow> 'k \<Rightarrow> 'k option) \<Rightarrow> (nat \<Rightarrow> bool) \<Rightarrow> (nat \<Rightarrow> bool) \<Rightarrow> int \<Rightarrow>
     alloc_vars \<Rightarrow> hibernate_extent_chain \<Rightarrow> nat \<Rightarrow> 'k \<Rightarrow> (alloc_vars \<times> hibernate_extent_chain \<times> nat \<times> 'k) option" where
  "alloc_loop get_page free_page got ign wanted l c n k =
     (if \<not> gotten l < wanted then Some (l, c, n, k)
      else Option.bind (get_page k) (\<lambda>(v, k1).
        let t = swp_type v
        in if v = 0 then Some (l, c, n, k1)
           else if \<not> to_add l t then alloc_loop get_page free_page got ign wanted (start_run t v (ign t) l) c n k1
           else if v = run_max l t + 1 then alloc_loop get_page free_page got ign wanted (grow_run t (ign t) l) c n k1
           else let (r, c1) = toi_add_to_extent_chain (got n) c (run_min l t) (run_max l t)
                in if r = 0 then alloc_loop get_page free_page got ign wanted (start_run t v (ign t) l) c1 (Suc n) k1
                   else Option.bind (free_swap_range free_page (run_min l t) (run_max l t) k1) (\<lambda>k2.
                     Option.bind (free_page v k2) (\<lambda>k3.
                       Some ((uncount_run t (ign t) l)\<lparr>to_add := (to_add l)(t := False)\<rparr>, c1, Suc n, k3)))))"

text \<open>Recording the runs that are left; the first failure ends the loop.\<close>

fun add_runs ::
    "(ulong \<Rightarrow> 'k \<Rightarrow> 'k option) \<Rightarrow> (nat \<Rightarrow> bool) \<Rightarrow> (nat \<Rightarrow> bool) \<Rightarrow> nat list \<Rightarrow>
     alloc_vars \<Rightarrow> hibernate_extent_chain \<Rightarrow> nat \<Rightarrow> 'k \<Rightarrow> (alloc_vars \<times> hibernate_extent_chain \<times> nat \<times> 'k) option" where
  "add_runs free_page got ign [] l c n k = Some (l, c, n, k)"
| "add_runs free_page got ign (i # is) l c n k =
     (if \<not> to_add l i then add_runs free_page got ign is l c n k
      else let (r, c1) = toi_add_to_extent_chain (got n) c (run_min l i) (run_max l i)
           in if r = 0 then add_runs free_page got ign is l c1 (Suc n) k
              else do {
                k1 \<leftarrow> free_swap_range free_page (run_min l i) (run_max l i) k;
                Some (uncount_run i (ign i) l, c1, Suc n, k1)
              })"

text \<open>The device information of the areas. Swap in RAM is ignored.\<close>

definition area_devinfo :: "swap_info_struct \<Rightarrow> toi_bdev_info \<Rightarrow> toi_bdev_info" where
  "area_devinfo si d =
     (case bdev_of si of
        None \<Rightarrow> d
      | Some b \<Rightarrow> if bd_ram b then d\<lparr>ignored := True\<rparr>
                  else \<lparr>bdev = bd_id b, dev_t = bd_dev b, bmap_shift = 3, blocks_per_page = 1, ignored = False\<rparr>)"

definition set_devinfo :: "swap_state \<Rightarrow> swap_state" where
  "set_devinfo st = st\<lparr>bio := (bio st)\<lparr>devinfo :=
     map (\<lambda>i. area_devinfo (get_swap_info_struct st i) (devinfo (bio st) ! i)) [0 ..< MAX_SWAPFILES]\<rparr>\<rparr>"

definition pages_to_get :: "int \<Rightarrow> swap_state \<Rightarrow> int" where
  "pages_to_get request st =
     (let extra_pages = s32 (((request * 12 + 4095) mod 2 ^ 64) div 4096)
      in s32 (request + extra_pages - chain_size (swapextents st) + header_pages_reserved st))"

text \<open>Getting entries and recording them in \<open>swapextents\<close>: the pages got, and the state.\<close>

definition take_swap :: "int \<Rightarrow> swap_state \<Rightarrow> (int \<times> swap_state) option" where
  "take_swap wanted st = do {
     let ign = (\<lambda>i. ignored (devinfo (bio st) ! i));
     let l0 = \<lparr>to_add = (\<lambda>_. False), run_min = (\<lambda>_. 0), run_max = (\<lambda>_. 0), gotten = 0\<rparr>;
     (l, c, n, k) \<leftarrow> alloc_loop get_swap_page swap_free (env_ok (bio st)) ign wanted l0 (swapextents st) (env_n (bio st)) (kswap st);
     (l1, c1, n1, k1) \<leftarrow> add_runs swap_free (env_ok (bio st)) ign [0 ..< MAX_SWAPFILES] l c n k;
     Some (gotten l1, st\<lparr>swapextents := c1, kswap := k1, bio := (bio st)\<lparr>env_n := n1\<rparr>\<rparr>)
   }"

definition toi_swap_allocate_storage :: "int \<Rightarrow> swap_state \<Rightarrow> (int \<times> swap_state) option" where
  "toi_swap_allocate_storage request st =
     (let wanted = pages_to_get request st
      in if wanted < 1 then apply_header_reservation st
         else do {
           (got, st1) \<leftarrow> take_swap wanted (set_devinfo st);
           (result2, st2) \<leftarrow> get_main_pool_phys_params (st1\<lparr>swap_pages_allocated := swap_pages_allocated st1 + got\<rparr>);
           Some (if got < wanted then - ENOSPC else result2, st2)
         })"

section \<open>Writing the header\<close>

text \<open>The layout of the saved positions and of the device information in memory.\<close>

definition saved_bytes :: "hibernate_extent_iterate_saved_state \<Rightarrow> byte list" where
  "saved_bytes s = int_bytes (chain_num s) @ int_bytes (extent_num s) @ ulong_bytes (saved_offset s)"

definition bytes_saved :: "byte list \<Rightarrow> hibernate_extent_iterate_saved_state" where
  "bytes_saved bs = \<lparr>chain_num = bytes_int (take 4 bs), extent_num = bytes_int (take 4 (drop 4 bs)),
     saved_offset = bytes_ulong (take 8 (drop 8 bs))\<rparr>"

definition devinfo_bytes :: "toi_bdev_info \<Rightarrow> byte list" where
  "devinfo_bytes d = ulong_bytes (of_nat (bdev d)) @ le_bytes 4 (dev_t d) @ int_bytes (int (bmap_shift d)) @
     int_bytes (int (blocks_per_page d)) @ int_bytes (if ignored d then 1 else 0)"

definition bytes_devinfo :: "byte list \<Rightarrow> toi_bdev_info" where
  "bytes_devinfo bs = \<lparr>bdev = unat (bytes_ulong (take 8 bs)), dev_t = le_nat (take 4 (drop 8 bs)),
     bmap_shift = nat (bytes_int (take 4 (drop 12 bs))), blocks_per_page = nat (bytes_int (take 4 (drop 16 bs))),
     ignored = (bytes_int (take 4 (drop 20 bs)) \<noteq> 0)\<rparr>"

abbreviation (input) SIZEOF_SAVED :: nat where "SIZEOF_SAVED \<equiv> 16"
abbreviation (input) SIZEOF_BDEV_INFO :: nat where "SIZEOF_BDEV_INFO \<equiv> 24"

fun chunks :: "nat \<Rightarrow> nat \<Rightarrow> 'a list \<Rightarrow> 'a list list" where
  "chunks 0 m bs = []"
| "chunks (Suc n) m bs = take m bs # chunks n m (drop m bs)"

definition swap_header_chunk :: "byte list \<Rightarrow> swap_state \<Rightarrow> (int \<times> swap_state) option" where
  "swap_header_chunk bs st = do {
     (r, b) \<leftarrow> toi_write_header_chunk (Some (self st)) (bio st) bs;
     Some (r, st\<lparr>bio := b\<rparr>)
   }"

text \<open>The results of serialising the chains are not looked at.\<close>

fun serialise_chains :: "nat \<Rightarrow> hibernate_extent_chain list \<Rightarrow> bio_state \<Rightarrow> bio_state option" where
  "serialise_chains owner [] b = Some b"
| "serialise_chains owner (c # cs) b = do {
     (r, b1) \<leftarrow> toi_serialise_extent_chain (toi_write_header_chunk (Some owner)) c b;
     serialise_chains owner cs b1
   }"

definition current_dev_t :: "swap_info_struct \<Rightarrow> toi_bdev_info \<Rightarrow> toi_bdev_info option" where
  "current_dev_t si d =
     (if swap_file si then map_option (\<lambda>b. d\<lparr>dev_t := bd_dev b\<rparr>) (bdev_of si) else Some (d\<lparr>dev_t := 0\<rparr>))"

definition toi_swap_write_header_init :: "swap_state \<Rightarrow> (int \<times> swap_state) option" where
  "toi_swap_write_header_init st = do {
     (r0, b0) \<leftarrow> toi_rw_init True 0 (bio st);
     (r1, st1) \<leftarrow> swap_header_chunk (no_image_signature_contents st) (st\<lparr>bio := b0\<lparr>writer_buffer_posn := 0\<rparr>\<rparr>);
     if r1 \<noteq> 0 then Some (r1, st1)
     else do {
       ds \<leftarrow> those (map (\<lambda>i. current_dev_t (get_swap_info_struct st1 i) (devinfo (bio st1) ! i)) [0 ..< MAX_SWAPFILES]);
       let st2 = st1\<lparr>bio := (bio st1)\<lparr>devinfo := ds\<rparr>\<rparr>;
       (r2, st3) \<leftarrow> swap_header_chunk (concat (map saved_bytes (posn_save (bio st2)))) st2;
       if r2 \<noteq> 0 then Some (r2, st3)
       else do {
         (r3, st4) \<leftarrow> swap_header_chunk (concat (map devinfo_bytes (devinfo (bio st3)))) st3;
         if r3 \<noteq> 0 then Some (r3, st4)
         else do {
           b \<leftarrow> serialise_chains (self st4) (block_chain st4) (bio st4);
           Some (0, st4\<lparr>bio := b\<rparr>)
         }
       }
     }
   }"

definition toi_swap_write_header_cleanup :: "swap_state \<Rightarrow> (int \<times> swap_state) option" where
  "toi_swap_write_header_cleanup st = do {
     (result, b) \<leftarrow> write_header_chunk_finish (bio st);
     if result \<noteq> 0 then Some (result, st\<lparr>bio := b\<rparr>)
     else write_modified_signature IMAGE_SIGNATURE (st\<lparr>bio := b\<rparr>)
   }"

section \<open>Reading the header\<close>

text \<open>
  \<open>toi_load_extent_chain(&block_chain[i])\<close>, with its effect on the array: the iterator that finds
  the next header page walks the chains that are being loaded, so each extent is linked as soon
  as it was read.
\<close>

definition link_extent :: "nat \<Rightarrow> bool \<Rightarrow> hibernate_extent \<Rightarrow> bio_state \<Rightarrow> bio_state" where
  "link_extent i first e b =
     (let c = chains (posn b) ! i; es = (if first then [e] else extents c @ [e])
      in b\<lparr>posn := (posn b)\<lparr>chains := (chains (posn b))[i := c\<lparr>extents := es\<rparr>]\<rparr>\<rparr>)"

fun load_linked :: "nat \<Rightarrow> bool \<Rightarrow> nat \<Rightarrow> bio_state \<Rightarrow> (int \<times> bio_state) option" where
  "load_linked i first 0 b = Some (0, b)"
| "load_linked i first (Suc n) b =
     (let (got, b1) = consult b
      in if \<not> got then Some (- ENOMEM, b1)
         else do {
           (ret, bs, b2) \<leftarrow> toi_read_header_chunk True None b1 (2 * SIZEOF_LONG);
           if ret \<noteq> 0 then Some (1, b2) else load_linked i False n (link_extent i first (bytes_extent bs) b2)
         })"

definition load_block_chain :: "nat \<Rightarrow> bio_state \<Rightarrow> (int \<times> bio_state) option" where
  "load_block_chain i b = do {
     (ret, bs, b1) \<leftarrow> toi_read_header_chunk True None b (2 * SIZEOF_INT);
     if ret \<noteq> 0 then Some (1, b1)
     else do {
       let c = (chains (posn b1) ! i)\<lparr>chain_size := bytes_int (take SIZEOF_INT bs), num_extents := bytes_int (drop SIZEOF_INT bs)\<rparr>;
       load_linked i True (nat (num_extents c)) (b1\<lparr>posn := (posn b1)\<lparr>chains := (chains (posn b1))[i := c]\<rparr>\<rparr>)
     }
   }"

fun load_block_chains :: "nat list \<Rightarrow> bio_state \<Rightarrow> (int \<times> bio_state) option" where
  "load_block_chains [] b = Some (0, b)"
| "load_block_chains (i # is) b = do {
     (r, b1) \<leftarrow> load_block_chain i b;
     if r \<noteq> 0 then Some (r, b1) else load_block_chains is b1
   }"

text \<open>
  Opening the devices of the image; \<open>bdev\<close> 0 is a null pointer. An error pointer that was left in
  \<open>resume_block_device\<close> is copied by the code and dereferenced by the first read; here this is \<open>None\<close>
  at once.
\<close>

fun restore_devinfo :: "swap_env \<Rightarrow> nat list \<Rightarrow> swap_state \<Rightarrow> (int \<times> swap_state) option" where
  "restore_devinfo env [] st = Some (0, st)"
| "restore_devinfo env (i # is) st =
     (let d = devinfo (bio st) ! i;
          put = (\<lambda>b s. s\<lparr>bio := (bio s)\<lparr>devinfo := (devinfo (bio s))[i := d\<lparr>bdev := b\<rparr>]\<rparr>\<rparr>);
          ptr = (\<lambda>p. case p of Bdev b \<Rightarrow> Some b | Null \<Rightarrow> Some 0 | Err _ \<Rightarrow> None)
      in if dev_t d = 0 \<or> ignored d then restore_devinfo env is (put 0 st)
         else if dev_t d = resume_swap_dev_t st
         then do { b \<leftarrow> ptr (resume_block_device st); restore_devinfo env is (put b st) }
         else if dev_t d = header_dev_t st
         then do { b \<leftarrow> ptr (header_block_device st); restore_devinfo env is (put b st) }
         else case open_bdev env i (dev_t d) (put 0 st) of
                (Bdev b, st1) \<Rightarrow> restore_devinfo env is (put b st1)
              | (Err e, st1) \<Rightarrow> Some (e, st1)
              | (Null, st1) \<Rightarrow> None)"

definition load_config :: "page \<Rightarrow> swap_state \<Rightarrow> swap_state" where
  "load_config buf st =
     st\<lparr>no_image_signature_contents := take SIZEOF_SIG_DATA buf,
        bio := (bio st)\<lparr>posn_save := map bytes_saved (chunks 4 SIZEOF_SAVED (drop SIZEOF_SIG_DATA buf)),
                        devinfo := map bytes_devinfo (chunks MAX_SWAPFILES SIZEOF_BDEV_INFO (drop (SIZEOF_SIG_DATA + 4 * SIZEOF_SAVED) buf)),
                        writer_buffer_posn := SIZEOF_SIG_DATA + 4 * SIZEOF_SAVED + MAX_SWAPFILES * SIZEOF_BDEV_INFO\<rparr>\<rparr>"

definition open_header_device :: "swap_env \<Rightarrow> swap_state \<Rightarrow> swap_state" where
  "open_header_device env st =
     (if header_dev_t st \<noteq> resume_swap_dev_t st
      then let (p, st1) = open_bdev env (MAX_SWAPFILES + 1) (header_dev_t st) st in st1\<lparr>header_block_device := p\<rparr>
      else st\<lparr>header_block_device := resume_block_device st\<rparr>)"

definition toi_swap_read_header_init :: "swap_env \<Rightarrow> swap_state \<Rightarrow> (int \<times> swap_state) option" where
  "toi_swap_read_header_init env st0 =
     (let st = st0\<lparr>bio := (bio st0)\<lparr>writer_buffer_posn := 0\<rparr>\<rparr>
      in if header_dev_t st = 0 then Some (- EINVAL, st)
         else let st1 = open_header_device env st
              in case header_block_device st1 of
                   Err e \<Rightarrow> if header_dev_t st \<noteq> resume_swap_dev_t st then Some (e, st1) else None
                 | Null \<Rightarrow> None
                 | Bdev d \<Rightarrow> do {
                     let b1 = toi_read_header_init (bio st1);
                     page \<leftarrow> writer_buffer b1;
                     (result, buf, b2) \<leftarrow> toi_bdev_page_io False d (push_bit 3 (headerblock st1)) page b1;
                     let st2 = st1\<lparr>bio := b2\<lparr>writer_buffer := Some buf\<rparr>\<rparr>;
                     if result \<noteq> 0 then Some (result, st2)
                     else do {
                       (r, st3) \<leftarrow> restore_devinfo env [0 ..< MAX_SWAPFILES] (load_config buf st2);
                       if r \<noteq> 0 then Some (r, st3)
                       else do {
                         (r2, b3) \<leftarrow> load_block_chains [0 ..< MAX_SWAPFILES]
                            (set_extra_page_forward ((bio st3)\<lparr>posn := toi_extent_state_goto_start (posn (bio st3))\<rparr>));
                         Some (r2, st3\<lparr>bio := b3\<rparr>)
                       }
                     }
                   })"

definition toi_swap_read_header_cleanup :: "swap_state \<Rightarrow> (int \<times> swap_state) option" where
  "toi_swap_read_header_cleanup st = do {
     (r, b) \<leftarrow> toi_rw_cleanup False (bio st);
     Some (0, st\<lparr>bio := b\<rparr>)
   }"

definition toi_swap_memory_needed :: int where "toi_swap_memory_needed = 1"

definition toi_swap_storage_needed :: "swap_state \<Rightarrow> int" where
  "toi_swap_storage_needed st = int (SIZEOF_SIG_DATA + 4 * SIZEOF_SAVED + MAX_SWAPFILES * SIZEOF_BDEV_INFO) +
     sum_list (map (\<lambda>c. 8 + 16 * num_extents c) (block_chain st))"

section \<open>The image\<close>

definition toi_swap_image_exists :: "swap_env \<Rightarrow> swap_state \<Rightarrow> (int \<times> swap_state) option" where
  "toi_swap_image_exists env st =
     (if resume_swap_dev_t st = 0 then Some (-1, st)
      else let (p, st1) = (if resume_block_device st = Null
                           then let (q, s) = open_bdev env MAX_SWAPFILES (resume_swap_dev_t st) st in (q, s\<lparr>resume_block_device := q\<rparr>)
                           else (Null, st))
           in if is_err p then Some (-1, st1)
              else do {
                (signature_found, st2) \<leftarrow> parse_signature st1;
                Some (if signature_found = - ENOMEM \<or> signature_found = -1 then -1
                      else if signature_found = 10 then 1 else 0, st2)
              })"

definition toi_swap_remove_image :: "swap_env \<Rightarrow> swap_state \<Rightarrow> (int \<times> swap_state) option" where
  "toi_swap_remove_image env st = do {
     (r0, st1) \<leftarrow> (if nr_hibernates st \<noteq> 0 then toi_swap_release_storage st else Some (0, st));
     (exists, st2) \<leftarrow> toi_swap_image_exists env st1;
     if exists \<noteq> 0 then write_modified_signature NO_IMAGE_SIGNATURE st2 else Some (0, st2)
   }"

definition toi_swap_mark_resume_attempted :: "bool \<Rightarrow> swap_state \<Rightarrow> (int \<times> swap_state) option" where
  "toi_swap_mark_resume_attempted mark st =
     (if resume_swap_dev_t st = 0 then Some (- ENODEV, st)
      else write_modified_signature (if mark then TRIED_RESUME else NO_TRIED_RESUME) st)"

text \<open>
  \<open>toi_swap_parse_sig_location\<close>: \<open>swap:DEVNAME[:FIRSTBLOCK]\<close> or a path under \<open>/dev/\<close>. The block number
  is narrowed to an \<open>int\<close>.
\<close>

definition split_location :: "string \<Rightarrow> string \<times> string option" where
  "split_location cmd =
     (let n = min 250 (length (takeWhile (\<lambda>c. c \<noteq> CHR '':'' \<and> c \<noteq> CHR ''@'') cmd))
      in if n < length cmd \<and> cmd ! n = CHR '':'' then (take n cmd, Some (drop (Suc n) cmd)) else (cmd, None))"

definition toi_swap_parse_sig_location :: "swap_env \<Rightarrow> string \<Rightarrow> swap_state \<Rightarrow> (int \<times> swap_state) option" where
  "toi_swap_parse_sig_location env commandline st =
     (if take 5 commandline \<noteq> ''swap:'' \<and> take 5 commandline \<noteq> ''/dev/'' then Some (1, st)
      else
        let (devstart, firstblock) =
              split_location (if take 5 commandline = ''swap:'' then drop 5 commandline else commandline);
            parsed = (case firstblock of
                        None \<Rightarrow> Some 0
                      | Some s \<Rightarrow> map_option (\<lambda>b. of_int (s32 (uint b))) (strict_strtoul env s));
            st1 = (case parsed of Some b \<Rightarrow> st\<lparr>resume_firstblock := b\<rparr> | None \<Rightarrow> st);
            st2 = st1\<lparr>toi_state := toi_state st1 - {TOI_CAN_HIBERNATE, TOI_CAN_RESUME}\<rparr>;
            (r, st3) = (if parsed = None then (1, st2) else try_to_parse_resume_device env devstart st2)
        in if r \<noteq> 0 then Some (- EINVAL, st3)
           else do {
             (found, st4) \<leftarrow> toi_swap_image_exists env st3;
             if found \<noteq> -1 then Some (0, st4\<lparr>toi_state := toi_state st4 \<union> {TOI_CAN_HIBERNATE, TOI_CAN_RESUME}\<rparr>)
             else Some (- EINVAL, st4)
           })"

end
