(* ===== verification/TOI_Swap_Signature.thy ===== *)
theory TOI_Swap_Signature
  imports TOI_Swap TOI_Image_Stream
begin

text \<open>
  The signature of the swap allocator: putting it on the disk says that there is an image and
  where its header begins, and removing it puts back the magic of the swap area and the bytes kept of the page.
\<close>

section \<open>Reading and writing a page\<close>

lemma page_read_good:
  assumes "good b"
  shows "toi_bdev_page_io False d s p b =
    Some (0, disk_read (disk b) d s, b\<lparr>env_n := env_n b + 2, io_done := io_done b + 1\<rparr>)"
  using assms by (simp add: toi_bdev_page_io_def toi_do_io_def submit_def consult_def good_def Let_def)

lemma page_write_good:
  assumes "good b"
  shows "toi_bdev_page_io True d s p b =
    Some (0, p, b\<lparr>env_n := env_n b + 2, io_done := io_done b + 1, disk := disk_write (disk b) d s p\<rparr>)"
  using assms by (simp add: toi_bdev_page_io_def toi_do_io_def submit_def consult_def good_def Let_def)

text \<open>Going forward on the tape reads and writes nothing.\<close>

lemma go_one_page_frame:
  "go_one_page w sb b = Some (r, b') \<Longrightarrow> disk b' = disk b \<and> good b' = good b"
  by (auto simp: go_one_page_def debug_broken_header_def good_def split: if_splits Option.bind_splits)

lemma go_next_page_frame:
  "go_next_page w sb b = Some (r, b') \<Longrightarrow> disk b' = disk b \<and> good b' = good b"
  by (auto simp: go_next_page_def good_def dest!: go_one_page_frame split: if_splits Option.bind_splits)

lemma concat_chunk:
  "\<forall>x \<in> set xss. length x = n \<Longrightarrow> i < length xss \<Longrightarrow> take n (drop (n * i) (concat xss)) = xss ! i"
proof (induction xss arbitrary: i)
  case (Cons x xss)
  then show ?case by (cases i) (simp_all add: drop_append)
qed simp

lemma disk_write_read:
  assumes "wf_disk dsk"
  shows "disk_write dsk d s (disk_read dsk d s) = dsk"
proof (intro ext)
  fix d' s'
  show "disk_write dsk d s (disk_read dsk d s) d' s' = dsk d' s'"
  proof (cases "d' = d \<and> unat (s' - s) < 8")
    case True
    define i where "i = unat (s' - s)"
    have i: "i < 8" "s' = s + of_nat i" using True by (simp_all add: i_def)
    have "take 512 (drop (512 * i) (disk_read dsk d s)) = dsk d (s + of_nat i)"
      unfolding disk_read_def using concat_chunk [of "map (\<lambda>i. dsk d (s + of_nat i)) [0 ..< 8]" 512 i] assms i(1)
      by (simp add: wf_disk_def del: upt_Suc)
    moreover have "disk_write dsk d s (disk_read dsk d s) d' s' = take 512 (drop (512 * i) (disk_read dsk d s))"
      using True by (simp add: disk_write_def flip: i_def)
    ultimately show ?thesis using True unfolding i(2) by metis
  qed (auto simp: disk_write_def)
qed

lemma disk_write_write: "disk_write (disk_write dsk d s p) d s q = disk_write dsk d s q"
  by (auto simp: disk_write_def fun_eq_iff)

section \<open>The layout of the page\<close>

lemma put_bytes_app:
  "n = length xs \<Longrightarrow> length ys = length bs \<Longrightarrow> put_bytes (xs @ ys @ zs) n bs = xs @ bs @ zs"
  by (simp add: put_bytes_def)

lemma page_split:
  assumes "length p = PAGE_SIZE"
  obtains dev pad sec att ty mid m where "p = dev @ pad @ sec @ att @ ty @ mid @ m" "length dev = 4" "length pad = 4"
    "length sec = 8" "length att = 4" "length ty = 4" "length mid = 4062" "length m = 10"
proof
  show "p = take 4 p @ take 4 (drop 4 p) @ take 8 (drop 8 p) @ take 4 (drop 16 p) @ take 4 (drop 20 p) @
      take 4062 (drop 24 p) @ drop 4086 p"
    using append_take_drop_id [of 4 p] append_take_drop_id [of 4 "drop 4 p"] append_take_drop_id [of 8 "drop 8 p"]
      append_take_drop_id [of 4 "drop 16 p"] append_take_drop_id [of 4 "drop 20 p"] append_take_drop_id [of 4062 "drop 24 p"]
    by simp
qed (use assms in simp_all)

section \<open>The routines when nothing fails\<close>

text \<open>The page of the signature on the disk.\<close>

definition sig_page :: "swap_state \<Rightarrow> page" where
  "sig_page st = (case resume_block_device st of Bdev d \<Rightarrow> disk_read (disk (bio st)) d (resume_firstblock st) | _ \<Rightarrow> [])"

definition sig_ready :: "swap_state \<Rightarrow> bool" where
  "sig_ready st \<longleftrightarrow> good (bio st) \<and> wf_disk (disk (bio st)) \<and> (\<exists>d. resume_block_device st = Bdev d)"

definition sig_type :: "page \<Rightarrow> int" where
  "sig_type p = (case match_sig 0 sigs (magic p) of Some i \<Rightarrow> i | None \<Rightarrow> if take 8 (magic p) = tuxonice_signature then 10 else -1)"

text \<open>What reading the signature leaves alone.\<close>

definition sig_frame :: "swap_state \<Rightarrow> swap_state \<Rightarrow> bool" where
  "sig_frame st st' \<longleftrightarrow> (\<exists>n k cur dev blk ts. st' = st\<lparr>bio := (bio st)\<lparr>env_n := n, io_done := k\<rparr>, current_signature_page := cur,
     header_dev_t := dev, headerblock := blk, toi_state := ts\<rparr>)"

lemma sig_frameD:
  assumes "sig_frame st st'"
  shows "disk (bio st') = disk (bio st)" "good (bio st') = good (bio st)" "resume_block_device st' = resume_block_device st"
    "resume_firstblock st' = resume_firstblock st" "sig_page st' = sig_page st" "sig_ready st' = sig_ready st"
    "posn (bio st') = posn (bio st)" "kswap st' = kswap st" "no_image_signature_contents st' = no_image_signature_contents st"
    "resume_swap_dev_t st' = resume_swap_dev_t st"
  using assms by (auto simp: sig_frame_def sig_page_def sig_ready_def good_def split: bdev_ptr.split)

lemma ask_good: "good (bio st) \<Longrightarrow> ask st = (True, st\<lparr>bio := (bio st)\<lparr>env_n := Suc (env_n (bio st))\<rparr>\<rparr>)"
  by (simp add: ask_def consult_def good_def)

lemma length_sig_page: "sig_ready st \<Longrightarrow> length (sig_page st) = PAGE_SIZE"
  using length_slot_page [of "disk (bio st)" "(d, s)" for d s] by (auto simp: sig_ready_def sig_page_def)

lemma get_current_signature_good:
  assumes "sig_ready st"
  shows "\<exists>st'. get_current_signature st = Some (0, st') \<and> sig_frame st st' \<and> current_signature_page st' = Some (sig_page st)"
proof -
  obtain d where d: "resume_block_device st = Bdev d" and good: "good (bio st)" using assms by (auto simp: sig_ready_def)
  show ?thesis
  proof (cases "current_signature_page st")
    case None
    then show ?thesis using d good
      by (simp add: get_current_signature_def ask_good page_read_good sig_page_def sig_frame_def) (cases st; cases "bio st"; auto)
  next
    case (Some p)
    then show ?thesis using d good
      by (simp add: get_current_signature_def page_read_good sig_page_def sig_frame_def) (cases st; cases "bio st"; auto)
  qed
qed

lemma sig_frame_trans: "sig_frame a b \<Longrightarrow> sig_frame b c \<Longrightarrow> sig_frame a c"
  by (auto simp: sig_frame_def) (metis)

lemma sig_frame_ask: "good (bio st) \<Longrightarrow> \<exists>st'. ask st = (True, st') \<and> sig_frame st st' \<and>
    current_signature_page st' = current_signature_page st"
  by (simp add: ask_good sig_frame_def) (cases st; cases "bio st"; auto)

definition has_image_sig :: "page \<Rightarrow> bool" where
  "has_image_sig p \<longleftrightarrow> match_sig 0 sigs (magic p) = None \<and> take 8 (magic p) = tuxonice_signature"

lemma parse_signature_good:
  assumes "sig_ready st"
  shows "\<exists>st'. parse_signature st = Some (sig_type (sig_page st), st') \<and> sig_frame st st' \<and>
    current_signature_page st' = Some (sig_page st) \<and>
    (has_image_sig (sig_page st) \<longrightarrow> header_dev_t st' = sig_device (sig_page st) \<and> headerblock st' = sig_sector (sig_page st))"
proof -
  let ?p = "sig_page st"
  obtain st1 where st1: "get_current_signature st = Some (0, st1)" "sig_frame st st1" "current_signature_page st1 = Some ?p"
    using get_current_signature_good [OF assms] by blast
  define st2 where "st2 = st1\<lparr>header_dev_t := sig_device ?p, headerblock := sig_sector ?p,
    toi_state := (if sig_resume_attempted ?p \<noteq> 0 then insert TOI_RESUMED_BEFORE (toi_state st1) else toi_state st1 - {TOI_RESUMED_BEFORE})\<rparr>"
  have "sig_frame st1 st2" unfolding sig_frame_def st2_def
    by (rule exI [of _ "env_n (bio st1)"], rule exI [of _ "io_done (bio st1)"], rule exI [of _ "current_signature_page st1"])
      (cases st1; cases "bio st1"; auto)
  then have fr: "sig_frame st st2" by (rule sig_frame_trans [OF st1(2)])
  have cur: "current_signature_page st2 = Some ?p" by (simp add: st2_def st1(3))
  show ?thesis
  proof (cases "has_image_sig ?p")
    case True
    then have "parse_signature st = Some (10, st2)"
      by (simp add: parse_signature_def st1 has_image_sig_def st2_def)
    with True fr cur show ?thesis by (simp add: sig_type_def has_image_sig_def st2_def)
  next
    case False
    then have "parse_signature st = Some (sig_type ?p, st1)"
      by (auto simp: parse_signature_def st1 has_image_sig_def sig_type_def split: option.split)
    with False st1 show ?thesis by simp
  qed
qed

text \<open>Writing the changed page.\<close>

definition sig_written :: "swap_state \<Rightarrow> page \<Rightarrow> swap_state \<Rightarrow> bool" where
  "sig_written st p st' \<longleftrightarrow> sig_ready st' \<and> resume_block_device st' = resume_block_device st \<and>
     resume_firstblock st' = resume_firstblock st \<and> resume_swap_dev_t st' = resume_swap_dev_t st \<and> sig_page st' = p \<and>
     (\<forall>d. resume_block_device st = Bdev d \<longrightarrow> disk (bio st') = disk_write (disk (bio st)) d (resume_firstblock st) p)"

lemma write_modified_good:
  assumes "sig_ready st" and "length p' = PAGE_SIZE"
    and "\<And>st2. sig_frame st st2 \<Longrightarrow> current_signature_page st2 = Some (sig_page st) \<Longrightarrow>
      \<exists>st3. modify_signature modification st2 (sig_page st) = Some (p', st3) \<and>
        good (bio st3) \<and> disk (bio st3) = disk (bio st) \<and> resume_block_device st3 = resume_block_device st \<and>
        resume_firstblock st3 = resume_firstblock st \<and> resume_swap_dev_t st3 = resume_swap_dev_t st \<and> Q st3"
  shows "\<exists>st3 st'. write_modified_signature modification st = Some (0, st') \<and> sig_written st p' st' \<and> Q st3 \<and>
    no_image_signature_contents st' = no_image_signature_contents st3"
proof -
  obtain d where d: "resume_block_device st = Bdev d" and wf: "wf_disk (disk (bio st))" using assms(1) by (auto simp: sig_ready_def)
  obtain st1 where st1: "get_current_signature st = Some (0, st1)" "sig_frame st st1" "current_signature_page st1 = Some (sig_page st)"
    using get_current_signature_good [OF assms(1)] by blast
  have "good (bio st1)" using sig_frameD(2) [OF st1(2)] assms(1) by (simp add: sig_ready_def)
  then obtain st2 where st2: "ask st1 = (True, st2)" "sig_frame st1 st2" "current_signature_page st2 = Some (sig_page st)"
    using sig_frame_ask [of st1] st1(3) by auto
  have fr: "sig_frame st st2" by (rule sig_frame_trans [OF st1(2) st2(2)])
  obtain st3 where st3: "modify_signature modification st2 (sig_page st) = Some (p', st3)"
    "good (bio st3)" "disk (bio st3) = disk (bio st)" "resume_block_device st3 = resume_block_device st"
    "resume_firstblock st3 = resume_firstblock st" "resume_swap_dev_t st3 = resume_swap_dev_t st" "Q st3"
    using assms(3) [OF fr st2(3)] by blast
  let ?b = "(bio st3)\<lparr>env_n := env_n (bio st3) + 2, io_done := io_done (bio st3) + 1,
    disk := disk_write (disk (bio st3)) d (resume_firstblock st) p'\<rparr>"
  let ?st' = "st3\<lparr>bio := ?b, current_signature_page := Some p'\<rparr>"
  have "write_modified_signature modification st = Some (0, ?st')"
    by (simp add: write_modified_signature_def st1(1) st2(1,3) st3(1,4,5) d page_write_good [OF st3(2)])
  moreover have "sig_written st p' ?st'"
    using st3 d wf assms(2)
    by (simp add: sig_written_def sig_ready_def sig_page_def wf_disk_write disk_read_write_same)
  ultimately show ?thesis using st3(7) by auto
qed

section \<open>The image signature\<close>

text \<open>The first header page: the first page of the block chains.\<close>

definition header_start :: "swap_state \<Rightarrow> geom option" where
  "header_start st = advance True (geom_of ((bio st)\<lparr>posn := toi_extent_state_goto_start (posn (bio st))\<rparr>))"

definition image_page :: "page \<Rightarrow> nat \<Rightarrow> ulong \<Rightarrow> page" where
  "image_page p dev blk = (let p1 = put_bytes p 0 (le_bytes 4 dev); p2 = put_bytes p1 8 (ulong_bytes blk);
     p3 = put_bytes p2 16 (int_bytes 0); p4 = put_bytes p3 20 (int_bytes (sig_type p)) in put_bytes p4 MAGIC_AT tuxonice_signature)"

lemma image_page_layout:
  assumes "p = d @ pad @ s @ a @ ty @ mid @ m" "length d = 4" "length pad = 4"
    "length s = 8" "length a = 4" "length ty = 4" "length mid = 4062" "length m = 10"
  shows "image_page p dev blk = le_bytes 4 dev @ pad @ ulong_bytes blk @ int_bytes 0 @ int_bytes (sig_type p) @ mid @
    tuxonice_signature @ drop 8 m"
  using put_bytes_app [of 0 "[]" d "le_bytes 4 dev" "pad @ s @ a @ ty @ mid @ m"]
    put_bytes_app [of 8 "le_bytes 4 dev @ pad" s "ulong_bytes blk" "a @ ty @ mid @ m"]
    put_bytes_app [of 16 "le_bytes 4 dev @ pad @ ulong_bytes blk" a "int_bytes 0" "ty @ mid @ m"]
    put_bytes_app [of 20 "le_bytes 4 dev @ pad @ ulong_bytes blk @ int_bytes 0" ty "int_bytes (sig_type p)" "mid @ m"]
    put_bytes_app [of MAGIC_AT "le_bytes 4 dev @ pad @ ulong_bytes blk @ int_bytes 0 @ int_bytes (sig_type p) @ mid" "take 8 m" tuxonice_signature "drop 8 m"]
    assms(2-)
  unfolding image_page_def Let_def by (simp add: assms(1) tuxonice_signature_def)

lemma image_page_reads:
  assumes "length p = PAGE_SIZE" and "dev < 2 ^ 32"
  shows "length (image_page p dev blk) = PAGE_SIZE" "has_image_sig (image_page p dev blk)"
    "sig_device (image_page p dev blk) = dev" "sig_sector (image_page p dev blk) = blk"
    "sig_orig_type (image_page p dev blk) = s32 (sig_type p)"
proof -
  obtain d pad s a ty mid m where p: "p = d @ pad @ s @ a @ ty @ mid @ m" "length d = 4" "length pad = 4"
    "length s = 8" "length a = 4" "length ty = 4" "length mid = 4062" "length m = 10"
    by (rule page_split [OF assms(1)])
  note l = image_page_layout [OF p, of dev blk]
  have mg: "magic (image_page p dev blk) = tuxonice_signature @ drop 8 m"
    unfolding l magic_def using p(2-) by simp
  show "length (image_page p dev blk) = PAGE_SIZE" unfolding l using p(2-) by (simp add: tuxonice_signature_def)
  show "has_image_sig (image_page p dev blk)"
    unfolding has_image_sig_def mg by (simp add: tuxonice_signature_def sigs_def ascii_def)
  show "sig_device (image_page p dev blk) = dev"
    unfolding l sig_device_def using p(2-) assms(2) by (simp add: le_nat_le_bytes)
  show "sig_sector (image_page p dev blk) = blk" unfolding l sig_sector_def using p(2-) by simp
  show "sig_orig_type (image_page p dev blk) = s32 (sig_type p)" unfolding l sig_orig_type_def using p(2-) by simp
qed

text \<open>Removing the signature restores the page of an ordinary swap area but for its first bytes, which become those kept.\<close>

definition swap_magic :: "page \<Rightarrow> bool" where
  "swap_magic p \<longleftrightarrow> magic p = ascii ''SWAP-SPACE'' \<or> magic p = ascii ''SWAPSPACE2''"

lemma sig_type_swap:
  "magic p = ascii ''SWAP-SPACE'' \<Longrightarrow> sig_type p = 0" "magic p = ascii ''SWAPSPACE2'' \<Longrightarrow> sig_type p = 1"
  by (simp_all add: sig_type_def sigs_def ascii_def)

lemma no_image_restores:
  assumes "length p = PAGE_SIZE" and "swap_magic p" and "dev < 2 ^ 32"
    and "length (no_image_signature_contents st) = SIZEOF_SIG_DATA"
  shows "no_image_signature st (image_page p dev blk) = put_bytes p 0 (no_image_signature_contents st)"
proof -
  let ?c = "no_image_signature_contents st"
  obtain d pad s a ty mid m where p: "p = d @ pad @ s @ a @ ty @ mid @ m" "length d = 4" "length pad = 4"
    "length s = 8" "length a = 4" "length ty = 4" "length mid = 4062" "length m = 10"
    by (rule page_split [OF assms(1)])
  have "magic p = m" unfolding magic_def p(1) using p(2-) by simp
  then have orig: "(if sig_orig_type (image_page p dev blk) = 0 then ascii ''SWAP-SPACE'' else ascii ''SWAPSPACE2'') = m"
    using assms(2) image_page_reads(5) [OF assms(1,3)] by (auto simp: swap_magic_def sig_type_swap)
  have len: "length tuxonice_signature = 8" by (simp add: tuxonice_signature_def)
  let ?h = "le_bytes 4 dev @ pad @ ulong_bytes blk @ int_bytes 0 @ int_bytes (sig_type p)"
  have "put_bytes (image_page p dev blk) MAGIC_AT m = ?h @ mid @ m"
    using put_bytes_app [of MAGIC_AT "?h @ mid" "tuxonice_signature @ drop 8 m" m "[]"] p(2-) len
    by (simp add: image_page_layout [OF p])
  moreover have "put_bytes (?h @ mid @ m) 0 ?c = ?c @ mid @ m"
    using put_bytes_app [of 0 "[]" ?h ?c "mid @ m"] p(2-) assms(4) by simp
  moreover have "put_bytes p 0 ?c = ?c @ mid @ m"
    using put_bytes_app [of 0 "[]" "d @ pad @ s @ a @ ty" ?c "mid @ m"] p assms(4) by simp
  ultimately show ?thesis by (simp only: no_image_signature_def orig Let_def)
qed

lemma write_image_signature:
  assumes "sig_ready st" and "header_start st = Some g" and "0 \<le> current_chain (g_posn g)"
    and "current_chain (g_posn g) < int MAX_SWAPFILES"
    and "bdev_of (swap_info (kswap st) ! nat (current_chain (g_posn g))) = Some dev" and "bd_dev dev < 2 ^ 32"
  shows "\<exists>st'. write_modified_signature IMAGE_SIGNATURE st = Some (0, st') \<and>
    sig_written st (image_page (sig_page st) (bd_dev dev) (current_offset (g_posn g))) st' \<and>
    no_image_signature_contents st' = take SIZEOF_SIG_DATA (sig_page st)"
proof -
  let ?p = "sig_page st" and ?blk = "current_offset (g_posn g)"
  let ?Q = "\<lambda>st3 :: swap_state. no_image_signature_contents st3 = take SIZEOF_SIG_DATA ?p"
  have "\<exists>st3 st'. write_modified_signature IMAGE_SIGNATURE st = Some (0, st') \<and> sig_written st (image_page ?p (bd_dev dev) ?blk) st' \<and>
    ?Q st3 \<and> no_image_signature_contents st' = no_image_signature_contents st3"
  proof (rule write_modified_good [OF assms(1), where Q = ?Q])
    show "length (image_page ?p (bd_dev dev) ?blk) = PAGE_SIZE"
      by (rule image_page_reads(1) [OF length_sig_page [OF assms(1)] assms(6)])
    fix st2 assume fr: "sig_frame st st2" and cur: "current_signature_page st2 = Some ?p"
    let ?b0 = "(bio st2)\<lparr>posn := toi_extent_state_goto_start (posn (bio st2))\<rparr>"
    have "geom_of ?b0 = geom_of ((bio st)\<lparr>posn := toi_extent_state_goto_start (posn (bio st))\<rparr>)"
      using fr by (auto simp: sig_frame_def geom_of_def)
    with assms(2) have "advance True (geom_of ?b0) = Some g" by (simp add: header_start_def)
    note adv = go_next_page_advance [OF this]
    define st3 where "st3 = st2\<lparr>no_image_signature_contents := take SIZEOF_SIG_DATA ?p, bio := set_geom g ?b0\<rparr>"
    have posn: "posn (set_geom g ?b0) = g_posn g" by (simp add: set_geom_def)
    have ready3: "sig_ready st3" "sig_page st3 = ?p"
      using sig_frameD(2,5,6) [OF fr] assms(1)
      by (auto simp: sig_ready_def sig_page_def st3_def set_geom_def good_def split: bdev_ptr.split)
    obtain st4 where st4: "parse_signature st3 = Some (sig_type ?p, st4)" "sig_frame st3 st4"
      using parse_signature_good [OF ready3(1)] ready3(2) by auto
    have "image_signature st2 ?p = Some (image_page ?p (bd_dev dev) ?blk, st4)"
      using st4(1) assms(3-5) sig_frameD(8) [OF fr]
      by (simp add: image_signature_def adv(1) posn st3_def get_swap_info_struct_def image_page_def Let_def)
    moreover have "disk (bio st3) = disk (bio st)" "resume_block_device st3 = resume_block_device st" "resume_firstblock st3 = resume_firstblock st"
      "resume_swap_dev_t st3 = resume_swap_dev_t st" "good (bio st3)"
      using sig_frameD [OF fr] ready3(1) by (simp_all add: st3_def set_geom_def sig_ready_def)
    moreover have "no_image_signature_contents st4 = take SIZEOF_SIG_DATA ?p"
      using sig_frameD(9) [OF st4(2)] by (simp add: st3_def)
    ultimately show "\<exists>st4. modify_signature IMAGE_SIGNATURE st2 ?p = Some (image_page ?p (bd_dev dev) ?blk, st4) \<and>
        good (bio st4) \<and> disk (bio st4) = disk (bio st) \<and> resume_block_device st4 = resume_block_device st \<and>
        resume_firstblock st4 = resume_firstblock st \<and> resume_swap_dev_t st4 = resume_swap_dev_t st \<and>
        no_image_signature_contents st4 = take SIZEOF_SIG_DATA ?p"
      using sig_frameD(1-4,10) [OF st4(2)] by (auto simp: modify_signature_def)
  qed
  then show ?thesis by auto
qed

lemma image_exists_found:
  assumes "sig_ready st" and "resume_swap_dev_t st \<noteq> 0" and "has_image_sig (sig_page st)"
  shows "\<exists>st'. toi_swap_image_exists env st = Some (1, st') \<and> sig_frame st st' \<and>
    header_dev_t st' = sig_device (sig_page st) \<and> headerblock st' = sig_sector (sig_page st)"
proof -
  have "resume_block_device st \<noteq> Null" using assms(1) by (auto simp: sig_ready_def)
  moreover have "sig_type (sig_page st) = 10" using assms(3) by (simp add: sig_type_def has_image_sig_def)
  ultimately show ?thesis
    using parse_signature_good [OF assms(1)] assms(2,3) by (auto simp: toi_swap_image_exists_def is_err_def)
qed

text \<open>Removing the signature, by a kernel that holds the bytes \<open>no_image_signature_contents\<close>.\<close>

lemma remove_image_signature:
  assumes "sig_ready st" and "sig_page st = image_page p dev blk" and "length p = PAGE_SIZE" and "swap_magic p" and "dev < 2 ^ 32"
    and "length (no_image_signature_contents st) = SIZEOF_SIG_DATA"
  shows "\<exists>st'. write_modified_signature NO_IMAGE_SIGNATURE st = Some (0, st') \<and>
    sig_written st (put_bytes p 0 (no_image_signature_contents st)) st'"
proof -
  let ?p = "put_bytes p 0 (no_image_signature_contents st)"
  have "\<exists>(st4 :: swap_state) st3. write_modified_signature NO_IMAGE_SIGNATURE st = Some (0, st3) \<and> sig_written st ?p st3 \<and> True \<and>
    no_image_signature_contents st3 = no_image_signature_contents st4"
  proof (rule write_modified_good [OF assms(1), where Q = "\<lambda>_. True"])
    show "length ?p = PAGE_SIZE" using assms(3,6) by simp
    fix st5 assume fr: "sig_frame st st5"
    have "no_image_signature st5 (sig_page st) = ?p"
      using no_image_restores [OF assms(3,4,5), of st5 blk] assms(2,6) sig_frameD(9) [OF fr] by simp
    then show "\<exists>st6. modify_signature NO_IMAGE_SIGNATURE st5 (sig_page st) = Some (?p, st6) \<and>
        good (bio st6) \<and> disk (bio st6) = disk (bio st) \<and> resume_block_device st6 = resume_block_device st \<and>
        resume_firstblock st6 = resume_firstblock st \<and> resume_swap_dev_t st6 = resume_swap_dev_t st \<and> True"
      using sig_frameD [OF fr] assms(1) by (auto simp: sig_ready_def modify_signature_def)
  qed
  then show ?thesis by blast
qed

lemma disk_write_put:
  assumes "wf_disk dsk" and "length c = n" and "n \<le> PAGE_SIZE"
  shows "disk_write dsk d s (put_bytes (disk_read dsk d s) 0 c) = dsk \<longleftrightarrow> c = take n (disk_read dsk d s)"
proof -
  let ?p = "disk_read dsk d s"
  have len: "length ?p = PAGE_SIZE" using length_slot_page [OF assms(1), of "(d, s)"] by simp
  have put: "put_bytes ?p 0 c = c @ drop n ?p" using assms(2) by (simp add: put_bytes_def)
  show ?thesis
  proof
    assume "disk_write dsk d s (put_bytes ?p 0 c) = dsk"
    then have "disk_read (disk_write dsk d s (put_bytes ?p 0 c)) d s = ?p" by simp
    moreover have "length (put_bytes ?p 0 c) = PAGE_SIZE" using len assms(2,3) put by simp
    ultimately have "c @ drop n ?p = ?p" using put by (simp add: disk_read_write_same)
    then have "take n (c @ drop n ?p) = take n ?p" by simp
    then show "c = take n ?p" using assms(2) by simp
  next
    assume "c = take n ?p"
    then have "put_bytes ?p 0 c = ?p" unfolding put by simp
    then show "disk_write dsk d s (put_bytes ?p 0 c) = dsk" by (simp add: disk_write_read [OF assms(1)])
  qed
qed

text \<open>
  A kernel, the one that wrote the signature or one booted later, that sees the disk of \<open>st\<close> through the same resume
  device, on which nothing fails.
\<close>

definition sees_signature :: "swap_state \<Rightarrow> swap_state \<Rightarrow> bool" where
  "sees_signature st b \<longleftrightarrow> sig_ready b \<and> disk (bio b) = disk (bio st) \<and> resume_block_device b = resume_block_device st \<and>
     resume_firstblock b = resume_firstblock st \<and> resume_swap_dev_t b \<noteq> 0 \<and>
     length (no_image_signature_contents b) = SIZEOF_SIG_DATA"

lemma find_and_remove_image:
  assumes "sig_written st (image_page p dev blk) st1" and "sees_signature st1 b" and "p = sig_page st" and "sig_ready st"
    and "swap_magic p" and "dev < 2 ^ 32"
  shows "\<exists>b1 b2. toi_swap_image_exists env b = Some (1, b1) \<and> header_dev_t b1 = dev \<and> headerblock b1 = blk \<and>
    write_modified_signature NO_IMAGE_SIGNATURE b1 = Some (0, b2) \<and>
    (disk (bio b2) = disk (bio st) \<longleftrightarrow> no_image_signature_contents b = take SIZEOF_SIG_DATA p)"
proof -
  let ?c = "no_image_signature_contents b" and ?f = "resume_firstblock st"
  obtain d where d: "resume_block_device st = Bdev d" and wf: "wf_disk (disk (bio st))" using assms(4) by (auto simp: sig_ready_def)
  have p: "p = disk_read (disk (bio st)) d ?f" and len: "length p = PAGE_SIZE"
    using d length_sig_page [OF assms(4)] assms(3) by (simp_all add: sig_page_def)
  have same: "sig_page b = sig_page st1" "sig_ready b" "resume_swap_dev_t b \<noteq> 0" "length ?c = SIZEOF_SIG_DATA"
    "resume_block_device b = Bdev d" "resume_firstblock b = ?f" "disk (bio b) = disk_write (disk (bio st)) d ?f (image_page p dev blk)"
    using assms(1,2) d by (simp_all add: sees_signature_def sig_page_def sig_written_def)
  have page: "sig_page b = image_page p dev blk" using same(1) assms(1) by (simp add: sig_written_def)
  note reads = image_page_reads [OF len assms(6), of blk]
  obtain b1 where b1: "toi_swap_image_exists env b = Some (1, b1)" "sig_frame b b1" "header_dev_t b1 = dev" "headerblock b1 = blk"
    using image_exists_found [OF same(2,3)] page reads by auto
  note f1 = sig_frameD [OF b1(2)]
  obtain b2 where b2: "write_modified_signature NO_IMAGE_SIGNATURE b1 = Some (0, b2)" "sig_written b1 (put_bytes p 0 ?c) b2"
    using remove_image_signature [of b1 p dev blk] f1 same(2,4) page len assms(5,6) by auto
  have "disk (bio b2) = disk_write (disk (bio st)) d ?f (put_bytes p 0 ?c)"
    using b2(2) f1 same(5-7) by (simp add: sig_written_def disk_write_write)
  then have "disk (bio b2) = disk (bio st) \<longleftrightarrow> ?c = take SIZEOF_SIG_DATA p"
    using disk_write_put [OF wf same(4)] p by simp
  with b1 b2(1) show ?thesis by blast
qed

text \<open>
  C8. Take a swap area whose signature page carries one of the two magics of swap, on a device without I/O errors, and an
  allocated header whose first page lies on an area with a block device. Writing the image signature makes every kernel that sees the disk through the resume device, the
  running one or one booted later, find an image and the device and the block of its header. Removing the
  signature then brings the whole disk back to what it was before if and only if the kernel that
  removes it holds the bytes that the signature replaced. The kernel that wrote it does. A kernel that read them from the
  image header need not: \<open>toi_swap_write_header_init\<close> puts them there before they are taken from the page.
\<close>

theorem swap_signature_roundtrip:
  assumes "sig_ready st" and "swap_magic (sig_page st)" and "resume_swap_dev_t st \<noteq> 0"
    and "header_start st = Some g" and "0 \<le> current_chain (g_posn g)" and "current_chain (g_posn g) < int MAX_SWAPFILES"
    and "bdev_of (swap_info (kswap st) ! nat (current_chain (g_posn g))) = Some dev" and "bd_dev dev < 2 ^ 32"
  shows "\<exists>st1. write_modified_signature IMAGE_SIGNATURE st = Some (0, st1) \<and> sees_signature st1 st1 \<and>
    no_image_signature_contents st1 = take SIZEOF_SIG_DATA (sig_page st) \<and>
    (\<forall>b. sees_signature st1 b \<longrightarrow> (\<exists>b1 b2. toi_swap_image_exists env b = Some (1, b1) \<and>
      header_dev_t b1 = bd_dev dev \<and> headerblock b1 = current_offset (g_posn g) \<and>
      write_modified_signature NO_IMAGE_SIGNATURE b1 = Some (0, b2) \<and>
      (disk (bio b2) = disk (bio st) \<longleftrightarrow> no_image_signature_contents b = take SIZEOF_SIG_DATA (sig_page st))))"
proof -
  let ?q = "image_page (sig_page st) (bd_dev dev) (current_offset (g_posn g))"
  obtain st1 where st1: "write_modified_signature IMAGE_SIGNATURE st = Some (0, st1)" "sig_written st ?q st1"
    "no_image_signature_contents st1 = take SIZEOF_SIG_DATA (sig_page st)"
    using write_image_signature [OF assms(1,4-8)] by blast
  then have "sees_signature st1 st1"
    using assms(3) length_sig_page [OF assms(1)] by (simp add: sees_signature_def sig_written_def)
  with st1 find_and_remove_image [OF st1(2) _ refl assms(1,2,8)] show ?thesis by blast
qed

definition demo_disk :: disk where
  "demo_disk = (\<lambda>d s. if d = 8 \<and> s = 7 then replicate 502 0 @ ascii ''SWAPSPACE2'' else replicate 512 0)"

definition demo_swap_state :: swap_state where
  "demo_swap_state = \<lparr>bio = demo_bio\<lparr>disk := demo_disk, posn_save := replicate 4 \<lparr>chain_num = 1, extent_num = 1, saved_offset = 20\<rparr>\<rparr>,
     kswap = demo_swap, self = 3, swapextents = empty_chain, header_dev_t = 0, headerblock = 0, header_block_device = Null,
     resume_swap_dev_t = 8, resume_firstblock = 0, resume_block_device = Bdev 8, header_pages_reserved = 0,
     swap_pages_allocated = 0, current_signature_page = None, no_image_signature_contents = replicate 24 0,
     swapfilename = [], toi_swapon_status = False, bdevs_opened = replicate 34 None, toi_state = {}, nr_hibernates = 0\<rparr>"

lemma replicate_append2: "replicate a x @ replicate b x @ ys = replicate (a + b) x @ ys"
  by (simp add: replicate_add)

lemma demo_sig_page: "sig_page demo_swap_state = replicate 4086 0 @ ascii ''SWAPSPACE2''"
proof -
  have upt: "[0 ..< 8] = [0, 1, 2, 3, 4, 5, 6, 7 :: nat]" by (simp add: upt_rec)
  have "sig_page demo_swap_state = concat (map (\<lambda>i. demo_disk 8 (of_nat i)) [0 ..< 8])"
    by (simp add: sig_page_def demo_swap_state_def disk_read_def)
  then show ?thesis unfolding upt by (simp add: demo_disk_def replicate_append2)
qed

lemma demo_sig_ready: "sig_ready demo_swap_state"
  by (auto simp: sig_ready_def good_def wf_disk_def demo_disk_def demo_swap_state_def demo_bio_def ascii_def)

lemma demo_swap_magic: "swap_magic (sig_page demo_swap_state)"
  by (simp add: swap_magic_def magic_def demo_sig_page)

definition demo_env :: swap_env where
  "demo_env = \<lparr>open_by_devnum = \<lambda>d. if d = 8 \<or> d = 9 then Some d else None, name_to_dev_t = \<lambda>s. if s = ''/dev/sda2'' then 8 else 0,
     stat_rdev = \<lambda>_. None, sys_swapon = \<lambda>_ k. (- ENODEV, k), sys_swapoff = \<lambda>_ k. k, strict_strtoul = \<lambda>_. None\<rparr>"

definition demo_start :: geom where
  "demo_start = \<lparr>g_posn = demo_state\<lparr>current_chain := 1, current_extent := Some 0, current_offset := 5\<rparr>,
     g_save = replicate 4 \<lparr>chain_num = 1, extent_num = 1, saved_offset = 20\<rparr>, g_stream = 0, g_dev = devinfo demo_bio, g_extra = False\<rparr>"

lemma demo_header_start: "header_start demo_swap_state = Some demo_start"
  by (simp add: header_start_def demo_start_def advance_def g_step_def g_bpp_def g_barrier_def geom_of_def demo_swap_state_def demo_bio_def
      compare_to_def toi_extent_state_goto_start_def demo_state_def toi_extent_state_next_def next_chain.simps empty_chain_def
      demo_chain_eq num_chains_def toi_extent_state_eof_def cur_extents_def Let_def)

text \<open>The kernel that wrote the signature, and one booted with other bytes, which leaves them on the disk.\<close>

theorem swap_signature_roundtrip_witness:
  "\<exists>st1. write_modified_signature IMAGE_SIGNATURE demo_swap_state = Some (0, st1) \<and>
    (\<exists>st2 st3. toi_swap_image_exists demo_env st1 = Some (1, st2) \<and> header_dev_t st2 = 8 \<and> headerblock st2 = 5 \<and>
      write_modified_signature NO_IMAGE_SIGNATURE st2 = Some (0, st3) \<and> disk (bio st3) = disk (bio demo_swap_state)) \<and>
    (\<exists>b1 b2. toi_swap_image_exists demo_env (st1\<lparr>no_image_signature_contents := replicate 24 1\<rparr>) = Some (1, b1) \<and>
      write_modified_signature NO_IMAGE_SIGNATURE b1 = Some (0, b2) \<and> disk (bio b2) \<noteq> disk (bio demo_swap_state))"
proof -
  have start: "resume_swap_dev_t demo_swap_state \<noteq> 0" "0 \<le> current_chain (g_posn demo_start)" "current_chain (g_posn demo_start) < int MAX_SWAPFILES"
    "bdev_of (swap_info (kswap demo_swap_state) ! nat (current_chain (g_posn demo_start))) = Some \<lparr>bd_id = 8, bd_dev = 8, bd_ram = False\<rparr>"
    by (simp_all add: demo_start_def demo_swap_state_def demo_swap_def demo_area_def demo_state_def)
  have old: "take SIZEOF_SIG_DATA (sig_page demo_swap_state) = replicate 24 0" by (simp add: demo_sig_page)
  have at: "header_dev_t s = bd_dev \<lparr>bd_id = 8, bd_dev = 8, bd_ram = False\<rparr> \<longleftrightarrow> header_dev_t s = 8"
    "headerblock s = current_offset (g_posn demo_start) \<longleftrightarrow> headerblock s = 5" for s
    by (simp_all add: demo_start_def)
  have "bd_dev \<lparr>bd_id = 8, bd_dev = 8, bd_ram = False\<rparr> < 2 ^ 32" by simp
  from swap_signature_roundtrip [OF demo_sig_ready demo_swap_magic start(1) demo_header_start start(2-4) this, of demo_env]
  obtain st1 where st1: "write_modified_signature IMAGE_SIGNATURE demo_swap_state = Some (0, st1)" "sees_signature st1 st1"
    "no_image_signature_contents st1 = replicate 24 0"
    and all: "\<And>b. sees_signature st1 b \<Longrightarrow> \<exists>b1 b2. toi_swap_image_exists demo_env b = Some (1, b1) \<and>
      header_dev_t b1 = 8 \<and> headerblock b1 = 5 \<and> write_modified_signature NO_IMAGE_SIGNATURE b1 = Some (0, b2) \<and>
      (disk (bio b2) = disk (bio demo_swap_state) \<longleftrightarrow> no_image_signature_contents b = replicate 24 0)"
    unfolding old at by blast
  let ?b = "st1\<lparr>no_image_signature_contents := replicate 24 1\<rparr>"
  have "sees_signature st1 ?b" using st1(2) by (simp add: sees_signature_def sig_ready_def)
  then obtain b1 b2 where b: "toi_swap_image_exists demo_env ?b = Some (1, b1)" "write_modified_signature NO_IMAGE_SIGNATURE b1 = Some (0, b2)"
    "disk (bio b2) = disk (bio demo_swap_state) \<longleftrightarrow> no_image_signature_contents ?b = replicate 24 0"
    using all [of ?b] by blast
  have "replicate 24 (1 :: byte) \<noteq> replicate 24 0" by (simp add: replicate_eq_replicate)
  then have "disk (bio b2) \<noteq> disk (bio demo_swap_state)" using b(3) by simp
  with st1 all [OF st1(2)] b(1,2) show ?thesis by blast
qed

section \<open>A device that cannot be opened\<close>

lemma parse_signature_faults:
  assumes "good (bio st)" and "resume_block_device st = Err e"
  shows "get_current_signature st = None"
  using assms by (cases "current_signature_page st") (simp_all add: get_current_signature_def ask_good)

text \<open>
  C34. When the resume device cannot be opened, \<open>toi_swap_image_exists\<close> answers that it does not know,
  but leaves the error pointer in \<open>resume_block_device\<close>: the next call takes it for a device and
  dereferences it, and \<open>toi_swap_remove_image\<close>, which takes the answer for a yes, does so at once.
\<close>

theorem failed_open_faults:
  assumes "good (bio st)" and "resume_swap_dev_t st \<noteq> 0" and "resume_block_device st = Null"
    and "bdevs_opened st ! MAX_SWAPFILES = None" and "open_by_devnum env (resume_swap_dev_t st) = None" and "nr_hibernates st = 0"
  shows "(\<exists>st1. toi_swap_image_exists env st = Some (-1, st1) \<and> resume_block_device st1 = Err (- EINVAL) \<and>
      toi_swap_image_exists env st1 = None) \<and> toi_swap_remove_image env st = None"
proof -
  let ?st1 = "(close_bdev MAX_SWAPFILES st)\<lparr>resume_block_device := Err (- EINVAL)\<rparr>"
  have ex: "toi_swap_image_exists env st = Some (-1, ?st1)"
    using assms(2-5) by (simp add: toi_swap_image_exists_def open_bdev_def is_err_def)
  have "get_current_signature ?st1 = None"
    by (rule parse_signature_faults) (use assms(1) in \<open>simp_all add: close_bdev_def\<close>)
  then have "toi_swap_image_exists env ?st1 = None" "write_modified_signature NO_IMAGE_SIGNATURE ?st1 = None"
    using assms(2) by (simp_all add: toi_swap_image_exists_def parse_signature_def write_modified_signature_def is_err_def close_bdev_def)
  with ex assms(6) show ?thesis by (simp add: toi_swap_remove_image_def)
qed

theorem failed_open_faults_witness:
  "(\<exists>st1. toi_swap_image_exists demo_env (demo_swap_state\<lparr>resume_swap_dev_t := 5, resume_block_device := Null\<rparr>) = Some (-1, st1) \<and>
      resume_block_device st1 = Err (- EINVAL) \<and> toi_swap_image_exists demo_env st1 = None) \<and>
   toi_swap_remove_image demo_env (demo_swap_state\<lparr>resume_swap_dev_t := 5, resume_block_device := Null\<rparr>) = None"
  by (rule failed_open_faults) (simp_all add: demo_swap_state_def demo_env_def demo_bio_def good_def)

end
