(* ===== verification/TOI_Swap_Storage.thy ===== *)
theory TOI_Swap_Storage
  imports TOI_Swap_Signature
begin

text \<open>
  Storage of the swap allocator: which swap entries it holds and which blocks these are. The
  loops that take and free entries are verified once over the interface \<open>swap_space\<close>, and used
  with the kernel's swap map.
\<close>

section \<open>Entries held\<close>

definition entries :: "hibernate_extent_chain \<Rightarrow> ulong set" where
  "entries c = {v. unat v \<in> set (ext_list (extents c))}"

definition run_set :: "alloc_vars \<Rightarrow> nat \<Rightarrow> ulong set" where
  "run_set l t = {v. run_min l t \<le> v \<and> v \<le> run_max l t}"

definition runs :: "alloc_vars \<Rightarrow> ulong set" where
  "runs l = (\<Union>t \<in> {t. to_add l t}. run_set l t)"

definition wf_runs :: "alloc_vars \<Rightarrow> bool" where
  "wf_runs l \<longleftrightarrow> (\<forall>t. to_add l t \<longrightarrow> run_min l t \<le> run_max l t \<and> (\<forall>v \<in> run_set l t. swp_type v = t))"

text \<open>The number of entries of a set that are not on an ignored area.\<close>

definition counted :: "(nat \<Rightarrow> bool) \<Rightarrow> ulong set \<Rightarrow> int" where
  "counted ign E = int (card {v \<in> E. \<not> ign (swp_type v)})"

lemma counted_insert:
  assumes "v \<notin> E"
  shows "counted ign (insert v E) = (if ign (swp_type v) then counted ign E else counted ign E + 1)"
proof -
  have "{w \<in> insert v E. \<not> ign (swp_type w)} = (if ign (swp_type v) then {w \<in> E. \<not> ign (swp_type w)} else insert v {w \<in> E. \<not> ign (swp_type w)})"
    by auto
  with assms show ?thesis by (simp add: counted_def)
qed

lemma swp_type_less: "swp_type v < 32"
  using unat_ulong_less [of v] by (simp add: swp_type_div div_less_iff_less_mult)

lemma add_entries:
  assumes "wf_chain c" and "mn \<le> mx" and "{v. mn \<le> v \<and> v \<le> mx} \<inter> entries c = {}"
    and "toi_add_to_extent_chain True c mn mx = (r, c')"
  shows "r = 0" and "wf_chain c'" and "entries c' = entries c \<union> {v. mn \<le> v \<and> v \<le> mx}"
proof -
  have "{unat mn .. unat mx} \<inter> set (ext_list (extents c)) = {}"
  proof (rule ccontr)
    assume "{unat mn .. unat mx} \<inter> set (ext_list (extents c)) \<noteq> {}"
    then obtain n where n: "unat mn \<le> n" "n \<le> unat mx" "n \<in> set (ext_list (extents c))" by auto
    then have "unat (of_nat n :: ulong) = n"
      using unat_ulong_less [of mx] by (intro of_nat_inverse [OF refl]) simp
    with n have "(of_nat n :: ulong) \<in> {v. mn \<le> v \<and> v \<le> mx} \<inter> entries c"
      by (simp add: entries_def word_le_nat_alt)
    with assms(3) show False by blast
  qed
  note disj = this
  show r: "r = 0" using add_to_extent_chain_ret [of True c mn mx] assms(4) by simp
  show "wf_chain c'" by (rule add_to_extent_chain_wf [OF assms(1,2) disj]) (use assms(4) r in simp)
  show "entries c' = entries c \<union> {v. mn \<le> v \<and> v \<le> mx}"
    using add_to_extent_chain_set [OF assms(1,2) disj, of True c'] assms(4) r
    by (auto simp: entries_def word_le_nat_alt)
qed

section \<open>Taking entries\<close>

lemma word_interval_grow:
  fixes mn :: ulong
  assumes "mn \<le> mx" and "mx + 1 \<noteq> 0"
  shows "{v. mn \<le> v \<and> v \<le> mx + 1} = insert (mx + 1) {v. mn \<le> v \<and> v \<le> mx}"
proof -
  have "unat (mx + 1) = unat mx + 1" using unatSuc [of mx] assms(2) by (simp add: add.commute)
  with assms(1) show ?thesis by (auto simp: word_le_nat_alt word_unat_eq_iff le_Suc_eq)
qed

text \<open>The other runs.\<close>

definition other_runs :: "alloc_vars \<Rightarrow> nat \<Rightarrow> ulong set" where
  "other_runs l t = (\<Union>u \<in> {u. to_add l u \<and> u \<noteq> t}. run_set l u)"

lemma runs_split: "runs l = (if to_add l t then run_set l t \<union> other_runs l t else other_runs l t)"
  by (auto simp: runs_def other_runs_def)

lemma other_runs_types: "wf_runs l \<Longrightarrow> v \<in> other_runs l t \<Longrightarrow> swp_type v \<noteq> t"
  by (auto simp: other_runs_def wf_runs_def)

lemma start_run_simps [simp]:
  "to_add (start_run t v ign l) = (to_add l)(t := True)" "run_set (start_run t v ign l) t = {v}"
  "u \<noteq> t \<Longrightarrow> run_set (start_run t v ign l) u = run_set l u" "other_runs (start_run t v ign l) t = other_runs l t"
  "gotten (start_run t v ign l) = (if ign then gotten l else gotten l + 1)"
  by (auto simp: start_run_def run_set_def other_runs_def)

lemma grow_run_simps [simp]:
  "to_add (grow_run t ign l) = to_add l"  "run_set (grow_run t ign l) t = {v. run_min l t \<le> v \<and> v \<le> run_max l t + 1}"
  "u \<noteq> t \<Longrightarrow> run_set (grow_run t ign l) u = run_set l u" "other_runs (grow_run t ign l) t = other_runs l t"
  "gotten (grow_run t ign l) = (if ign then gotten l else gotten l + 1)"
  by (auto simp: grow_run_def run_set_def other_runs_def)

lemma wf_runs_start:
  assumes "wf_runs l" and "swp_type v = t"
  shows "wf_runs (start_run t v ign l)"
  unfolding wf_runs_def
proof (intro allI impI)
  fix u assume "to_add (start_run t v ign l) u"
  with assms show "run_min (start_run t v ign l) u \<le> run_max (start_run t v ign l) u \<and>
      (\<forall>w \<in> run_set (start_run t v ign l) u. swp_type w = u)"
    by (cases "u = t") (auto simp: wf_runs_def start_run_def run_set_def)
qed

lemma grow_run_set:
  assumes "wf_runs l" and "to_add l t" and "run_max l t + 1 \<noteq> 0"
  shows "run_set (grow_run t ign l) t = insert (run_max l t + 1) (run_set l t)"
  using word_interval_grow [of "run_min l t" "run_max l t"] assms by (simp add: wf_runs_def) (simp add: run_set_def)

lemma wf_runs_grow:
  assumes "wf_runs l" and "to_add l t" and "run_max l t + 1 \<noteq> 0" and "swp_type (run_max l t + 1) = t"
  shows "wf_runs (grow_run t ign l)"
  unfolding wf_runs_def
proof (intro allI impI)
  fix u assume add: "to_add (grow_run t ign l) u"
  show "run_min (grow_run t ign l) u \<le> run_max (grow_run t ign l) u \<and> (\<forall>w \<in> run_set (grow_run t ign l) u. swp_type w = u)"
  proof (cases "u = t")
    case True
    have "run_max l t + 1 \<in> run_set (grow_run t ign l) t" using grow_run_set [OF assms(1-3)] by simp
    then have "run_min l t \<le> run_max l t + 1" by simp
    moreover have "\<forall>w \<in> insert (run_max l t + 1) (run_set l t). swp_type w = t"
      using assms(1,2,4) by (auto simp: wf_runs_def)
    ultimately show ?thesis
      unfolding True grow_run_set [OF assms(1-3)] by (simp add: grow_run_def)
  next
    case False
    with add assms(1) show ?thesis by (auto simp: wf_runs_def grow_run_def run_set_def)
  qed
qed

text \<open>
  The state of the allocation: what is recorded in the chain and in the runs is in use once, and
  every other entry is used as in \<open>base\<close>; \<open>gotten\<close> counts what was added to \<open>E0\<close>.
\<close>

definition take_inv ::
    "('k \<Rightarrow> bool) \<Rightarrow> ('k \<Rightarrow> ulong \<Rightarrow> nat) \<Rightarrow> (nat \<Rightarrow> bool) \<Rightarrow> ulong set \<Rightarrow> (ulong \<Rightarrow> nat) \<Rightarrow>
     alloc_vars \<Rightarrow> hibernate_extent_chain \<Rightarrow> 'k \<Rightarrow> bool" where
  "take_inv valid count ign E0 base l c k \<longleftrightarrow> valid k \<and> wf_chain c \<and> wf_runs l \<and> entries c \<inter> runs l = {} \<and>
     count k = (\<lambda>v. if v \<in> entries c \<union> runs l then 1 else base v) \<and> (\<forall>v \<in> entries c \<union> runs l. base v = 0) \<and>
     E0 \<subseteq> entries c \<union> runs l \<and> gotten l + counted ign E0 = counted ign (entries c \<union> runs l)"

lemma take_inv_step:
  assumes "take_inv valid count ign E0 base l c k" and "valid k1" and "count k v = 0" and "count k1 = (count k)(v := 1)"
    and "wf_chain c'" and "wf_runs l'" and "entries c' \<inter> runs l' = {}" and "entries c' \<union> runs l' = insert v (entries c \<union> runs l)"
    and "gotten l' = (if ign (swp_type v) then gotten l else gotten l + 1)"
  shows "take_inv valid count ign E0 base l' c' k1"
proof -
  let ?E = "entries c \<union> runs l"
  have inv: "count k = (\<lambda>v. if v \<in> ?E then 1 else base v)" "E0 \<subseteq> ?E" "gotten l + counted ign E0 = counted ign ?E"
    using assms(1) by (auto simp: take_inv_def)
  have v: "v \<notin> ?E" using assms(3) inv(1) by auto
  then have "gotten l' + counted ign E0 = counted ign (entries c' \<union> runs l')"
    using counted_insert [OF v, of ign] inv(3) assms(9) unfolding assms(8) by simp
  moreover have "count k1 = (\<lambda>w. if w \<in> entries c' \<union> runs l' then 1 else base w)"
    unfolding assms(4,8) using inv(1) by (auto simp: fun_eq_iff)
  moreover have "\<forall>w \<in> ?E. base w = 0" using assms(1) by (simp add: take_inv_def)
  then have "\<forall>w \<in> entries c' \<union> runs l'. base w = 0" using v assms(3) inv(1) unfolding assms(8) by auto
  ultimately show ?thesis
    using assms(2,5-8) inv(2) unfolding take_inv_def by blast
qed

lemma take_inv_new:
  assumes "take_inv valid count ign E0 base l c k" and "count k v = 0"
  shows "v \<notin> entries c" and "v \<notin> runs l"
  using assms by (auto simp: take_inv_def split: if_splits)

lemma take_inv_wf:
  assumes "take_inv valid count ign E0 base l c k"
  shows "valid k" "wf_chain c" "wf_runs l" "entries c \<inter> runs l = {}"
  using assms by (auto simp: take_inv_def)

lemma take_start:
  assumes "take_inv valid count ign E0 base l c k" and "valid k1" and "count k v = 0" and "count k1 = (count k)(v := 1)"
    and "\<not> to_add l (swp_type v)"
  shows "take_inv valid count ign E0 base (start_run (swp_type v) v (ign (swp_type v)) l) c k1"
proof -
  let ?t = "swp_type v"
  note inv = take_inv_wf [OF assms(1)]
  have "runs (start_run ?t v (ign ?t) l) = insert v (runs l)"
    using assms(5) by (simp add: runs_split [of _ ?t])
  with inv take_inv_new(1) [OF assms(1,3)] show ?thesis
    by (intro take_inv_step [OF assms(1-4)]) (simp_all add: wf_runs_start)
qed

lemma take_grow:
  assumes "take_inv valid count ign E0 base l c k" and "valid k1" and "count k v = 0" and "count k1 = (count k)(v := 1)"
    and "to_add l (swp_type v)" and "v = run_max l (swp_type v) + 1" and "v \<noteq> 0"
  shows "take_inv valid count ign E0 base (grow_run (swp_type v) (ign (swp_type v)) l) c k1"
proof -
  let ?t = "swp_type v"
  note inv = take_inv_wf [OF assms(1)]
  have mx: "run_max l ?t + 1 \<noteq> 0" "swp_type (run_max l ?t + 1) = ?t" using assms(6,7) by simp_all
  have "run_set (grow_run ?t (ign ?t) l) ?t = insert v (run_set l ?t)"
    using grow_run_set [OF inv(3) assms(5) mx(1), of "ign ?t"] assms(6) by simp
  then have "runs (grow_run ?t (ign ?t) l) = insert v (runs l)"
    using assms(5) by (simp add: runs_split [of _ ?t] del: grow_run_simps(2))
  with inv take_inv_new(1) [OF assms(1,3)] wf_runs_grow [OF inv(3) assms(5) mx] show ?thesis
    by (intro take_inv_step [OF assms(1-4)]) simp_all
qed

lemma take_flush:
  assumes "take_inv valid count ign E0 base l c k" and "valid k1" and "count k v = 0" and "count k1 = (count k)(v := 1)"
    and "to_add l (swp_type v)" and "toi_add_to_extent_chain True c (run_min l (swp_type v)) (run_max l (swp_type v)) = (r, c1)"
  shows "r = 0 \<and> take_inv valid count ign E0 base (start_run (swp_type v) v (ign (swp_type v)) l) c1 k1"
proof -
  let ?t = "swp_type v"
  note inv = take_inv_wf [OF assms(1)]
  have sub: "run_set l ?t \<subseteq> runs l" using assms(5) by (auto simp: runs_def)
  have "run_min l ?t \<le> run_max l ?t" using inv(3) assms(5) by (simp add: wf_runs_def)
  moreover have "{v. run_min l ?t \<le> v \<and> v \<le> run_max l ?t} \<inter> entries c = {}"
    using sub inv(4) unfolding run_set_def by blast
  ultimately have add: "r = 0" "wf_chain c1" "entries c1 = entries c \<union> run_set l ?t"
    using add_entries [OF inv(2) _ _ assms(6)] by (simp_all add: run_set_def)
  have un: "runs (start_run ?t v (ign ?t) l) = insert v (other_runs l ?t)" "runs l = run_set l ?t \<union> other_runs l ?t"
    using assms(5) by (simp_all add: runs_split [of _ ?t])
  have "\<forall>w \<in> run_set l ?t. swp_type w = ?t" using inv(3) assms(5) by (simp add: wf_runs_def)
  then have "run_set l ?t \<inter> other_runs l ?t = {}" using other_runs_types [OF inv(3)] by blast
  then have "entries c1 \<inter> runs (start_run ?t v (ign ?t) l) = {}"
    using take_inv_new [OF assms(1,3)] inv(4) unfolding un add(3) by blast
  moreover have "entries c1 \<union> runs (start_run ?t v (ign ?t) l) = insert v (entries c \<union> runs l)"
    unfolding un add(3) by blast
  ultimately have "take_inv valid count ign E0 base (start_run ?t v (ign ?t) l) c1 k1"
    by (intro take_inv_step [OF assms(1-4) add(2)]) (simp_all add: wf_runs_start inv(3))
  with add(1) show ?thesis by simp
qed

context swap_space
begin

lemma alloc_loop_total:
  assumes "take_inv valid count ign E0 base l c k" and "\<forall>n. got n"
  shows "\<exists>l' c' n' k'. alloc_loop get_page free_page got ign wanted l c n k = Some (l', c', n', k') \<and>
    take_inv valid count ign E0 base l' c' k' \<and> layout k' = layout k \<and>
    (gotten l' < wanted \<longrightarrow> (\<exists>k''. get_page k'' = Some (0, k')))"
  using assms(1)
proof (induction "space k" arbitrary: l c n k rule: less_induct)
  case less
  note unfold = alloc_loop.simps [of get_page free_page got ign wanted l c n k]
  show ?case
  proof (cases "gotten l < wanted")
    case False
    with less.prems unfold show ?thesis by simp
  next
    case True
    obtain v k1 where get: "get_page k = Some (v, k1)" "valid k1" "layout k1 = layout k"
      "if v = 0 then count k1 = count k else count k v = 0 \<and> count k1 = (count k)(v := 1) \<and> space k1 < space k"
      using get_law [OF take_inv_wf(1) [OF less.prems]] by blast
    let ?t = "swp_type v"
    show ?thesis
    proof (cases "v = 0")
      case v0: True
      with get less.prems have "take_inv valid count ign E0 base l c k1" by (simp add: take_inv_def)
      with v0 get True unfold show ?thesis by auto
    next
      case v: False
      with get(4) have cnt: "count k v = 0" "count k1 = (count k)(v := 1)" "space k1 < space k" by auto
      note step = less.prems get(2) cnt(1,2)
      obtain r c1 where add: "toi_add_to_extent_chain True c (run_min l ?t) (run_max l ?t) = (r, c1)" by force
      have unfold1: "alloc_loop get_page free_page got ign wanted l c n k =
          (if \<not> to_add l ?t then alloc_loop get_page free_page got ign wanted (start_run ?t v (ign ?t) l) c n k1
           else if v = run_max l ?t + 1 then alloc_loop get_page free_page got ign wanted (grow_run ?t (ign ?t) l) c n k1
           else alloc_loop get_page free_page got ign wanted (start_run ?t v (ign ?t) l) c1 (Suc n) k1)"
        using True v add take_flush [OF step _ add] assms(2) get(1) unfold by (simp add: Let_def)
      show ?thesis
        unfolding unfold1 get(3) [symmetric]
        using less.hyps [OF cnt(3) take_start [OF step], of n] less.hyps [OF cnt(3) take_grow [OF step _ _ v], of n]
          less.hyps [OF cnt(3) conjunct2 [OF take_flush [OF step _ add]], of "Suc n"] by (simp split: if_split)
    qed
  qed
qed

end

text \<open>Recording the runs of the areas \<open>ts\<close>.\<close>

lemma add_runs_total:
  assumes "wf_chain c" and "wf_runs l" and "entries c \<inter> (\<Union>i \<in> {i \<in> set ts. to_add l i}. run_set l i) = {}"
    and "distinct ts" and "\<forall>n. got n"
  shows "\<exists>c' n'. add_runs free_page got ign ts l c n k = Some (l, c', n', k) \<and> wf_chain c' \<and>
    entries c' = entries c \<union> (\<Union>i \<in> {i \<in> set ts. to_add l i}. run_set l i)"
  using assms(1,3,4)
proof (induction ts arbitrary: c n)
  case (Cons i ts)
  show ?case
  proof (cases "to_add l i")
    case False
    then have "{j \<in> set (i # ts). to_add l j} = {j \<in> set ts. to_add l j}" by auto
    with False Cons show ?thesis by simp
  next
    case True
    then have un: "(\<Union>j \<in> {j \<in> set (i # ts). to_add l j}. run_set l j) = run_set l i \<union> (\<Union>j \<in> {j \<in> set ts. to_add l j}. run_set l j)"
      by auto
    obtain r c1 where add: "toi_add_to_extent_chain True c (run_min l i) (run_max l i) = (r, c1)" by force
    have "run_set l i \<inter> entries c = {}" using Cons.prems(2) unfolding un by blast
    then have c1: "r = 0" "wf_chain c1" "entries c1 = entries c \<union> run_set l i"
      using add_entries [OF Cons.prems(1) _ _ add] assms(2) True by (auto simp: wf_runs_def run_set_def)
    have "run_set l i \<inter> run_set l j = {}" if "to_add l j" "j \<noteq> i" for j
      using that True assms(2) by (metis disjoint_iff wf_runs_def)
    then have "entries c1 \<inter> (\<Union>j \<in> {j \<in> set ts. to_add l j}. run_set l j) = {}"
      using Cons.prems(2,3) unfolding un c1(3) by fastforce
    from Cons.IH [OF c1(2) this, of "Suc n"] Cons.prems(3) obtain c' n' where
      "add_runs free_page got ign ts l c1 (Suc n) k = Some (l, c', n', k)" "wf_chain c'"
      "entries c' = entries c1 \<union> (\<Union>j \<in> {j \<in> set ts. to_add l j}. run_set l j)" by auto
    moreover from this(3) have "entries c' = entries c \<union> (\<Union>j \<in> {j \<in> set (i # ts). to_add l j}. run_set l j)"
      unfolding un c1(3) by (simp only: Un_assoc)
    moreover have "got n" using assms(5) by simp
    ultimately show ?thesis using True add c1(1) by (intro exI [of _ c'] exI [of _ n']) simp
  qed
qed simp

context swap_space
begin

lemma free_entries_total:
  assumes "valid k" and "distinct vs" and "\<forall>v \<in> set vs. count k v = 1"
  shows "\<exists>k'. free_entries free_page vs k = Some k' \<and> valid k' \<and> layout k' = layout k \<and>
    count k' = (\<lambda>v. if v \<in> set vs then 0 else count k v)"
  using assms
proof (induction vs arbitrary: k)
  case (Cons v vs)
  obtain k1 where k1: "free_page v k = Some k1" "valid k1" "layout k1 = layout k" "count k1 = (count k)(v := 0)"
    using free_law [OF Cons.prems(1), of v] Cons.prems(3) by auto
  then have "\<forall>w \<in> set vs. count k1 w = 1" using Cons.prems(2,3) by auto
  from Cons.IH [OF k1(2) _ this] Cons.prems(2) k1 show ?case by (auto simp: fun_eq_iff)
qed simp

end

section \<open>The swap allocator's storage\<close>

text \<open>
  What the allocator holds is in use once, and everything else is as \<open>base\<close> says, where the
  allocator's entries are free.
\<close>

definition swap_held :: "(ulong \<Rightarrow> nat) \<Rightarrow> swap_state \<Rightarrow> bool" where
  "swap_held base st \<longleftrightarrow> wf_swap (kswap st) \<and> wf_chain (swapextents st) \<and> (\<forall>v \<in> entries (swapextents st). base v = 0) \<and>
     swap_count (kswap st) = (\<lambda>v. if v \<in> entries (swapextents st) then 1 else base v)"

lemma take_swap_total:
  assumes "swap_held base st" and "\<forall>n. env_ok (bio st) n"
  shows "\<exists>got st'. take_swap wanted st = Some (got, st') \<and> swap_held base st' \<and>
    areas (kswap st') = areas (kswap st) \<and> entries (swapextents st) \<subseteq> entries (swapextents st') \<and>
    got = counted (\<lambda>i. ignored (devinfo (bio st) ! i)) (entries (swapextents st')) -
      counted (\<lambda>i. ignored (devinfo (bio st) ! i)) (entries (swapextents st)) \<and>
    st' = st\<lparr>swapextents := swapextents st', kswap := kswap st', bio := (bio st)\<lparr>env_n := env_n (bio st')\<rparr>\<rparr>"
proof -
  let ?ign = "\<lambda>i. ignored (devinfo (bio st) ! i)"
  let ?l0 = "\<lparr>to_add = (\<lambda>_. False), run_min = (\<lambda>_. 0), run_max = (\<lambda>_. 0), gotten = 0\<rparr>"
  let ?E = "entries (swapextents st)"
  have "take_inv wf_swap swap_count ?ign ?E base ?l0 (swapextents st) (kswap st)"
    using assms(1) by (auto simp: take_inv_def swap_held_def wf_runs_def runs_def)
  from swap_map.alloc_loop_total [OF this assms(2), of wanted "env_n (bio st)"] obtain l c n k where
    loop: "alloc_loop get_swap_page swap_free (env_ok (bio st)) ?ign wanted ?l0 (swapextents st) (env_n (bio st)) (kswap st) = Some (l, c, n, k)"
    and inv: "take_inv wf_swap swap_count ?ign ?E base l c k" and lay: "areas k = areas (kswap st)" by blast
  note wf = take_inv_wf [OF inv]
  have all: "(\<Union>i \<in> {i \<in> set [0 ..< 32]. to_add l i}. run_set l i) = runs l"
  proof -
    have "i < 32" if "to_add l i" for i
    proof -
      from that wf(3) have "run_min l i \<in> run_set l i" by (simp add: wf_runs_def run_set_def)
      with that wf(3) have "swp_type (run_min l i) = i" by (auto simp: wf_runs_def)
      with swp_type_less [of "run_min l i"] show ?thesis by simp
    qed
    then have "{i \<in> set [0 ..< 32]. to_add l i} = {i. to_add l i}" by auto
    then show ?thesis by (simp only: runs_def)
  qed
  obtain c1 n1 where add: "add_runs swap_free (env_ok (bio st)) ?ign [0 ..< 32] l c n k = Some (l, c1, n1, k)"
    "wf_chain c1" "entries c1 = entries c \<union> runs l"
    using add_runs_total [OF wf(2,3), where got = "env_ok (bio st)" and ts = "[0 ..< 32]" and free_page = swap_free and ign = ?ign and n = n and k = k]
      assms(2) wf(4) unfolding all by auto
  let ?st' = "st\<lparr>swapextents := c1, kswap := k, bio := (bio st)\<lparr>env_n := n1\<rparr>\<rparr>"
  have "take_swap wanted st = Some (gotten l, ?st')" by (simp add: take_swap_def loop add(1))
  moreover have "swap_held base ?st'" using inv add assms(1) by (auto simp: swap_held_def take_inv_def)
  ultimately show ?thesis using lay inv add(3) by (auto simp: take_inv_def)
qed

text \<open>The entries as the loop of \<open>toi_swap_release_storage\<close> sees them.\<close>

lemma for_each_entries:
  assumes "wf_chain c"
  shows "set (toi_extent_for_each c) = entries c" and "distinct (toi_extent_for_each c)"
proof -
  have vals: "map unat (toi_extent_for_each c) = ext_list (extents c) \<and> sorted_wrt (<) (ext_list (extents c))"
  proof (cases "extents c")
    case (Cons e es)
    with assms have wf: "wf_extents (e # es)" by (simp add: wf_chain_def)
    then have "ext_start e \<le> ext_end e" by (simp add: wf_extents_Cons)
    from for_each_from_eq [OF wf this] wf_extents_sorted [OF wf] Cons show ?thesis
      by (simp add: toi_extent_for_each_def ext_vals_def)
  qed (simp add: toi_extent_for_each_def)
  then show "distinct (toi_extent_for_each c)"
    by (metis distinct_map strict_sorted_iff)
  have "unat v \<in> set (ext_list (extents c)) \<longleftrightarrow> v \<in> set (toi_extent_for_each c)" for v
    using vals by (metis (no_types, lifting) image_iff list.set_map word_unat_eq_iff)
  then show "set (toi_extent_for_each c) = entries c" by (auto simp: entries_def)
qed

lemma put_extent_chain_empty:
  "wf_chain (toi_put_extent_chain c)" "extents (toi_put_extent_chain c) = []" if "wf_chain c"
  using that by (auto simp: toi_put_extent_chain_def wf_chain_def)

lemma release_storage_total:
  assumes "swap_held base st"
  shows "\<exists>st'. toi_swap_release_storage st = Some (0, st') \<and> swap_held base st' \<and> swap_count (kswap st') = base \<and>
    extents (swapextents st') = [] \<and> swap_pages_allocated st' = 0 \<and> header_pages_reserved st' = 0"
proof -
  let ?c = "swapextents st"
  have held: "wf_swap (kswap st)" "wf_chain ?c" "\<forall>v \<in> entries ?c. base v = 0"
    "swap_count (kswap st) = (\<lambda>v. if v \<in> entries ?c then 1 else base v)"
    using assms by (auto simp: swap_held_def)
  show ?thesis
  proof (cases "extents ?c = []")
    case True
    then have "entries ?c = {}" by (simp add: entries_def)
    with True held show ?thesis by (simp add: toi_swap_release_storage_def swap_held_def)
  next
    case False
    note each = for_each_entries [OF held(2)]
    obtain k where k: "free_entries swap_free (toi_extent_for_each ?c) (kswap st) = Some k" "wf_swap k"
      "swap_count k = (\<lambda>v. if v \<in> entries ?c then 0 else swap_count (kswap st) v)"
      using swap_map.free_entries_total [OF held(1) each(2)] held(4) unfolding each(1) by auto
    have "swap_count k = base" using k(3) held(3,4) by (auto simp: fun_eq_iff)
    moreover have "entries (toi_put_extent_chain ?c) = {}"
      using put_extent_chain_empty [OF held(2)] by (simp add: entries_def)
    ultimately show ?thesis
      using False k put_extent_chain_empty [OF held(2)]
      by (simp add: toi_swap_release_storage_def swap_held_def free_block_chains_def set_block_chain_def block_chain_def)
  qed
qed

end
