(* ===== verification/TOI_Swap_Blocks.thy ===== *)
theory TOI_Swap_Blocks
  imports TOI_Swap_Storage TOI_Block_Safety
begin

text \<open>
  The block chains of the swap allocator: \<open>get_main_pool_phys_params\<close> translates the swap entries
  that are held into the blocks of their areas.
\<close>

section \<open>The blocks of an area\<close>

definition block_of :: "swap_info_struct \<Rightarrow> nat \<Rightarrow> nat" where
  "block_of si i = (case find (\<lambda>se. in_extent se i) (extent_list si) of
     Some se \<Rightarrow> start_block se + (i - start_page se) | None \<Rightarrow> 0)"

text \<open>
  What turning on a swap area sets up: every page of it is in one extent, different pages have
  different blocks, and the blocks fit the \<open>int\<close>s of \<open>get_main_pool_phys_params\<close>.
\<close>

definition area_mapped :: "swap_info_struct \<Rightarrow> bool" where
  "area_mapped si \<longleftrightarrow> wf_extent_list si \<and> inj_on (block_of si) {0 ..< si_max si} \<and>
     (\<forall>i < si_max si. (\<exists>se \<in> set (extent_list si). in_extent se i) \<and> block_of si i < 2 ^ 31)"

definition swap_mapped :: "swap_kernel \<Rightarrow> bool" where
  "swap_mapped k \<longleftrightarrow> (\<forall>t < nr_swapfiles k. SWP_USED \<in> flags (swap_info k ! t) \<longrightarrow> area_mapped (swap_info k ! t))"

lemma map_swap_page_block:
  assumes "area_mapped si" and "i < si_max si"
  shows "\<exists>j. map_swap_page si i = Some (block_of si i, si\<lparr>curr_swap_extent := j\<rparr>) \<and> wf_extent_list (si\<lparr>curr_swap_extent := j\<rparr>)"
proof -
  obtain se where se: "se \<in> set (extent_list si)" "in_extent se i" using assms by (auto simp: area_mapped_def)
  then obtain se' where f: "find (\<lambda>se. in_extent se i) (extent_list si) = Some se'"
    by (cases "find (\<lambda>se. in_extent se i) (extent_list si)") (auto simp: find_None_iff)
  then have se': "se' \<in> set (extent_list si)" "in_extent se' i" by (auto simp: find_Some_iff)
  have "wf_extent_list si" using assms(1) by (simp add: area_mapped_def)
  from map_swap_page_spec [OF this se'] f show ?thesis by (simp add: block_of_def)
qed

text \<open>Looking up blocks changes nothing but the cached extents.\<close>

definition moved :: "swap_kernel \<Rightarrow> swap_kernel \<Rightarrow> bool" where
  "moved k k' \<longleftrightarrow> k' = k\<lparr>swap_info := swap_info k'\<rparr> \<and> length (swap_info k') = length (swap_info k) \<and>
     (\<forall>t < length (swap_info k). \<exists>j. swap_info k' ! t = (swap_info k ! t)\<lparr>curr_swap_extent := j\<rparr>)"

lemma block_of_cursor [simp]: "block_of (si\<lparr>curr_swap_extent := j\<rparr>) = block_of si"
  by (simp add: block_of_def fun_eq_iff)

lemma moved_refl: "moved k k"
proof -
  have "\<exists>j. si = si\<lparr>curr_swap_extent := j\<rparr>" for si :: swap_info_struct
    by (rule exI [of _ "curr_swap_extent si"]) simp
  then show ?thesis by (simp add: moved_def)
qed

lemma moved_fields:
  assumes "moved k k'" and "t < length (swap_info k)"
  shows "flags (swap_info k' ! t) = flags (swap_info k ! t)" "next_type (swap_info k' ! t) = next_type (swap_info k ! t)"
    "si_max (swap_info k' ! t) = si_max (swap_info k ! t)" "swap_map (swap_info k' ! t) = swap_map (swap_info k ! t)"
    "block_of (swap_info k' ! t) = block_of (swap_info k ! t)" "wf_area (swap_info k' ! t) = wf_area (swap_info k ! t)"
    "extent_list (swap_info k' ! t) = extent_list (swap_info k ! t)" "bdev_of (swap_info k' ! t) = bdev_of (swap_info k ! t)"
proof -
  obtain j where j: "swap_info k' ! t = (swap_info k ! t)\<lparr>curr_swap_extent := j\<rparr>"
    using assms unfolding moved_def by blast
  show "flags (swap_info k' ! t) = flags (swap_info k ! t)" "next_type (swap_info k' ! t) = next_type (swap_info k ! t)"
    "si_max (swap_info k' ! t) = si_max (swap_info k ! t)" "swap_map (swap_info k' ! t) = swap_map (swap_info k ! t)"
    "block_of (swap_info k' ! t) = block_of (swap_info k ! t)" "wf_area (swap_info k' ! t) = wf_area (swap_info k ! t)"
    "extent_list (swap_info k' ! t) = extent_list (swap_info k ! t)" "bdev_of (swap_info k' ! t) = bdev_of (swap_info k ! t)"
    by (simp_all add: j wf_area_def free_slots_def used_slots_def)
qed

lemma moved_kernel:
  assumes "moved k k'"
  shows "nr_swapfiles k' = nr_swapfiles k" "swap_list_head k' = swap_list_head k" "swap_list_next k' = swap_list_next k"
    "length (swap_info k') = length (swap_info k)"
proof -
  have eq: "k' = k\<lparr>swap_info := swap_info k'\<rparr>" using assms by (simp add: moved_def)
  show "nr_swapfiles k' = nr_swapfiles k" by (subst eq) simp
  show "swap_list_head k' = swap_list_head k" by (subst eq) simp
  show "swap_list_next k' = swap_list_next k" by (subst eq) simp
  show "length (swap_info k') = length (swap_info k)" using assms by (simp add: moved_def)
qed

lemma moved_update:
  assumes "moved k k'" and "t < length (swap_info k)"
  shows "moved k (k'\<lparr>swap_info := (swap_info k')[t := (swap_info k' ! t)\<lparr>curr_swap_extent := j\<rparr>]\<rparr>)"
  unfolding moved_def
proof (intro conjI allI impI)
  have eq: "k' = k\<lparr>swap_info := swap_info k'\<rparr>" using assms(1) by (simp add: moved_def)
  show "k'\<lparr>swap_info := (swap_info k')[t := (swap_info k' ! t)\<lparr>curr_swap_extent := j\<rparr>]\<rparr> =
    k\<lparr>swap_info := swap_info (k'\<lparr>swap_info := (swap_info k')[t := (swap_info k' ! t)\<lparr>curr_swap_extent := j\<rparr>]\<rparr>)\<rparr>"
    by (subst eq) simp
  show "length (swap_info (k'\<lparr>swap_info := (swap_info k')[t := (swap_info k' ! t)\<lparr>curr_swap_extent := j\<rparr>]\<rparr>)) = length (swap_info k)"
    using assms(1) by (simp add: moved_def)
  fix u assume u: "u < length (swap_info k)"
  then obtain i where "swap_info k' ! u = (swap_info k ! u)\<lparr>curr_swap_extent := i\<rparr>"
    using assms(1) unfolding moved_def by blast
  moreover have "length (swap_info k') = length (swap_info k)" using assms(1) by (simp add: moved_def)
  ultimately show "\<exists>i. swap_info (k'\<lparr>swap_info := (swap_info k')[t := (swap_info k' ! t)\<lparr>curr_swap_extent := j\<rparr>]\<rparr>) ! u =
      (swap_info k ! u)\<lparr>curr_swap_extent := i\<rparr>"
    using u assms(2) by (cases "u = t") auto
qed

lemma linked_moved:
  assumes "moved k k'"
  shows "set ts \<subseteq> {..< length (swap_info k)} \<Longrightarrow> linked (swap_info k') h ts = linked (swap_info k) h ts"
  by (induction ts arbitrary: h) (simp_all add: moved_fields(2) [OF assms])

lemma moved_wf:
  assumes "moved k k'" and "wf_swap k"
  shows "wf_swap k'"
proof -
  note eq = moved_kernel [OF assms(1)]
  have len: "length (swap_info k) = MAX_SWAPFILES" "nr_swapfiles k \<le> MAX_SWAPFILES" using assms(2) by (simp_all add: wf_swap_def)
  obtain ts where ts: "linked (swap_info k) (swap_list_head k) ts"
    "set ts = {t. t < nr_swapfiles k \<and> SWP_USED \<in> flags (swap_info k ! t)}"
    "if ts = [] then swap_list_next k < 0 else swap_list_next k \<in> int ` set ts"
    using assms(2) unfolding wf_swap_def by blast
  have used: "SWP_USED \<in> flags (swap_info k' ! t) \<longleftrightarrow> SWP_USED \<in> flags (swap_info k ! t)" if "t < nr_swapfiles k" for t
    using moved_fields(1) [OF assms(1), of t] that len by simp
  have "set ts \<subseteq> {..< length (swap_info k)}" unfolding ts(2) len(1) using len(2) by auto
  then have "linked (swap_info k') (swap_list_head k') ts" using linked_moved [OF assms(1)] ts(1) eq(2) by simp
  moreover have "set ts = {t. t < nr_swapfiles k' \<and> SWP_USED \<in> flags (swap_info k' ! t)}" using ts(2) eq(1) used by auto
  moreover have "if ts = [] then swap_list_next k' < 0 else swap_list_next k' \<in> int ` set ts" using ts(3) eq(3) by simp
  ultimately have "\<exists>ts. linked (swap_info k') (swap_list_head k') ts \<and>
      set ts = {t. t < nr_swapfiles k' \<and> SWP_USED \<in> flags (swap_info k' ! t)} \<and>
      (if ts = [] then swap_list_next k' < 0 else swap_list_next k' \<in> int ` set ts)" by blast
  moreover have "wf_area (swap_info k' ! t)" if "t < nr_swapfiles k'" "SWP_USED \<in> flags (swap_info k' ! t)" for t
  proof -
    have t: "t < nr_swapfiles k" "SWP_USED \<in> flags (swap_info k ! t)" using that used [of t] eq(1) by simp_all
    moreover have "\<forall>t < nr_swapfiles k. SWP_USED \<in> flags (swap_info k ! t) \<longrightarrow> wf_area (swap_info k ! t)"
      using assms(2) unfolding wf_swap_def by blast
    ultimately show ?thesis using moved_fields(6) [OF assms(1), of t] len by simp
  qed
  ultimately show ?thesis unfolding wf_swap_def using eq(1,4) len by simp
qed

lemma moved_count:
  assumes "moved k k'" and "wf_swap k"
  shows "swap_count k' = swap_count k"
proof
  fix v
  have "swp_type v < length (swap_info k)" using assms(2) swp_type_less [of v] by (simp add: wf_swap_def)
  note f = moved_fields [OF assms(1) this]
  have "swap_info_get v k' = swap_info_get v k"
    by (simp add: swap_info_get_def Let_def f moved_kernel [OF assms(1)])
  moreover have "swap_info_get v k = Some t \<Longrightarrow> t = swp_type v" for t
    by (auto simp: swap_info_get_def Let_def split: if_splits)
  ultimately show "swap_count k' v = swap_count k v" using f by (auto simp: swap_count_def split: option.splits)
qed

text \<open>An entry in use is a page of an area.\<close>

lemma counted_page:
  assumes "swap_count k v \<noteq> 0"
  shows "swp_type v < nr_swapfiles k" "SWP_USED \<in> flags (swap_info k ! swp_type v)" "swp_offset v < si_max (swap_info k ! swp_type v)"
  using assms by (auto simp: swap_count_def swap_info_get_def Let_def split: if_splits)

section \<open>Building the chains\<close>

definition chain_set :: "hibernate_extent_chain list \<Rightarrow> nat \<Rightarrow> nat set" where
  "chain_set cs t = set (ext_list (extents (cs ! t)))"

text \<open>What the loop changes in the state.\<close>

definition with_chains :: "hibernate_extent_chain list \<Rightarrow> nat \<Rightarrow> swap_kernel \<Rightarrow> swap_state \<Rightarrow> swap_state" where
  "with_chains cs n k st = st\<lparr>kswap := k, bio := (bio st)\<lparr>env_n := n, posn := (posn (bio st))\<lparr>chains := cs\<rparr>\<rparr>\<rparr>"

lemma with_chains_simps [simp]:
  "kswap (with_chains cs n k st) = k" "block_chain (with_chains cs n k st) = cs" "swapextents (with_chains cs n k st) = swapextents st"
  "devinfo (bio (with_chains cs n k st)) = devinfo (bio st)" "(with_chains cs n k st)\<lparr>kswap := k'\<rparr> = with_chains cs n k' st"
  "set_block_chain cs' (with_chains cs n k st) = with_chains cs' n k st" "env_ok (bio (with_chains cs n k st)) = env_ok (bio st)"
  by (simp_all add: with_chains_def block_chain_def set_block_chain_def)

lemma ask_with_chains [simp]: "ask (with_chains cs n k st) = (env_ok (bio st) n, with_chains cs (Suc n) k st)"
  by (simp add: ask_def consult_def with_chains_def)

lemma with_chains_self: "with_chains (block_chain st) (env_n (bio st)) (kswap st) st = st"
  by (simp add: with_chains_def block_chain_def)

lemma add_blocks_total:
  assumes "t < length cs" and "list_all wf_chain cs" and "0 \<le> a" and "a \<le> b" and "b < 2 ^ 31"
    and "{nat a .. nat b} \<inter> chain_set cs t = {}" and "\<forall>n. env_ok (bio st) n"
  shows "\<exists>cs'. add_blocks_to_extent_chain t a b (with_chains cs n k st) = (0, with_chains cs' (Suc n) k st) \<and>
    length cs' = length cs \<and> list_all wf_chain cs' \<and>
    chain_set cs' = (chain_set cs)(t := chain_set cs t \<union> {nat a .. nat b})"
proof -
  obtain r c where add: "toi_add_to_extent_chain True (cs ! t) (of_int a) (of_int b) = (r, c)" by force
  have r: "r = 0" using add_to_extent_chain_ret [of True "cs ! t" "of_int a" "of_int b"] add by simp
  have u: "unat (of_int a :: ulong) = nat a" "unat (of_int b :: ulong) = nat b"
    using assms(3-5) by (simp_all add: unat_eq_nat_uint uint_word_of_int)
  then have le: "(of_int a :: ulong) \<le> of_int b" using assms(4) by (simp add: word_le_nat_alt)
  have dis: "{unat (of_int a :: ulong) .. unat (of_int b :: ulong)} \<inter> set (ext_list (extents (cs ! t))) = {}"
    using assms(6) unfolding u chain_set_def .
  have wf: "wf_chain (cs ! t)" using assms(1,2) by (simp add: list_all_length)
  note add0 = add [unfolded r]
  note c = add_to_extent_chain_wf [OF wf le dis add0] add_to_extent_chain_set [OF wf le dis add0]
  have "chain_set (cs[t := c]) = (chain_set cs)(t := chain_set cs t \<union> {nat a .. nat b})"
    using assms(1) c(2) by (auto simp: chain_set_def u fun_eq_iff nth_list_update)
  moreover have "list_all wf_chain (cs[t := c])" using assms(1,2) c(1) by (simp add: list_all_length nth_list_update)
  moreover have "env_ok (bio st) n" using assms(7) by simp
  ultimately show ?thesis
    using add r by (intro exI [of _ "cs[t := c]"]) (simp add: add_blocks_to_extent_chain_def Let_def)
qed

text \<open>The run that is not yet in a chain.\<close>

definition pend :: "run_vars \<Rightarrow> nat \<Rightarrow> nat set" where
  "pend v t = (if extent_min v > -1 \<and> last_chain v = int t then {nat (extent_min v) .. nat (extent_max v)} else {})"

definition wf_run :: "run_vars \<Rightarrow> bool" where
  "wf_run v \<longleftrightarrow> v = \<lparr>extent_min = -1, extent_max = -1, last_chain = -1\<rparr> \<or>
     0 \<le> extent_min v \<and> extent_min v \<le> extent_max v \<and> extent_max v < 2 ^ 31 \<and> 0 \<le> last_chain v \<and> last_chain v < 32"

text \<open>The blocks of the entries in \<open>D\<close> that are on area \<open>t\<close>.\<close>

definition want :: "swap_state \<Rightarrow> ulong set \<Rightarrow> nat \<Rightarrow> nat set" where
  "want st D t = (\<lambda>v. block_of (get_swap_info_struct st t) (swp_offset v)) ` {v \<in> D. swp_type v = t \<and> \<not> ignored (devinfo (bio st) ! t)}"

definition run_inv :: "swap_state \<Rightarrow> ulong set \<Rightarrow> run_vars \<Rightarrow> hibernate_extent_chain list \<Rightarrow> swap_kernel \<Rightarrow> bool" where
  "run_inv st D v cs k \<longleftrightarrow> moved (kswap st) k \<and> length cs = 32 \<and> list_all wf_chain cs \<and> wf_run v \<and> swap_mapped k \<and>
     (\<forall>t < 32. chain_set cs t \<union> pend v t = want st D t \<and> chain_set cs t \<inter> pend v t = {})"

lemma flush_run_total:
  assumes "run_inv st D v cs k" and "\<forall>n. env_ok (bio st) n"
  shows "\<exists>cs' n'. flush_run v (with_chains cs n k st) = (0, with_chains cs' n' k st) \<and> length cs' = 32 \<and>
    list_all wf_chain cs' \<and> (\<forall>t < 32. chain_set cs' t = want st D t)"
proof -
  have inv: "length cs = 32" "list_all wf_chain cs" "wf_run v"
    and sets: "\<And>t. t < 32 \<Longrightarrow> chain_set cs t \<union> pend v t = want st D t \<and> chain_set cs t \<inter> pend v t = {}"
    using assms(1) by (auto simp: run_inv_def)
  show ?thesis
  proof (cases "extent_min v > -1")
    case False
    then have "\<forall>t < 32. chain_set cs t = want st D t" using sets by (simp add: pend_def)
    with False inv show ?thesis by (auto simp: flush_run_def)
  next
    case True
    with inv(3) have v: "0 \<le> extent_min v" "extent_min v \<le> extent_max v" "extent_max v < 2 ^ 31" "0 \<le> last_chain v" "last_chain v < 32"
      by (auto simp: wf_run_def)
    define u where "u = nat (last_chain v)"
    have u: "u < 32" "last_chain v = int u" using v(4,5) by (simp_all add: u_def)
    have p: "pend v = (\<lambda>t. if t = u then {nat (extent_min v) .. nat (extent_max v)} else {})"
      using True u(2) by (auto simp: pend_def fun_eq_iff)
    have "{nat (extent_min v) .. nat (extent_max v)} \<inter> chain_set cs u = {}" using sets [OF u(1)] p by auto
    from add_blocks_total [OF _ inv(2) v(1-3) this assms(2), of n k] inv(1) u(1) obtain cs' where
      add: "add_blocks_to_extent_chain u (extent_min v) (extent_max v) (with_chains cs n k st) = (0, with_chains cs' (Suc n) k st)"
      "length cs' = 32" "list_all wf_chain cs'" "chain_set cs' = (chain_set cs)(u := chain_set cs u \<union> {nat (extent_min v) .. nat (extent_max v)})"
      by auto
    moreover have "chain_set cs' t = want st D t" if "t < 32" for t
      using sets [OF that] unfolding add(4) p by auto
    ultimately show ?thesis using True by (auto simp: flush_run_def u_def)
  qed
qed

lemma entry_eqI: "swp_type a = swp_type b \<Longrightarrow> swp_offset a = swp_offset b \<Longrightarrow> a = b"
  by (metis div_mult_mod_eq swp_offset_div swp_type_div word_unat_eq_iff)

lemma swap_mapped_update:
  assumes "swap_mapped k" and "wf_extent_list ((swap_info k ! t)\<lparr>curr_swap_extent := j\<rparr>)"
  shows "swap_mapped (k\<lparr>swap_info := (swap_info k)[t := (swap_info k ! t)\<lparr>curr_swap_extent := j\<rparr>]\<rparr>)"
  unfolding swap_mapped_def
proof (intro allI impI)
  let ?k = "k\<lparr>swap_info := (swap_info k)[t := (swap_info k ! t)\<lparr>curr_swap_extent := j\<rparr>]\<rparr>"
  fix u assume u: "u < nr_swapfiles ?k" "SWP_USED \<in> flags (swap_info ?k ! u)"
  show "area_mapped (swap_info ?k ! u)"
  proof (cases "u = t \<and> t < length (swap_info k)")
    case True
    with u have "area_mapped (swap_info k ! t)" using assms(1) by (simp add: swap_mapped_def)
    with True assms(2) show ?thesis by (simp add: area_mapped_def)
  next
    case False
    then have "swap_info ?k ! u = swap_info k ! u" by (auto simp: nth_list_update_neq list_update_beyond)
    with u assms(1) show ?thesis by (simp add: swap_mapped_def)
  qed
qed

lemma want_insert:
  "want st (insert a D) t = (if swp_type a = t \<and> \<not> ignored (devinfo (bio st) ! t)
     then insert (block_of (get_swap_info_struct st t) (swp_offset a)) (want st D t) else want st D t)"
  by (auto simp: want_def)

lemma want_new:
  assumes "a \<notin> D" and "\<forall>v \<in> insert a D. swap_count (kswap st) v \<noteq> 0" and "swap_mapped (kswap st)"
  shows "block_of (get_swap_info_struct st (swp_type a)) (swp_offset a) \<notin> want st D (swp_type a)"
proof
  let ?si = "get_swap_info_struct st (swp_type a)"
  assume "block_of ?si (swp_offset a) \<in> want st D (swp_type a)"
  then obtain v where v: "v \<in> D" "swp_type v = swp_type a" "block_of ?si (swp_offset a) = block_of ?si (swp_offset v)"
    by (auto simp: want_def)
  note pa = counted_page [of "kswap st" a] and pv = counted_page [of "kswap st" v]
  have "inj_on (block_of ?si) {0 ..< si_max ?si}" "swp_offset a < si_max ?si" "swp_offset v < si_max ?si"
    using assms(2,3) v(1,2) pa pv by (auto simp: swap_mapped_def area_mapped_def get_swap_info_struct_def)
  then have "swp_offset a = swp_offset v" using v(3) by (auto dest: inj_onD)
  with entry_eqI [of a v] v(1,2) assms(1) show False by simp
qed

lemma lookup_step:
  assumes "run_inv st D v cs k" and "swap_count (kswap st) a \<noteq> 0" and "wf_swap (kswap st)"
  shows "\<exists>k'. map_swap_page (swap_info k ! swp_type a) (swp_offset a) =
      Some (block_of (get_swap_info_struct st (swp_type a)) (swp_offset a), swap_info k' ! swp_type a) \<and>
    k' = k\<lparr>swap_info := (swap_info k)[swp_type a := swap_info k' ! swp_type a]\<rparr> \<and> run_inv st D v cs k' \<and>
    block_of (get_swap_info_struct st (swp_type a)) (swp_offset a) < 2 ^ 31"
proof -
  let ?t = "swp_type a" and ?i = "swp_offset a"
  have inv: "moved (kswap st) k" "swap_mapped k" using assms(1) by (auto simp: run_inv_def)
  have len: "?t < length (swap_info (kswap st))" using assms(3) swp_type_less [of a] by (simp add: wf_swap_def)
  note f = moved_fields [OF inv(1) len] and page = counted_page [OF assms(2)] and kern = moved_kernel [OF inv(1)]
  have ar: "area_mapped (swap_info k ! ?t)" "?i < si_max (swap_info k ! ?t)"
    using inv(2) page f kern by (auto simp: swap_mapped_def)
  from map_swap_page_block [OF this] f(5) obtain j where
    j: "map_swap_page (swap_info k ! ?t) ?i = Some (block_of (swap_info (kswap st) ! ?t) ?i, (swap_info k ! ?t)\<lparr>curr_swap_extent := j\<rparr>)"
    "wf_extent_list ((swap_info k ! ?t)\<lparr>curr_swap_extent := j\<rparr>)" by auto
  let ?k = "k\<lparr>swap_info := (swap_info k)[?t := (swap_info k ! ?t)\<lparr>curr_swap_extent := j\<rparr>]\<rparr>"
  have nth: "swap_info ?k ! ?t = (swap_info k ! ?t)\<lparr>curr_swap_extent := j\<rparr>" using len kern by simp
  moreover have "run_inv st D v cs ?k"
    using assms(1) moved_update [OF inv(1) len] swap_mapped_update [OF inv(2) j(2)] by (simp add: run_inv_def)
  moreover have "block_of (swap_info (kswap st) ! ?t) ?i < 2 ^ 31" using ar f(5) by (simp add: area_mapped_def)
  ultimately show ?thesis
    using j(1) by (intro exI [of _ ?k]) (simp add: get_swap_info_struct_def)
qed

text \<open>The three ways an entry is treated.\<close>

lemma run_inv_ignored:
  "run_inv st D v cs k \<Longrightarrow> ignored (devinfo (bio st) ! swp_type a) \<Longrightarrow> run_inv st (insert a D) v cs k"
  by (auto simp: run_inv_def want_insert)

lemma uint_of_int_small: "0 \<le> x \<Longrightarrow> x < 2 ^ 64 \<Longrightarrow> uint (of_int x :: ulong) = x"
  by (simp add: uint_word_of_int)

lemma run_inv_grow:
  assumes "run_inv st D v cs k" and "last_chain v = int (swp_type a)" and "\<not> ignored (devinfo (bio st) ! swp_type a)"
    and "b = block_of (get_swap_info_struct st (swp_type a)) (swp_offset a)" and "b < 2 ^ 31"
    and "b \<notin> want st D (swp_type a)" and "(of_nat b :: ulong) = of_int (s32 (extent_max v + 1))"
  shows "run_inv st (insert a D) (v\<lparr>extent_max := s32 (extent_max v + 1)\<rparr>) cs k"
proof -
  let ?t = "swp_type a" and ?v = "v\<lparr>extent_max := s32 (extent_max v + 1)\<rparr>"
  have "wf_run v" using assms(1) by (simp add: run_inv_def)
  with assms(2) have v: "0 \<le> extent_min v" "extent_min v \<le> extent_max v" "extent_max v < 2 ^ 31" "0 \<le> last_chain v" "last_chain v < 32"
    by (auto simp: wf_run_def)
  have b: "uint (of_nat b :: ulong) = int b" using assms(5) by (simp add: uint_nat unat_of_nat)
  have "extent_max v + 1 \<noteq> 2 ^ 31"
  proof
    assume "extent_max v + 1 = 2 ^ 31"
    then have "(of_nat b :: ulong) = of_int (- (2 ^ 31))" using assms(7) by (simp add: s32_def)
    with b assms(5) show False by simp
  qed
  with v have s: "s32 (extent_max v + 1) = extent_max v + 1" by (simp add: s32_def)
  then have "uint (of_nat b :: ulong) = extent_max v + 1" unfolding assms(7) s using v by (intro uint_of_int_small) simp_all
  with b have eq: "int b = extent_max v + 1" by simp
  have p: "pend ?v ?t = insert b (pend v ?t)" "\<And>u. u \<noteq> ?t \<Longrightarrow> pend ?v u = pend v u"
    using v eq assms(2) s by (auto simp: pend_def)
  have "wf_run ?v" using v eq s assms(5) by (auto simp: wf_run_def)
  moreover have "chain_set cs u \<union> pend ?v u = want st (insert a D) u \<and> chain_set cs u \<inter> pend ?v u = {}" if "u < 32" for u
  proof -
    have "chain_set cs u \<union> pend v u = want st D u \<and> chain_set cs u \<inter> pend v u = {}" using assms(1) that by (simp add: run_inv_def)
    then show ?thesis using p assms(3,4,6) by (cases "u = ?t") (auto simp: want_insert)
  qed
  ultimately show ?thesis using assms(1) by (simp add: run_inv_def)
qed

lemma run_inv_start:
  assumes "run_inv st D v cs0 k" and "length cs = 32" and "list_all wf_chain cs" and "\<forall>t < 32. chain_set cs t = want st D t"
    and "\<not> ignored (devinfo (bio st) ! swp_type a)"
    and "b = block_of (get_swap_info_struct st (swp_type a)) (swp_offset a)" and "b < 2 ^ 31" and "b \<notin> want st D (swp_type a)"
  shows "run_inv st (insert a D) \<lparr>extent_min = s32 (int b), extent_max = s32 (int b), last_chain = int (swp_type a)\<rparr> cs k"
proof -
  let ?v = "\<lparr>extent_min = s32 (int b), extent_max = s32 (int b), last_chain = int (swp_type a)\<rparr>"
  have s: "s32 (int b) = int b" using assms(7) by (simp add: s32_def)
  have p: "pend ?v = (\<lambda>u. if u = swp_type a then {b} else {})" by (auto simp: pend_def s fun_eq_iff)
  have "wf_run ?v" using assms(7) swp_type_less [of a] by (simp add: wf_run_def s)
  moreover have "chain_set cs u \<union> pend ?v u = want st (insert a D) u \<and> chain_set cs u \<inter> pend ?v u = {}" if "u < 32" for u
  proof -
    have "chain_set cs u = want st D u" using assms(4) that by simp
    then show ?thesis unfolding p want_insert using assms(5,8) unfolding assms(6) by auto
  qed
  ultimately show ?thesis using assms(1-3) by (simp add: run_inv_def)
qed

lemma phys_params_step:
  assumes inv: "run_inv st D v cs k" and new: "a \<notin> D" and cnt: "\<forall>v \<in> insert a D. swap_count (kswap st) v \<noteq> 0"
    and wf: "wf_swap (kswap st)" "swap_mapped (kswap st)" and ok: "\<forall>n. env_ok (bio st) n"
  shows "\<exists>v' cs' n' k'. phys_params_loop (a # as) v (with_chains cs n k st) = phys_params_loop as v' (with_chains cs' n' k' st) \<and>
    run_inv st (insert a D) v' cs' k'"
proof -
  let ?t = "swp_type a"
  define b where "b = block_of (get_swap_info_struct st ?t) (swp_offset a)"
  have "swap_count (kswap st) a \<noteq> 0" using cnt by simp
  from lookup_step [OF inv this wf(1)] obtain k' where k': "map_swap_page (swap_info k ! ?t) (swp_offset a) = Some (b, swap_info k' ! ?t)"
    "k' = k\<lparr>swap_info := (swap_info k)[?t := swap_info k' ! ?t]\<rparr>" "run_inv st D v cs k'" "b < 2 ^ 31" unfolding b_def by blast
  have fresh: "b \<notin> want st D ?t" unfolding b_def by (rule want_new [OF new cnt wf(2)])
  have unfold: "phys_params_loop (a # as) v (with_chains cs n k st) =
    (if ignored (devinfo (bio st) ! ?t) then phys_params_loop as v (with_chains cs n k' st)
     else if of_nat b = (of_int (s32 (extent_max v + 1)) :: ulong) \<and> last_chain v = int ?t
     then phys_params_loop as (v\<lparr>extent_max := s32 (extent_max v + 1)\<rparr>) (with_chains cs n k' st)
     else let (r, st2) = flush_run v (with_chains cs n k' st)
          in if r \<noteq> 0 then Some (r, v, st2)
             else phys_params_loop as \<lparr>extent_min = s32 (int b), extent_max = s32 (int b), last_chain = int ?t\<rparr> st2)"
    using k'(1) k'(2) [symmetric] by (simp add: get_swap_info_struct_def Let_def)
  consider "ignored (devinfo (bio st) ! ?t)"
    | "\<not> ignored (devinfo (bio st) ! ?t)" "of_nat b = (of_int (s32 (extent_max v + 1)) :: ulong)" "last_chain v = int ?t"
    | "\<not> ignored (devinfo (bio st) ! ?t)" "\<not> (of_nat b = (of_int (s32 (extent_max v + 1)) :: ulong) \<and> last_chain v = int ?t)"
    by blast
  then show ?thesis
  proof cases
    case 1
    with run_inv_ignored [OF k'(3) 1] show ?thesis unfolding unfold by auto
  next
    case 2
    from run_inv_grow [OF k'(3) 2(3,1) b_def k'(4) fresh 2(2)] 2 show ?thesis unfolding unfold by auto
  next
    case 3
    obtain cs' n' where fl: "flush_run v (with_chains cs n k' st) = (0, with_chains cs' n' k' st)" "length cs' = 32"
      "list_all wf_chain cs'" "\<forall>t < 32. chain_set cs' t = want st D t"
      using flush_run_total [OF k'(3) ok] by blast
    from run_inv_start [OF k'(3) fl(2-4) 3(1) b_def k'(4) fresh] show ?thesis
      unfolding unfold using 3 fl(1) by auto
  qed
qed

lemma phys_params_total:
  assumes "distinct as" and "run_inv st D v cs k" and "set as \<inter> D = {}" and "\<forall>v \<in> set as \<union> D. swap_count (kswap st) v \<noteq> 0"
    and wf: "wf_swap (kswap st)" "swap_mapped (kswap st)" and ok: "\<forall>n. env_ok (bio st) n"
  shows "\<exists>v' cs' n' k'. phys_params_loop as v (with_chains cs n k st) = Some (0, v', with_chains cs' n' k' st) \<and>
    run_inv st (set as \<union> D) v' cs' k'"
  using assms(1-4)
proof (induction "as" arbitrary: D v cs k n)
  case (Cons a as)
  have new: "a \<notin> D" "\<forall>v \<in> insert a D. swap_count (kswap st) v \<noteq> 0" using Cons.prems(3,4) by auto
  from phys_params_step [OF Cons.prems(2) new wf ok] obtain v1 cs1 n1 k1 where
    step: "phys_params_loop (a # as) v (with_chains cs n k st) = phys_params_loop as v1 (with_chains cs1 n1 k1 st)"
    "run_inv st (insert a D) v1 cs1 k1" by blast
  have "distinct as" "set as \<inter> insert a D = {}" "\<forall>v \<in> set as \<union> insert a D. swap_count (kswap st) v \<noteq> 0"
    using Cons.prems by auto
  from Cons.IH [OF this(1) step(2) this(2,3), of n1] step(1) show ?case by simp
qed auto

section \<open>The header reservation\<close>

lemma go_one_page_plain:
  assumes "wf_state (posn b)"
  shows "\<exists>p. go_one_page True False b = Some (if toi_extent_state_eof p then - ENODATA else 0, b\<lparr>posn := p\<rparr>) \<and>
    wf_state p \<and> chains p = chains (posn b)"
proof -
  obtain p where "next_blocks (chain_blocks_per_page b (current_chain (posn b))) (posn b) = Some p" "wf_state p" "chains p = chains (posn b)"
    using next_blocks_wf [OF assms] by blast
  then show ?thesis by (auto simp: go_one_page_def)
qed

lemma go_next_page_plain:
  assumes "wf_state (posn b)"
  shows "\<exists>r p x. go_next_page True False b = Some (r, b\<lparr>posn := p, extra_page_forward := x\<rparr>) \<and> wf_state p \<and>
    chains p = chains (posn b) \<and> (r = 0 \<longrightarrow> \<not> toi_extent_state_eof p)"
proof -
  obtain p where p: "go_one_page True False b = Some (if toi_extent_state_eof p then - ENODATA else 0, b\<lparr>posn := p\<rparr>)"
    "wf_state p" "chains p = chains (posn b)" using go_one_page_plain [OF assms] by blast
  let ?b = "b\<lparr>posn := p, extra_page_forward := False\<rparr>"
  have keep: "b\<lparr>posn := p\<rparr> = b\<lparr>posn := p, extra_page_forward := extra_page_forward b\<rparr>" by simp
  have "wf_state (posn ?b)" using p(2) by simp
  then obtain q where q: "go_one_page True False ?b = Some (if toi_extent_state_eof q then - ENODATA else 0, ?b\<lparr>posn := q\<rparr>)"
    "wf_state q" "chains q = chains (posn ?b)" using go_one_page_plain by blast
  consider "toi_extent_state_eof p" | "\<not> toi_extent_state_eof p" "extra_page_forward b" | "\<not> toi_extent_state_eof p" "\<not> extra_page_forward b"
    by blast
  then show ?thesis
  proof cases
    case 1
    with p keep show ?thesis unfolding go_next_page_def by (intro exI [of _ "- ENODATA"] exI [of _ p] exI [of _ "extra_page_forward b"]) simp
  next
    case 2
    with p q show ?thesis unfolding go_next_page_def
      by (intro exI [of _ "if toi_extent_state_eof q then - ENODATA else 0"] exI [of _ q] exI [of _ False]) simp
  next
    case 3
    with p keep show ?thesis unfolding go_next_page_def by (intro exI [of _ 0] exI [of _ p] exI [of _ "extra_page_forward b"]) simp
  qed
qed

lemma forward_pages_total:
  assumes "wf_state (posn b)" and "\<not> toi_extent_state_eof (posn b)"
  shows "\<exists>r p x. forward_pages n b = Some (r, b\<lparr>posn := p, extra_page_forward := x\<rparr>) \<and> wf_state p \<and>
    chains p = chains (posn b) \<and> (r = 0 \<longrightarrow> \<not> toi_extent_state_eof p)"
  using assms
proof (induction n arbitrary: b)
  case 0
  then show ?case by (intro exI [of _ 0] exI [of _ "posn b"] exI [of _ "extra_page_forward b"]) simp
next
  case (Suc n)
  obtain r p x where r: "go_next_page True False b = Some (r, b\<lparr>posn := p, extra_page_forward := x\<rparr>)" "wf_state p"
    "chains p = chains (posn b)" "r = 0 \<longrightarrow> \<not> toi_extent_state_eof p" using go_next_page_plain [OF Suc.prems(1)] by blast
  show ?case
  proof (cases "r = 0")
    case True
    let ?b = "b\<lparr>posn := p, extra_page_forward := x\<rparr>"
    have "wf_state (posn ?b)" "\<not> toi_extent_state_eof (posn ?b)" using r True by simp_all
    from Suc.IH [OF this] r True show ?thesis by simp
  next
    case False
    with r show ?thesis by (auto intro!: exI [of _ "- ENOSPC"] exI [of _ p] exI [of _ x])
  qed
qed

lemma apply_header_reservation_total:
  assumes "list_all wf_chain (block_chain st)"
  shows "\<exists>r b. apply_header_reservation st = Some (r, st\<lparr>bio := b\<rparr>) \<and> chains (posn b) = block_chain st \<and>
    devinfo b = devinfo (bio st) \<and> env_ok b = env_ok (bio st)"
proof -
  let ?b = "(bio st)\<lparr>posn := toi_extent_state_goto_start (posn (bio st))\<rparr>"
  have start: "wf_state (posn ?b)" "chains (posn ?b) = block_chain st" "\<not> toi_extent_state_eof (posn ?b)"
    using goto_start_wf(1,3) [of "posn (bio st)"] assms
    by (simp_all add: block_chain_def toi_extent_state_eof_def toi_extent_state_goto_start_def num_chains_def)
  obtain r p x where r: "forward_pages (nat (header_pages_reserved st)) ?b = Some (r, ?b\<lparr>posn := p, extra_page_forward := x\<rparr>)"
    "wf_state p" "chains p = block_chain st" "r = 0 \<longrightarrow> \<not> toi_extent_state_eof p"
    using forward_pages_total [OF start(1,3), of "nat (header_pages_reserved st)"] unfolding start(2) by blast
  show ?thesis
  proof (cases "r = 0")
    case False
    with r show ?thesis
      by (intro exI [of _ r] exI [of _ "?b\<lparr>posn := p, extra_page_forward := x\<rparr>"]) (simp add: apply_header_reservation_def)
  next
    case True
    with r(4) obtain saved where "toi_extent_state_save p = Some saved"
      using state_save_restore [OF r(2) _ refl] by blast
    with r True show ?thesis
      by (intro exI [of _ 0] exI [of _ "?b\<lparr>posn := p, extra_page_forward := x, posn_save := (posn_save ?b)[2 := saved]\<rparr>"])
        (simp add: apply_header_reservation_def)
  qed
qed

section \<open>Allocating storage\<close>

text \<open>The state of the allocator between two calls, and the chains in step with the entries.\<close>

definition swap_ok :: "(ulong \<Rightarrow> nat) \<Rightarrow> swap_state \<Rightarrow> bool" where
  "swap_ok base st \<longleftrightarrow> swap_held base st \<and> swap_mapped (kswap st) \<and> length (block_chain st) = 32 \<and>
     list_all wf_chain (block_chain st) \<and> length (devinfo (bio st)) = 32"

definition blocks_held :: "swap_state \<Rightarrow> bool" where
  "blocks_held st \<longleftrightarrow> (\<forall>t < 32. chain_set (block_chain st) t = want st (entries (swapextents st)) t)"

lemma swap_mapped_areas:
  assumes "areas k' = areas k" and "swap_mapped k" and "wf_swap k"
  shows "swap_mapped k'"
  unfolding swap_mapped_def
proof (intro allI impI)
  fix t assume t: "t < nr_swapfiles k'" "SWP_USED \<in> flags (swap_info k' ! t)"
  have nr: "nr_swapfiles k' = nr_swapfiles k" "length (swap_info k') = length (swap_info k)"
    using assms(1) map_eq_imp_length_eq [of area "swap_info k'" area "swap_info k"] by (simp_all add: areas_def)
  then have "t < length (swap_info k')" using t(1) assms(3) by (simp add: wf_swap_def)
  note eq = area_eqD [OF areas_nth [OF assms(1) this]]
  then have "area_mapped (swap_info k ! t)" using t nr assms(2) by (simp add: swap_mapped_def)
  moreover have "block_of (swap_info k' ! t) = block_of (swap_info k ! t)" using eq by (simp add: block_of_def fun_eq_iff)
  ultimately show "area_mapped (swap_info k' ! t)" using eq by (simp add: area_mapped_def wf_extent_list_def)
qed

lemma want_moved:
  assumes "moved (kswap st) (kswap st')" and "wf_swap (kswap st)" and "devinfo (bio st') = devinfo (bio st)" and "t < 32"
  shows "want st' D t = want st D t"
  using moved_fields(5) [OF assms(1), of t] assms(2-4) by (simp add: want_def get_swap_info_struct_def wf_swap_def)

lemma swap_held_moved:
  assumes "swap_held base st" and "moved (kswap st) (kswap st')" and "swapextents st' = swapextents st"
  shows "swap_held base st'"
  using assms moved_wf [OF assms(2)] moved_count [OF assms(2)] by (simp add: swap_held_def)

lemma free_chains_empty:
  "chain_set (map (\<lambda>c. if extents c \<noteq> [] then toi_put_extent_chain c else c) cs) t = {}" if "t < length cs"
  using that by (simp add: chain_set_def toi_put_extent_chain_def)

lemma phys_params_ok:
  assumes "swap_ok base st" and "\<forall>n. env_ok (bio st) n"
  shows "\<exists>r st'. get_main_pool_phys_params st = Some (r, st') \<and> swap_ok base st' \<and> blocks_held st' \<and>
    swapextents st' = swapextents st \<and> devinfo (bio st') = devinfo (bio st) \<and> swap_pages_allocated st' = swap_pages_allocated st"
proof -
  let ?as = "toi_extent_for_each (swapextents st)" and ?v = "\<lparr>extent_min = -1, extent_max = -1, last_chain = -1\<rparr>"
  let ?cs = "map (\<lambda>c. if extents c \<noteq> [] then toi_put_extent_chain c else c) (block_chain st)"
  have ok: "swap_held base st" "wf_swap (kswap st)" "swap_mapped (kswap st)" "wf_chain (swapextents st)" "length (block_chain st) = 32"
    "list_all wf_chain (block_chain st)" "length (devinfo (bio st)) = 32"
    using assms(1) by (auto simp: swap_ok_def swap_held_def)
  note each = for_each_entries [OF ok(4)]
  have "list_all wf_chain ?cs" using ok(6) put_extent_chain_empty(1) by (auto simp: list_all_iff)
  then have inv: "run_inv st {} ?v ?cs (kswap st)"
    using ok(3,5) by (simp add: run_inv_def moved_refl wf_run_def pend_def free_chains_empty want_def)
  have "\<forall>v \<in> set ?as \<union> {}. swap_count (kswap st) v \<noteq> 0" using ok(1) by (simp add: swap_held_def each(1))
  from phys_params_total [OF each(2) inv _ this ok(2,3) assms(2), of "env_n (bio st)"] obtain v cs n k where
    loop: "phys_params_loop ?as ?v (with_chains ?cs (env_n (bio st)) (kswap st) st) = Some (0, v, with_chains cs n k st)"
    "run_inv st (entries (swapextents st)) v cs k" using each(1) by auto
  have k: "moved (kswap st) k" "swap_mapped k" using loop(2) by (auto simp: run_inv_def)
  obtain cs' n' where fl: "flush_run v (with_chains cs n k st) = (0, with_chains cs' n' k st)" "length cs' = 32"
    "list_all wf_chain cs'" "\<forall>t < 32. chain_set cs' t = want st (entries (swapextents st)) t"
    using flush_run_total [OF loop(2) assms(2)] by blast
  let ?st = "with_chains cs' n' k st"
  obtain r b where res: "apply_header_reservation ?st = Some (r, ?st\<lparr>bio := b\<rparr>)" "chains (posn b) = cs'" "devinfo b = devinfo (bio st)"
    using apply_header_reservation_total [of ?st] fl(3) by auto
  have start: "free_block_chains st = with_chains ?cs (env_n (bio st)) (kswap st) st"
    by (simp add: free_block_chains_def set_block_chain_def with_chains_def)
  have "get_main_pool_phys_params st = Some (r, ?st\<lparr>bio := b\<rparr>)"
    using loop(1) fl(1) res(1) by (simp add: get_main_pool_phys_params_def start)
  moreover have "swap_ok base (?st\<lparr>bio := b\<rparr>)"
    using swap_held_moved [OF ok(1), of "?st\<lparr>bio := b\<rparr>"] k res(2,3) fl(2,3) ok(7) by (simp add: swap_ok_def block_chain_def)
  moreover have "blocks_held (?st\<lparr>bio := b\<rparr>)"
    unfolding blocks_held_def
  proof (intro allI impI)
    fix t :: nat assume "t < 32"
    then show "chain_set (block_chain (?st\<lparr>bio := b\<rparr>)) t = want (?st\<lparr>bio := b\<rparr>) (entries (swapextents (?st\<lparr>bio := b\<rparr>))) t"
      using want_moved [of st "?st\<lparr>bio := b\<rparr>" t] k(1) ok(2) res(2,3) fl(4) by (simp add: block_chain_def)
  qed
  ultimately show ?thesis using res(3) by (auto simp: with_chains_def)
qed

lemma set_devinfo_ok:
  assumes "swap_ok base st"
  shows "swap_ok base (set_devinfo st)"
  using assms by (simp add: swap_ok_def swap_held_def set_devinfo_def block_chain_def)

lemma allocate_storage_ok:
  assumes "swap_ok base st" and "\<forall>n. env_ok (bio st) n"
  shows "\<exists>r st'. toi_swap_allocate_storage request st = Some (r, st') \<and> swap_ok base st' \<and> (blocks_held st \<longrightarrow> blocks_held st') \<and>
    entries (swapextents st) \<subseteq> entries (swapextents st') \<and>
    swap_pages_allocated st' - swap_pages_allocated st =
      counted (\<lambda>i. ignored (devinfo (bio st') ! i)) (entries (swapextents st')) -
      counted (\<lambda>i. ignored (devinfo (bio st') ! i)) (entries (swapextents st))"
proof (cases "pages_to_get request st < 1")
  case True
  have wf: "list_all wf_chain (block_chain st)" using assms(1) by (simp add: swap_ok_def)
  obtain r b where "apply_header_reservation st = Some (r, st\<lparr>bio := b\<rparr>)" "chains (posn b) = block_chain st" "devinfo b = devinfo (bio st)"
    using apply_header_reservation_total [OF wf] by blast
  with True assms(1) show ?thesis
    by (auto simp: toi_swap_allocate_storage_def swap_ok_def swap_held_def block_chain_def blocks_held_def want_def get_swap_info_struct_def)
next
  case False
  let ?st = "set_devinfo st" and ?w = "pages_to_get request st"
  note ok = set_devinfo_ok [OF assms(1)]
  have env: "\<forall>n. env_ok (bio ?st) n" using assms(2) by (simp add: set_devinfo_def)
  have held: "swap_held base ?st" using ok by (simp add: swap_ok_def)
  obtain got st1 where st1: "take_swap ?w ?st = Some (got, st1)" "swap_held base st1" "areas (kswap st1) = areas (kswap ?st)"
    "entries (swapextents ?st) \<subseteq> entries (swapextents st1)"
    "got = counted (\<lambda>i. ignored (devinfo (bio ?st) ! i)) (entries (swapextents st1)) -
      counted (\<lambda>i. ignored (devinfo (bio ?st) ! i)) (entries (swapextents ?st))"
    "st1 = ?st\<lparr>swapextents := swapextents st1, kswap := kswap st1, bio := (bio ?st)\<lparr>env_n := env_n (bio st1)\<rparr>\<rparr>"
    using take_swap_total [OF held env, of ?w] by blast
  let ?st1 = "st1\<lparr>swap_pages_allocated := swap_pages_allocated st1 + got\<rparr>"
  have same: "bio st1 = (bio ?st)\<lparr>env_n := env_n (bio st1)\<rparr>" by (subst st1(6)) simp
  have pages: "swap_pages_allocated st1 = swap_pages_allocated st" by (subst st1(6)) (simp add: set_devinfo_def)
  have dev: "devinfo (bio st1) = devinfo (bio ?st)" by (subst same) simp
  have ch: "block_chain st1 = block_chain ?st" unfolding block_chain_def by (subst same) simp
  have "env_ok (bio st1) = env_ok (bio ?st)" by (subst same) simp
  have "swap_mapped (kswap st1)"
    using swap_mapped_areas [OF st1(3)] ok by (simp add: swap_ok_def swap_held_def)
  then have "swap_ok base ?st1" using ok st1(2) dev ch by (simp add: swap_ok_def swap_held_def block_chain_def)
  moreover have "\<forall>n. env_ok (bio ?st1) n" using env \<open>env_ok (bio st1) = env_ok (bio ?st)\<close> by simp
  ultimately obtain r st2 where st2: "get_main_pool_phys_params ?st1 = Some (r, st2)" "swap_ok base st2" "blocks_held st2"
    "swapextents st2 = swapextents ?st1" "devinfo (bio st2) = devinfo (bio ?st1)" "swap_pages_allocated st2 = swap_pages_allocated ?st1"
    using phys_params_ok [of base ?st1] by blast
  have "toi_swap_allocate_storage request st = Some (if got < ?w then - ENOSPC else r, st2)"
    using False st1(1) st2(1) by (simp add: toi_swap_allocate_storage_def)
  moreover have "swapextents ?st = swapextents st" by (simp add: set_devinfo_def)
  ultimately show ?thesis using st2 st1(4,5) dev pages by simp
qed

lemma release_storage_ok:
  assumes "swap_ok base st"
  shows "\<exists>st'. toi_swap_release_storage st = Some (0, st') \<and> swap_ok base st' \<and> swap_count (kswap st') = base \<and>
    entries (swapextents st') = {} \<and> (blocks_held st \<longrightarrow> blocks_held st')"
proof -
  have held: "swap_held base st" "wf_swap (kswap st)" "wf_chain (swapextents st)" using assms by (simp_all add: swap_ok_def swap_held_def)
  obtain st' where st': "toi_swap_release_storage st = Some (0, st')" "swap_held base st'" "swap_count (kswap st') = base"
    "extents (swapextents st') = []" using release_storage_total [OF held(1)] by blast
  have e: "entries (swapextents st') = {}" using st'(4) by (simp add: entries_def)
  show ?thesis
  proof (cases "extents (swapextents st) = []")
    case True
    with st'(1) have "st' = st\<lparr>header_pages_reserved := 0, swap_pages_allocated := 0\<rparr>" by (simp add: toi_swap_release_storage_def)
    with assms st' e show ?thesis
      by (auto simp: swap_ok_def swap_held_def block_chain_def blocks_held_def want_def get_swap_info_struct_def)
  next
    case False
    let ?cs = "map (\<lambda>c. if extents c \<noteq> [] then toi_put_extent_chain c else c) (block_chain st)"
    obtain k where k: "free_entries swap_free (toi_extent_for_each (swapextents st)) (kswap st) = Some k" "areas k = areas (kswap st)"
      using swap_map.free_entries_total [OF held(2) for_each_entries(2) [OF held(3)]] held(1)
      unfolding for_each_entries(1) [OF held(3)] by (auto simp: swap_held_def)
    have kb: "kswap st' = k" "block_chain st' = ?cs" "devinfo (bio st') = devinfo (bio st)"
      using st'(1) False k(1) by (auto simp: toi_swap_release_storage_def free_block_chains_def set_block_chain_def block_chain_def)
    have "swap_mapped k" using swap_mapped_areas [OF k(2)] assms held(2) by (simp add: swap_ok_def)
    moreover have "list_all wf_chain ?cs" using assms put_extent_chain_empty(1) by (auto simp: swap_ok_def list_all_iff)
    ultimately have "swap_ok base st'" using st'(2) assms kb by (simp add: swap_ok_def)
    moreover have "blocks_held st'" using assms kb(2) e free_chains_empty [of _ "block_chain st"] by (simp add: blocks_held_def want_def swap_ok_def)
    ultimately show ?thesis using st'(1,3) e by blast
  qed
qed

section \<open>Properties\<close>

text \<open>
  C9. Swap space is neither lost nor given away, as long as no memory allocation fails (when one does, the code loses
  the runs it has not recorded yet) and from a consistent state: the entries held are used once, the areas in
  use map every page to a block of its own below \<open>2 ^ 31\<close>, and the chains are well formed. Then
  \<open>toi_swap_allocate_storage\<close> returns, the entries it takes were free and are in use once, the number of
  pages it adds to \<open>swap_pages_allocated\<close> is the number of entries it took on areas that are not
  ignored, and every other entry is used as before; \<open>toi_swap_release_storage\<close> then gives back exactly
  the entries held, so that the use counts of all swap entries are what they were.
\<close>

theorem swap_storage_conserved:
  assumes "swap_ok base st" and "\<forall>n. env_ok (bio st) n"
  shows "\<exists>r st1 st2. toi_swap_allocate_storage request st = Some (r, st1) \<and> swap_ok base st1 \<and>
    swap_count (kswap st1) = (\<lambda>v. if v \<in> entries (swapextents st1) then 1 else base v) \<and>
    entries (swapextents st) \<subseteq> entries (swapextents st1) \<and>
    swap_pages_allocated st1 - swap_pages_allocated st =
      counted (\<lambda>i. ignored (devinfo (bio st1) ! i)) (entries (swapextents st1)) -
      counted (\<lambda>i. ignored (devinfo (bio st1) ! i)) (entries (swapextents st)) \<and>
    toi_swap_release_storage st1 = Some (0, st2) \<and> swap_ok base st2 \<and> swap_count (kswap st2) = base \<and>
    entries (swapextents st2) = {}"
proof -
  obtain r st1 where st1: "toi_swap_allocate_storage request st = Some (r, st1)" "swap_ok base st1"
    "entries (swapextents st) \<subseteq> entries (swapextents st1)"
    "swap_pages_allocated st1 - swap_pages_allocated st =
      counted (\<lambda>i. ignored (devinfo (bio st1) ! i)) (entries (swapextents st1)) -
      counted (\<lambda>i. ignored (devinfo (bio st1) ! i)) (entries (swapextents st))"
    using allocate_storage_ok [OF assms, of request] by blast
  from release_storage_ok [OF st1(2)] st1 show ?thesis by (auto simp: swap_ok_def swap_held_def)
qed

definition demo_swap_ready :: swap_state where
  "demo_swap_ready = demo_swap_state\<lparr>bio := (bio demo_swap_state)\<lparr>
     devinfo := replicate 32 \<lparr>bdev = 8, dev_t = 8, bmap_shift = 3, blocks_per_page = 1, ignored = False\<rparr>,
     posn := \<lparr>chains = replicate 32 empty_chain, current_chain = -1, current_extent = None, current_offset = 0\<rparr>\<rparr>\<rparr>"

lemma demo_swap_ready_ok: "swap_ok (swap_count demo_swap) demo_swap_ready"
proof -
  let ?si = "demo_area {2} 1 5 2 1"
  have "block_of ?si = (\<lambda>i. if i < 4 then 100 + i else if i < 6 then 36 + i else 0)" by (auto simp: block_of_def demo_area_def in_extent_def fun_eq_iff)
  then have "area_mapped ?si" by (auto simp: area_mapped_def wf_extent_list_def demo_area_def in_extent_def inj_on_def)
  then have "swap_mapped demo_swap" by (simp add: swap_mapped_def demo_swap_def)
  with wf_demo_swap show ?thesis
    by (simp add: swap_ok_def swap_held_def demo_swap_ready_def demo_swap_state_def block_chain_def entries_def wf_chain_def empty_chain_def
        list_all_iff)
qed

theorem swap_storage_conserved_witness:
  "\<exists>r st1 st2. toi_swap_allocate_storage 2 demo_swap_ready = Some (r, st1) \<and>
    toi_swap_release_storage st1 = Some (0, st2) \<and> swap_count (kswap st2) = swap_count demo_swap"
  using swap_storage_conserved [OF demo_swap_ready_ok, of 2]
  by (auto simp: demo_swap_ready_def demo_swap_state_def demo_bio_def good_def)

text \<open>
  C10. The block chains are the held swap entries, translated, as long as no memory allocation fails: from a state in
  which they are, with areas that map every page to a block of its own below \<open>2 ^ 31\<close> (the blocks go through \<open>int\<close>s),
  the chain of each swap area holds, after \<open>toi_swap_allocate_storage\<close>, exactly the blocks of the
  entries that are held on it (none for an ignored area), whatever runs the entries came in and wherever the
  extent lists of the areas break these runs; and after \<open>toi_swap_release_storage\<close> it is empty. So what the block
  layer writes to is storage the allocator owns.
\<close>

theorem swap_blocks_refine_entries:
  assumes "swap_ok base st" and "blocks_held st" and "\<forall>n. env_ok (bio st) n"
  shows "(\<exists>r st1. toi_swap_allocate_storage request st = Some (r, st1) \<and>
      (\<forall>t < 32. set (ext_list (extents (block_chain st1 ! t))) =
        {block_of (get_swap_info_struct st1 t) (swp_offset v) | v.
           v \<in> entries (swapextents st1) \<and> swp_type v = t \<and> \<not> ignored (devinfo (bio st1) ! t)})) \<and>
    (\<exists>st2. toi_swap_release_storage st = Some (0, st2) \<and>
      (\<forall>t < 32. set (ext_list (extents (block_chain st2 ! t))) = {}))"
proof
  obtain r st1 where "toi_swap_allocate_storage request st = Some (r, st1)" "blocks_held st1"
    using allocate_storage_ok [OF assms(1,3), of request] assms(2) by blast
  then show "\<exists>r st1. toi_swap_allocate_storage request st = Some (r, st1) \<and>
      (\<forall>t < 32. set (ext_list (extents (block_chain st1 ! t))) =
        {block_of (get_swap_info_struct st1 t) (swp_offset v) | v.
           v \<in> entries (swapextents st1) \<and> swp_type v = t \<and> \<not> ignored (devinfo (bio st1) ! t)})"
    by (auto simp: blocks_held_def chain_set_def want_def)
  obtain st2 where "toi_swap_release_storage st = Some (0, st2)" "blocks_held st2" "entries (swapextents st2) = {}"
    using release_storage_ok [OF assms(1)] assms(2) by blast
  then show "\<exists>st2. toi_swap_release_storage st = Some (0, st2) \<and> (\<forall>t < 32. set (ext_list (extents (block_chain st2 ! t))) = {})"
    by (auto simp: blocks_held_def chain_set_def want_def)
qed

lemma demo_swap_ready_blocks: "blocks_held demo_swap_ready"
  by (simp add: blocks_held_def chain_set_def want_def entries_def demo_swap_ready_def demo_swap_state_def block_chain_def empty_chain_def)

theorem swap_blocks_refine_entries_witness:
  "\<exists>r st1. toi_swap_allocate_storage 2 demo_swap_ready = Some (r, st1) \<and>
    set (ext_list (extents (block_chain st1 ! 0))) =
      {block_of (get_swap_info_struct st1 0) (swp_offset v) | v.
         v \<in> entries (swapextents st1) \<and> swp_type v = 0 \<and> \<not> ignored (devinfo (bio st1) ! 0)}"
proof -
  have "\<forall>n. env_ok (bio demo_swap_ready) n" by (simp add: demo_swap_ready_def demo_swap_state_def demo_bio_def)
  from conjunct1 [OF swap_blocks_refine_entries [OF demo_swap_ready_ok demo_swap_ready_blocks this, of 2]] show ?thesis by force
qed

end
