(* ===== verification/TOI_Compress.thy ===== *)
theory TOI_Compress
  imports TOI_Image_Stream TOI_Modules
begin

text \<open>
  The compression filter (\<open>tuxonice_compress.c\<close>): a context for each processor, writing and reading
  pages through it to the next driver, and its entry in the image header. The compressor is the
  kernel's crypto library, an argument of the definitions; the next driver is too.
\<close>

section \<open>The compressor and the next driver\<close>

text \<open>
  Opening a transform by name, compressing and decompressing. The third argument is the room for
  the output; the result is the return code and the output.
\<close>

record comp_lib =
  crypto_alloc_comp :: "byte list \<Rightarrow> nat option"
  crypto_comp_compress :: "nat \<Rightarrow> byte list \<Rightarrow> nat \<Rightarrow> int \<times> byte list"
  crypto_comp_decompress :: "nat \<Rightarrow> byte list \<Rightarrow> nat \<Rightarrow> int \<times> byte list"

text \<open>\<open>abort_hibernate\<close> changes the result word, which is part of the next driver's state.\<close>

record 's next_ops =
  next_write_page :: "ulong \<Rightarrow> byte list \<Rightarrow> 's \<Rightarrow> (int \<times> 's) option"
  next_read_page :: "'s \<Rightarrow> (int \<times> ulong \<times> byte list \<times> 's) option"
  abort_hibernate :: "toi_result_bit \<Rightarrow> 's \<Rightarrow> 's"

definition bio_next :: "bio_state next_ops" where
  "bio_next = \<lparr>next_write_page = toi_bio_write_page, next_read_page = toi_bio_read_page,
     abort_hibernate = (\<lambda>b st. st\<lparr>results := set_abort_result b (results st)\<rparr>)\<rparr>"

section \<open>State\<close>

record comp_context =
  page_buffer :: "page option"
  transform :: "nat option"
  output_buffer :: bool

text \<open>
  The static variables, the module's \<open>enabled\<close> field, and the answers of the page allocator.
  \<open>toi_compressor_name\<close> is an array of 32 bytes; there is a context for every processor that is
  online.
\<close>

record comp_state =
  toi_expected_compression :: int
  next_driver :: "nat option"
  toi_compressor_name :: "byte list"
  contexts :: "comp_context list"
  toi_compress_prepare_result :: int
  toi_compress_bytes_in :: ulong
  toi_compress_bytes_out :: ulong
  comp_enabled :: bool
  comp_ok :: "nat \<Rightarrow> bool"
  comp_n :: nat

section \<open>C strings\<close>

definition cstr :: "byte list \<Rightarrow> byte list" where
  "cstr bs = takeWhile (\<lambda>b. b \<noteq> 0) bs"

text \<open>\<open>strncmp\<close> is 0 when the strings agree up to the first \<open>n\<close> bytes or their end.\<close>

definition strncmp_eq :: "byte list \<Rightarrow> byte list \<Rightarrow> nat \<Rightarrow> bool" where
  "strncmp_eq a b n \<longleftrightarrow> take n (cstr a @ [0]) = take n (cstr b @ [0])"

text \<open>\<open>strncpy\<close> fills up with zeros; \<open>None\<close> when it would write past the array.\<close>

definition strncpy :: "byte list \<Rightarrow> byte list \<Rightarrow> nat \<Rightarrow> byte list option" where
  "strncpy dst src n = (if length dst < n then None else Some (take n (cstr src @ replicate n 0) @ drop n dst))"

section \<open>Preparation\<close>

definition cleanup_context :: "comp_context \<Rightarrow> comp_context" where
  "cleanup_context c = c\<lparr>transform := None, page_buffer := None, output_buffer := False\<rparr>"

definition toi_compress_cleanup :: "bool \<Rightarrow> comp_state \<Rightarrow> comp_state" where
  "toi_compress_cleanup toi_or_resume st =
     (if \<not> toi_or_resume then st else st\<lparr>contexts := map cleanup_context (contexts st)\<rparr>)"

text \<open>The loop over the processors: the return code, the contexts and the allocations made.\<close>

fun prepare_contexts ::
    "comp_lib \<Rightarrow> byte list \<Rightarrow> (nat \<Rightarrow> bool) \<Rightarrow> nat \<Rightarrow> comp_context list \<Rightarrow> int \<times> comp_context list \<times> nat" where
  "prepare_contexts lib name ok n [] = (0, [], n)"
| "prepare_contexts lib name ok n (c # cs) =
     (case crypto_alloc_comp lib name of
        None \<Rightarrow> (1, c\<lparr>transform := None\<rparr> # cs, n)
      | Some t \<Rightarrow>
          if \<not> ok n then (- ENOMEM, c\<lparr>transform := Some t, page_buffer := None\<rparr> # cs, Suc n)
          else if \<not> ok (Suc n)
          then (- ENOMEM, c\<lparr>transform := Some t, page_buffer := Some zero_page, output_buffer := False\<rparr> # cs, Suc (Suc n))
          else let (r, cs', n') = prepare_contexts lib name ok (Suc (Suc n)) cs
               in (r, c\<lparr>transform := Some t, page_buffer := Some zero_page, output_buffer := True\<rparr> # cs', n'))"

definition toi_compress_crypto_prepare :: "comp_lib \<Rightarrow> comp_state \<Rightarrow> int \<times> comp_state" where
  "toi_compress_crypto_prepare lib st =
     (if cstr (toi_compressor_name st) = [] then (1, st)
      else let (r, cs, n) = prepare_contexts lib (cstr (toi_compressor_name st)) (comp_ok st) (comp_n st) (contexts st)
           in (r, st\<lparr>contexts := cs, comp_n := n\<rparr>))"

definition toi_compress_init :: "comp_lib \<Rightarrow> 'w mod_state \<Rightarrow> nat \<Rightarrow> bool \<Rightarrow> comp_state \<Rightarrow> int \<times> comp_state" where
  "toi_compress_init lib ms self toi_or_resume st =
     (if \<not> toi_or_resume then (0, st)
      else let next = toi_get_next_filter ms (Some self);
               st1 = st\<lparr>toi_compress_bytes_in := 0, toi_compress_bytes_out := 0, next_driver := next\<rparr>
           in if next = None then (- ECHILD, st1)
              else let (r, st2) = toi_compress_crypto_prepare lib st1
                   in (0, st2\<lparr>toi_compress_prepare_result := r\<rparr>))"

definition toi_compress_rw_init :: "bool \<Rightarrow> comp_state \<Rightarrow> int \<times> comp_state" where
  "toi_compress_rw_init writing st =
     (if toi_compress_prepare_result st \<noteq> 0
      then if \<not> writing then (- ENODEV, st) else (0, st\<lparr>comp_enabled := False\<rparr>)
      else (0, st))"

section \<open>Pages\<close>

text \<open>
  Writing a page on processor \<open>cpu\<close>. \<open>ctx->len\<close> is the size of the page before the call of the
  compressor and the size of its output afterwards; \<open>None\<close> is a copy to a missing buffer.
\<close>

definition toi_compress_write_page ::
    "comp_lib \<Rightarrow> 's next_ops \<Rightarrow> nat \<Rightarrow> ulong \<Rightarrow> byte list \<Rightarrow> comp_state \<times> 's \<Rightarrow> (int \<times> comp_state \<times> 's) option" where
  "toi_compress_write_page lib ops cpu index buf = (\<lambda>(st, s).
     case transform (contexts st ! cpu) of
       None \<Rightarrow> do { (r, s1) \<leftarrow> next_write_page ops index buf s; Some (r, st, s1) }
     | Some t \<Rightarrow>
         if \<not> output_buffer (contexts st ! cpu) then None
         else do {
           let (ret, out) = crypto_comp_compress lib t buf (length buf);
           let st1 = st\<lparr>toi_compress_bytes_in := toi_compress_bytes_in st + of_nat (length buf),
                        toi_compress_bytes_out := toi_compress_bytes_out st + of_nat (length out)\<rparr>;
           if ret = 0 \<and> length out < length buf
           then do {
             p \<leftarrow> page_buffer (contexts st ! cpu);
             let st2 = st1\<lparr>contexts := (contexts st1)[cpu := (contexts st1 ! cpu)\<lparr>page_buffer := Some (put_bytes p 0 out)\<rparr>]\<rparr>;
             (r, s1) \<leftarrow> next_write_page ops index out s;
             Some (r, st2, s1)
           }
           else do { (r, s1) \<leftarrow> next_write_page ops index buf s; Some (r, st1, s1) }
         })"

text \<open>
  Reading a page: the return code, the index, the bytes that the library or the next driver put
  at the start of the buffer, and \<open>*buf_size\<close>, which says a full page also after an error of the next
  driver and after a failed decompression.
\<close>

definition toi_compress_read_page ::
    "comp_lib \<Rightarrow> 's next_ops \<Rightarrow> nat \<Rightarrow> comp_state \<times> 's \<Rightarrow> (int \<times> ulong \<times> byte list \<times> nat \<times> comp_state \<times> 's) option" where
  "toi_compress_read_page lib ops cpu = (\<lambda>(st, s).
     case transform (contexts st ! cpu) of
       None \<Rightarrow> do { (r, index, buf, s1) \<leftarrow> next_read_page ops s; Some (r, index, buf, length buf, st, s1) }
     | Some t \<Rightarrow> do {
         (r, index, buf, s1) \<leftarrow> next_read_page ops s;
         if r \<noteq> 0 \<or> length buf = PAGE_SIZE then Some (r, index, buf, PAGE_SIZE, st, s1)
         else do {
           p \<leftarrow> page_buffer (contexts st ! cpu);
           let st1 = st\<lparr>contexts := (contexts st)[cpu := (contexts st ! cpu)\<lparr>page_buffer := Some (put_bytes p 0 buf)\<rparr>]\<rparr>;
           let (ret, out) = crypto_comp_decompress lib t buf PAGE_SIZE;
           if ret \<noteq> 0 then Some (ret, index, out, PAGE_SIZE, st1, abort_hibernate ops TOI_FAILED_IO s1)
           else if length out \<noteq> PAGE_SIZE then Some (- EIO, index, out, length out, st1, abort_hibernate ops TOI_FAILED_IO s1)
           else Some (0, index, out, PAGE_SIZE, st1, s1)
         }
       })"

section \<open>Resources and the image header\<close>

definition toi_compress_memory_needed :: int where
  "toi_compress_memory_needed = 2 * 4096"

definition toi_compress_storage_needed :: "comp_state \<Rightarrow> int" where
  "toi_compress_storage_needed st = 4 * 8 + int (length (cstr (toi_compressor_name st))) + 1"

definition toi_compress_save_config_info :: "comp_state \<Rightarrow> byte list" where
  "toi_compress_save_config_info st =
     (let namelen = length (cstr (toi_compressor_name st)) + 1
      in ulong_bytes (toi_compress_bytes_in st) @ ulong_bytes (toi_compress_bytes_out st) @
         ulong_bytes (of_int (toi_expected_compression st)) @ ulong_bytes (of_nat namelen) @
         take namelen (cstr (toi_compressor_name st) @ replicate namelen 0))"

definition toi_compress_load_config_info :: "comp_lib \<Rightarrow> byte list \<Rightarrow> comp_state \<Rightarrow> comp_state option" where
  "toi_compress_load_config_info lib buffer st =
     (let namelen = unat (of_int (s32 (uint (bytes_ulong (take 8 (drop 24 buffer))))) :: ulong);
          name = drop 32 buffer;
          st1 = st\<lparr>toi_compress_bytes_in := bytes_ulong (take 8 buffer),
                   toi_compress_bytes_out := bytes_ulong (take 8 (drop 8 buffer)),
                   toi_expected_compression := s32 (uint (bytes_ulong (take 8 (drop 16 buffer))))\<rparr>
      in if strncmp_eq (toi_compressor_name st1) name namelen then Some st1
         else do {
           let st2 = toi_compress_cleanup True st1;
           new \<leftarrow> strncpy (toi_compressor_name st2) name namelen;
           Some (snd (toi_compress_crypto_prepare lib (st2\<lparr>toi_compressor_name := new\<rparr>)))
         })"

definition toi_compress_expected_ratio :: "comp_state \<Rightarrow> int" where
  "toi_compress_expected_ratio st = (if \<not> comp_enabled st then 100 else 100 - toi_expected_compression st)"

section \<open>The filter in front of a driver\<close>

text \<open>
  Pages through the filter, as the image I/O loop sends and fetches them; it stops when a read
  does not give a full page.
\<close>

fun comp_write_pages ::
    "comp_lib \<Rightarrow> 's next_ops \<Rightarrow> (nat \<times> ulong \<times> byte list) list \<Rightarrow> comp_state \<times> 's \<Rightarrow> (int \<times> comp_state \<times> 's) option" where
  "comp_write_pages lib ops [] s = Some (0, s)"
| "comp_write_pages lib ops ((cpu, pfn, buf) # ps) s = do {
     (r, s1) \<leftarrow> toi_compress_write_page lib ops cpu pfn buf s;
     if r \<noteq> 0 then Some (r, s1) else comp_write_pages lib ops ps s1
   }"

fun comp_read_pages ::
    "comp_lib \<Rightarrow> 's next_ops \<Rightarrow> nat list \<Rightarrow> comp_state \<times> 's \<Rightarrow> (int \<times> (ulong \<times> byte list) list \<times> comp_state \<times> 's) option" where
  "comp_read_pages lib ops [] s = Some (0, [], s)"
| "comp_read_pages lib ops (cpu # cpus) s = do {
     (r, pfn, buf, buf_size, s1) \<leftarrow> toi_compress_read_page lib ops cpu s;
     if r \<noteq> 0 \<or> buf_size \<noteq> PAGE_SIZE then Some (1, [], s1)
     else do { (r, ps, s2) \<leftarrow> comp_read_pages lib ops cpus s1; Some (r, (pfn, buf) # ps, s2) }
   }"

text \<open>A prepared context, and what the filter sends on for a page.\<close>

definition ready_context :: "nat \<Rightarrow> comp_context \<Rightarrow> bool" where
  "ready_context t c \<longleftrightarrow> transform c = Some t \<and> page_buffer c \<noteq> None \<and> output_buffer c"

definition ready_contexts :: "nat \<Rightarrow> comp_state \<Rightarrow> bool" where
  "ready_contexts t st \<longleftrightarrow> list_all (ready_context t) (contexts st)"

definition squeeze :: "comp_lib \<Rightarrow> nat \<Rightarrow> byte list \<Rightarrow> byte list" where
  "squeeze lib t buf = (let (ret, out) = crypto_comp_compress lib t buf (length buf)
     in if ret = 0 \<and> length out < length buf then out else buf)"

text \<open>The settings that go into the image header.\<close>

definition same_settings :: "comp_state \<Rightarrow> comp_state \<Rightarrow> bool" where
  "same_settings a b \<longleftrightarrow> toi_compressor_name b = toi_compressor_name a \<and> toi_expected_compression b = toi_expected_compression a"

lemma ready_nth: "ready_contexts t st \<Longrightarrow> cpu < length (contexts st) \<Longrightarrow> ready_context t (contexts st ! cpu)"
  by (simp add: ready_contexts_def list_all_length)

lemma ready_update:
  assumes "ready_contexts t st"
  shows "ready_contexts t (st\<lparr>contexts := (contexts st)[cpu := (contexts st ! cpu)\<lparr>page_buffer := Some p\<rparr>]\<rparr>)"
  using assms by (cases "cpu < length (contexts st)") (auto simp: ready_contexts_def ready_context_def list_all_length nth_list_update)

text \<open>A prepared filter writes to the next driver what \<open>squeeze\<close> makes of the page.\<close>

lemma compress_write_page_spec:
  assumes "ready_contexts t st" and "cpu < length (contexts st)"
  shows "\<exists>st'. toi_compress_write_page lib ops cpu pfn buf (st, s) =
      map_option (\<lambda>(r, s1). (r, st', s1)) (next_write_page ops pfn (squeeze lib t buf) s) \<and>
    ready_contexts t st' \<and> length (contexts st') = length (contexts st) \<and> same_settings st st'"
proof -
  obtain p where c: "transform (contexts st ! cpu) = Some t" "page_buffer (contexts st ! cpu) = Some p" "output_buffer (contexts st ! cpu)"
    using ready_nth [OF assms] by (auto simp: ready_context_def)
  obtain ret out where co: "crypto_comp_compress lib t buf (length buf) = (ret, out)" by force
  let ?st = "st\<lparr>toi_compress_bytes_in := toi_compress_bytes_in st + of_nat (length buf),
    toi_compress_bytes_out := toi_compress_bytes_out st + of_nat (length out)\<rparr>"
  have ready: "ready_contexts t ?st" using assms(1) by (simp add: ready_contexts_def)
  show ?thesis
  proof (cases "ret = 0 \<and> length out < length buf")
    case True
    let ?st' = "?st\<lparr>contexts := (contexts ?st)[cpu := (contexts ?st ! cpu)\<lparr>page_buffer := Some (put_bytes p 0 out)\<rparr>]\<rparr>"
    show ?thesis
      using True c co ready_update [OF ready, of cpu "put_bytes p 0 out"]
      by (intro exI [of _ ?st']) (auto simp: toi_compress_write_page_def squeeze_def same_settings_def map_option_case split: option.splits Option.bind_splits)
  next
    case False
    then show ?thesis
      using c co ready
      by (intro exI [of _ ?st]) (auto simp: toi_compress_write_page_def squeeze_def same_settings_def map_option_case split: option.splits Option.bind_splits)
  qed
qed

text \<open>
  The library's promise: what it compressed to less than a page is decompressed to that page.
\<close>

definition codec_ok :: "comp_lib \<Rightarrow> nat \<Rightarrow> bool" where
  "codec_ok lib t \<longleftrightarrow> (\<forall>buf out. length buf = PAGE_SIZE \<longrightarrow> crypto_comp_compress lib t buf PAGE_SIZE = (0, out) \<longrightarrow>
     length out < PAGE_SIZE \<longrightarrow> crypto_comp_decompress lib t out PAGE_SIZE = (0, buf))"

lemma compress_read_page_spec:
  assumes "ready_contexts t st" and "cpu < length (contexts st)" and "codec_ok lib t" and "length buf = PAGE_SIZE"
    and "next_read_page ops s = Some (0, pfn, squeeze lib t buf, s1)"
  shows "\<exists>st'. toi_compress_read_page lib ops cpu (st, s) = Some (0, pfn, buf, PAGE_SIZE, st', s1) \<and> ready_contexts t st' \<and>
    length (contexts st') = length (contexts st)"
proof -
  obtain p where c: "transform (contexts st ! cpu) = Some t" "page_buffer (contexts st ! cpu) = Some p"
    using ready_nth [OF assms(1,2)] by (auto simp: ready_context_def)
  obtain ret out where co: "crypto_comp_compress lib t buf PAGE_SIZE = (ret, out)" by force
  show ?thesis
  proof (cases "ret = 0 \<and> length out < PAGE_SIZE")
    case True
    then have "crypto_comp_decompress lib t out PAGE_SIZE = (0, buf)" using assms(3,4) co by (auto simp: codec_ok_def)
    with True c co assms(4,5) ready_update [OF assms(1), of cpu "put_bytes p 0 out"] show ?thesis
      by (auto simp: toi_compress_read_page_def squeeze_def)
  next
    case False
    with c co assms(1,4,5) show ?thesis by (auto simp: toi_compress_read_page_def squeeze_def)
  qed
qed

lemma comp_write_pages_spec:
  assumes "write_pages (map (\<lambda>(cpu, pfn, buf). (pfn, squeeze lib t buf)) ps) s = Some (0, s')"
    and "ready_contexts t st" and "\<forall>p \<in> set ps. fst p < length (contexts st)"
  shows "\<exists>st'. comp_write_pages lib bio_next ps (st, s) = Some (0, st', s') \<and> ready_contexts t st' \<and> same_settings st st'"
  using assms
proof (induction ps arbitrary: st s)
  case (Cons p ps)
  obtain cpu pfn buf where p: "p = (cpu, pfn, buf)" by (cases p)
  have cpu: "cpu < length (contexts st)" using Cons.prems(3) p by simp
  obtain st1 where st1: "toi_compress_write_page lib bio_next cpu pfn buf (st, s) =
      map_option (\<lambda>(r, s1). (r, st1, s1)) (toi_bio_write_page pfn (squeeze lib t buf) s)"
    "ready_contexts t st1" "length (contexts st1) = length (contexts st)" "same_settings st st1"
    using compress_write_page_spec [OF Cons.prems(2) cpu, of lib bio_next pfn buf s] by (auto simp: bio_next_def)
  obtain r s1 where s1: "toi_bio_write_page pfn (squeeze lib t buf) s = Some (r, s1)"
    "(if r \<noteq> 0 then Some (r, s1) else write_pages (map (\<lambda>(cpu, pfn, buf). (pfn, squeeze lib t buf)) ps) s1) = Some (0, s')"
    using Cons.prems(1) p by (auto split: Option.bind_splits)
  then have "r = 0" "write_pages (map (\<lambda>(cpu, pfn, buf). (pfn, squeeze lib t buf)) ps) s1 = Some (0, s')"
    by (auto split: if_splits)
  with Cons.IH [of s1 st1] Cons.prems(3) st1 s1(1) p show ?case by (auto simp: same_settings_def)
qed (simp add: same_settings_def)

lemma comp_read_pages_spec:
  assumes "read_pages (length ps) s = Some (0, map (\<lambda>(pfn, buf). (pfn, squeeze lib t buf)) ps, s')"
    and "ready_contexts t st" and "\<forall>c \<in> set cpus. c < length (contexts st)" and "length cpus = length ps"
    and "codec_ok lib t" and "\<forall>p \<in> set ps. length (snd p) = PAGE_SIZE"
  shows "\<exists>st'. comp_read_pages lib bio_next cpus (st, s) = Some (0, ps, st', s')"
  using assms
proof (induction ps arbitrary: st s cpus)
  case (Cons p ps)
  obtain pfn buf where p: "p = (pfn, buf)" by force
  obtain cpu cpus' where cpus: "cpus = cpu # cpus'" using Cons.prems(4) by (cases cpus) auto
  obtain s1 where s1: "toi_bio_read_page s = Some (0, pfn, squeeze lib t buf, s1)"
    "read_pages (length ps) s1 = Some (0, map (\<lambda>(pfn, buf). (pfn, squeeze lib t buf)) ps, s')"
    using Cons.prems(1) p by (auto split: Option.bind_splits if_splits)
  have "cpu < length (contexts st)" "length buf = PAGE_SIZE" "next_read_page bio_next s = Some (0, pfn, squeeze lib t buf, s1)"
    using Cons.prems(3,6) p cpus s1(1) by (simp_all add: bio_next_def)
  from compress_read_page_spec [OF Cons.prems(2) this(1) assms(5) this(2,3)] obtain st1 where
    "toi_compress_read_page lib bio_next cpu (st, s) = Some (0, pfn, buf, PAGE_SIZE, st1, s1)" "ready_contexts t st1"
    "length (contexts st1) = length (contexts st)" by blast
  with Cons.IH [OF s1(2), of st1 cpus'] Cons.prems(3-6) p cpus show ?case by auto
qed simp

section \<open>The configuration in the header\<close>

lemma prepare_contexts_ready:
  assumes "crypto_alloc_comp lib name = Some t" and "\<forall>n. ok n"
  shows "\<exists>cs' n'. prepare_contexts lib name ok n cs = (0, cs', n') \<and> list_all (ready_context t) cs' \<and> length cs' = length cs"
proof (induction cs arbitrary: n)
  case (Cons c cs)
  from Cons [of "Suc (Suc n)"] obtain cs' n' where "prepare_contexts lib name ok (Suc (Suc n)) cs = (0, cs', n')"
    "list_all (ready_context t) cs'" "length cs' = length cs" by blast
  moreover have "ok n" "ok (Suc n)" using assms(2) by simp_all
  moreover have "ready_context t (c\<lparr>transform := Some t, page_buffer := Some zero_page, output_buffer := True\<rparr>)"
    by (simp add: ready_context_def)
  ultimately show ?case using assms(1) by simp
qed simp

text \<open>A name as the configuration file sets it: 1 to 31 characters and a final zero.\<close>

definition wf_name :: "byte list \<Rightarrow> bool" where
  "wf_name a \<longleftrightarrow> length a = 32 \<and> cstr a \<noteq> [] \<and> length (cstr a) < 32"

lemma cstr_append_zero: "cstr (cstr a @ 0 # bs) = cstr a"
  unfolding cstr_def by (subst takeWhile_append2) (auto dest: set_takeWhileD)

lemma strncmp_eq_iff:
  assumes "length (cstr b) < n"
  shows "strncmp_eq a b n \<longleftrightarrow> cstr a = cstr b"
proof
  assume eq: "strncmp_eq a b n"
  have nz: "0 \<notin> set (cstr a)" "0 \<notin> set (cstr b)" by (auto simp: cstr_def dest: set_takeWhileD)
  have tb: "take n (cstr b @ [0]) = cstr b @ [0]" using assms by simp
  show "cstr a = cstr b"
  proof (cases "length (cstr a) < n")
    case True
    then have "take n (cstr a @ [0]) = cstr a @ [0]" by simp
    with eq tb show ?thesis by (simp add: strncmp_eq_def)
  next
    case False
    then have "take n (cstr a @ [0]) = take n (cstr a)" by simp
    with eq tb have "take n (cstr a) = cstr b @ [0]" by (simp only: strncmp_eq_def)
    then have "0 \<in> set (take n (cstr a))" by simp
    with nz(1) show ?thesis using in_set_takeD by fastforce
  qed
qed (simp add: strncmp_eq_def)

text \<open>
  Loading what was saved: the filter of the booting kernel takes over the statistics and the
  compressor, and its contexts are prepared for that compressor.
\<close>

lemma load_saved_config:
  assumes "wf_name (toi_compressor_name st)" and "length (toi_compressor_name st0) = 32"
    and "- (2 ^ 31) \<le> toi_expected_compression st" and "toi_expected_compression st < 2 ^ 31"
    and "crypto_alloc_comp lib (cstr (toi_compressor_name st)) = Some t" and "\<forall>n. comp_ok st0 n"
    and "cstr (toi_compressor_name st0) = cstr (toi_compressor_name st) \<longrightarrow> ready_contexts t st0"
  shows "\<exists>st1. toi_compress_load_config_info lib (toi_compress_save_config_info st) st0 = Some st1 \<and>
    ready_contexts t st1 \<and> length (contexts st1) = length (contexts st0) \<and>
    cstr (toi_compressor_name st1) = cstr (toi_compressor_name st) \<and> toi_expected_compression st1 = toi_expected_compression st \<and>
    toi_compress_bytes_in st1 = toi_compress_bytes_in st \<and> toi_compress_bytes_out st1 = toi_compress_bytes_out st"
proof -
  let ?name = "cstr (toi_compressor_name st)" and ?x = "toi_expected_compression st"
  let ?n = "length ?name + 1" and ?buf = "toi_compress_save_config_info st"
  have n: "?n \<le> 32" "?name \<noteq> []" using assms(1) by (simp_all add: wf_name_def)
  have fields: "bytes_ulong (take 8 ?buf) = toi_compress_bytes_in st" "bytes_ulong (take 8 (drop 8 ?buf)) = toi_compress_bytes_out st"
    "bytes_ulong (take 8 (drop 16 ?buf)) = of_int ?x" "bytes_ulong (take 8 (drop 24 ?buf)) = of_nat ?n" "drop 32 ?buf = ?name @ [0]"
    by (simp_all add: toi_compress_save_config_info_def Let_def)
  have "uint (of_int ?x :: ulong) mod 2 ^ 32 = ?x mod 2 ^ 32"
    by (simp add: uint_word_of_int mod_mod_cancel)
  then have x: "s32 (uint (of_int ?x :: ulong)) = ?x" using s32_cong [of "uint (of_int ?x :: ulong)" ?x] assms(3,4) by simp
  have un: "unat (of_nat ?n :: ulong) = ?n" using n(1) by (intro of_nat_inverse [OF refl]) simp
  then have "uint (of_nat ?n :: ulong) = int ?n" by (simp only: uint_nat)
  with n(1) have "s32 (uint (of_nat ?n :: ulong)) = int ?n" by (simp only: s32_id) simp
  with un have len: "unat (of_int (s32 (uint (of_nat ?n :: ulong))) :: ulong) = ?n" by (simp only: of_int_of_nat_eq)
  define st1 where "st1 = st0\<lparr>toi_compress_bytes_in := toi_compress_bytes_in st, toi_compress_bytes_out := toi_compress_bytes_out st,
    toi_expected_compression := ?x\<rparr>"
  have cn: "cstr (?name @ [0]) = ?name" by (rule cstr_append_zero)
  have load: "toi_compress_load_config_info lib ?buf st0 =
    (if strncmp_eq (toi_compressor_name st1) (?name @ [0]) ?n then Some st1
     else do {
       let st2 = toi_compress_cleanup True st1;
       new \<leftarrow> strncpy (toi_compressor_name st2) (?name @ [0]) ?n;
       Some (snd (toi_compress_crypto_prepare lib (st2\<lparr>toi_compressor_name := new\<rparr>)))
     })"
    unfolding toi_compress_load_config_info_def Let_def fields x len st1_def ..
  show ?thesis
  proof (cases "strncmp_eq (toi_compressor_name st1) (?name @ [0]) ?n")
    case True
    then have "cstr (toi_compressor_name st0) = ?name" using strncmp_eq_iff [of "?name @ [0]" ?n] cn by (simp add: st1_def)
    with True assms(7) show ?thesis unfolding load by (simp add: st1_def ready_contexts_def)
  next
    case False
    let ?new = "?name @ 0 # drop ?n (toi_compressor_name st0)"
    have cp: "strncpy (toi_compressor_name (toi_compress_cleanup True st1)) (?name @ [0]) ?n = Some ?new"
      using n(1) assms(2) by (simp add: strncpy_def cn toi_compress_cleanup_def st1_def)
    have nm: "cstr ?new = ?name" by (rule cstr_append_zero)
    obtain cs' n' where prep: "prepare_contexts lib ?name (comp_ok st0) (comp_n st0) (map cleanup_context (contexts st0)) = (0, cs', n')"
      "list_all (ready_context t) cs'" "length cs' = length (contexts st0)"
      using prepare_contexts_ready [OF assms(5,6), of "comp_n st0" "map cleanup_context (contexts st0)"] by auto
    let ?st2 = "(toi_compress_cleanup True st1)\<lparr>toi_compressor_name := ?new\<rparr>"
    have "toi_compress_load_config_info lib ?buf st0 = Some (snd (toi_compress_crypto_prepare lib ?st2))"
      unfolding load using False by (simp only: if_False Let_def cp Option.bind.simps)
    moreover have "snd (toi_compress_crypto_prepare lib ?st2) = ?st2\<lparr>contexts := cs', comp_n := n'\<rparr>"
      using prep(1) n(2) nm by (simp add: toi_compress_crypto_prepare_def toi_compress_cleanup_def st1_def)
    ultimately show ?thesis
      using prep(2,3) nm by (simp add: toi_compress_cleanup_def st1_def ready_contexts_def)
  qed
qed

section \<open>Properties\<close>

lemma squeeze_length: "length (squeeze lib t buf) \<le> length buf"
  by (auto simp: squeeze_def Let_def split: prod.splits)

lemma stream_ready_less: "stream_ready s n st \<Longrightarrow> m \<le> n \<Longrightarrow> stream_ready s m st"
  unfolding stream_ready_def by (meson le_trans)

text \<open>
  C2. Compression does not change the image: the pages of a page set that go through
  \<open>toi_compress_write_page\<close> to the block layer, on whatever processors, are the pages that
  \<open>toi_compress_read_page\<close> returns, in order and byte by byte, whether the compressor made them smaller or
  not. The reader is any kernel with the same disk, devices, extent chains and saved positions of the streams;
  it may have been set up for another compressor, since it loads the configuration that was saved. The
  hypotheses are: the compressor of the image can be opened in both kernels, it decompresses what it
  compressed to less than a page, no allocation and no request fails, the contexts of the writer are prepared
  (and those of the reader when it was set up for the same compressor), the name is a string
  of 1 to 31 characters and the expected compression an \<open>int\<close>, and the block layer is \<open>stream_ready\<close> for uncompressed pages
  (room, pages that do not overlap, block numbers below \<open>2 ^ 31\<close>).
\<close>

theorem compressed_image_roundtrip:
  assumes "s = 1 \<or> s = 2" and "\<forall>p \<in> set ps. length (snd (snd p)) = PAGE_SIZE \<and> fst p < length (contexts c)"
    and "stream_ready s (4108 * length ps) st"
    and "wf_name (toi_compressor_name c)" and "- (2 ^ 31) \<le> toi_expected_compression c" and "toi_expected_compression c < 2 ^ 31"
    and "crypto_alloc_comp lib (cstr (toi_compressor_name c)) = Some t" and "codec_ok lib t" and "ready_contexts t c"
    and "length (toi_compressor_name c0) = 32" and "\<forall>n. comp_ok c0 n"
    and "cstr (toi_compressor_name c0) = cstr (toi_compressor_name c) \<longrightarrow> ready_contexts t c0"
    and "length cpus = length ps" and "\<forall>u \<in> set cpus. u < length (contexts c0)"
  shows "\<exists>st1 c1 st2 st3 c2. toi_rw_init True s st = Some (0, st1) \<and>
    comp_write_pages lib bio_next ps (c, st1) = Some (0, c1, st2) \<and> toi_rw_cleanup True st2 = Some (0, st3) \<and> rebooted st3 st3 \<and>
    toi_compress_load_config_info lib (toi_compress_save_config_info c1) c0 = Some c2 \<and>
    (\<forall>b. rebooted st3 b \<longrightarrow> (\<exists>b1 c3 b2. toi_rw_init False s b = Some (0, b1) \<and>
       comp_read_pages lib bio_next cpus (c2, b1) = Some (0, map snd ps, c3, b2)))"
proof -
  let ?qs = "map (\<lambda>(cpu, pfn, buf). (pfn, squeeze lib t buf)) ps"
  have "length (squeeze lib t (snd (snd p))) \<le> PAGE_SIZE" if "p \<in> set ps" for p
    using squeeze_length [of lib t "snd (snd p)"] assms(2) that by simp
  then have small: "\<forall>q \<in> set ?qs. length (snd q) \<le> PAGE_SIZE" by (auto simp: case_prod_unfold)
  then have "(\<Sum>q\<leftarrow>?qs. 12 + length (snd q)) \<le> (\<Sum>q\<leftarrow>?qs. 4108)" by (intro sum_list_mono) auto
  also have "\<dots> = 4108 * length ps" by (induction ps) auto
  finally have "stream_ready s (\<Sum>q\<leftarrow>?qs. 12 + length (snd q)) st" using stream_ready_less [OF assms(3)] by blast
  from image_stream_pages [OF assms(1) small this] obtain st1 st2 st3 where
    io: "toi_rw_init True s st = Some (0, st1)" "write_pages ?qs st1 = Some (0, st2)" "toi_rw_cleanup True st2 = Some (0, st3)" "rebooted st3 st3"
    and read: "\<And>b. rebooted st3 b \<Longrightarrow> \<exists>b1 b2. toi_rw_init False s b = Some (0, b1) \<and> read_pages (length ?qs) b1 = Some (0, ?qs, b2)" by blast
  obtain c1 where c1: "comp_write_pages lib bio_next ps (c, st1) = Some (0, c1, st2)" "same_settings c c1"
    using comp_write_pages_spec [OF io(2) assms(9)] assms(2) by auto
  then have sv: "toi_compressor_name c1 = toi_compressor_name c" "toi_expected_compression c1 = toi_expected_compression c"
    by (simp_all add: same_settings_def)
  obtain c2 where c2: "toi_compress_load_config_info lib (toi_compress_save_config_info c1) c0 = Some c2" "ready_contexts t c2"
    "length (contexts c2) = length (contexts c0)"
    using load_saved_config [of c1 c0 lib t] assms(4-7,10-12) sv by auto
  have qs: "map (\<lambda>(pfn, buf). (pfn, squeeze lib t buf)) (map snd ps) = ?qs" by (auto simp: case_prod_unfold)
  have "\<exists>c3. comp_read_pages lib bio_next cpus (c2, b1) = Some (0, map snd ps, c3, b2)"
    if "read_pages (length ?qs) b1 = Some (0, ?qs, b2)" for b1 b2
    by (rule comp_read_pages_spec [where lib = lib and t = t]) (use that c2 qs assms(2,8,13,14) in auto)
  with read have "\<forall>b. rebooted st3 b \<longrightarrow> (\<exists>b1 c3 b2. toi_rw_init False s b = Some (0, b1) \<and>
       comp_read_pages lib bio_next cpus (c2, b1) = Some (0, map snd ps, c3, b2))" by meson
  with io c1(1) c2(1) show ?thesis by (intro exI conjI) assumption+
qed

text \<open>A compressor that leaves out the zeros at the end of a page.\<close>

definition demo_lib :: comp_lib where
  "demo_lib = \<lparr>crypto_alloc_comp = (\<lambda>name. if name = [108, 122, 111] then Some 1 else None),
     crypto_comp_compress = (\<lambda>t bs room. (0, rev (dropWhile (\<lambda>b. b = 0) (rev bs)))),
     crypto_comp_decompress = (\<lambda>t bs room. (0, bs @ replicate (room - length bs) 0))\<rparr>"

lemma dropWhile_rev_zeros: "rev (dropWhile (\<lambda>b. b = (0 :: byte)) (rev bs)) @ replicate (length bs - length (dropWhile (\<lambda>b. b = 0) (rev bs))) 0 = bs"
proof -
  let ?d = "dropWhile (\<lambda>b. b = 0) (rev bs)" and ?t = "takeWhile (\<lambda>b. b = 0) (rev bs)"
  have t: "?t = replicate (length ?t) 0" by (rule replicate_length_same [symmetric]) (auto dest: set_takeWhileD)
  have td: "?t @ ?d = rev bs" by (rule takeWhile_dropWhile_id)
  have "length ?t + length ?d = length bs" unfolding length_append [symmetric] td by simp
  then have len: "length ?t = length bs - length ?d" by simp
  have "bs = rev (?t @ ?d)" unfolding td by simp
  also have "\<dots> = rev ?d @ replicate (length ?t) 0" by (subst t) simp
  finally show ?thesis using len by simp
qed

lemma demo_codec_ok: "codec_ok demo_lib 1"
proof -
  have "rev (dropWhile (\<lambda>b. b = 0) (rev buf)) @ replicate (4096 - length (dropWhile (\<lambda>b. b = 0) (rev buf))) 0 = buf"
    if "length buf = 4096" for buf :: "byte list"
    using dropWhile_rev_zeros [of buf] that by simp
  then show ?thesis by (auto simp: codec_ok_def demo_lib_def)
qed

definition demo_comp :: "byte list \<Rightarrow> nat option \<Rightarrow> comp_state" where
  "demo_comp name t = \<lparr>toi_expected_compression = 50, next_driver = Some 3, toi_compressor_name = name @ replicate (32 - length name) 0,
     contexts = [\<lparr>page_buffer = Some zero_page, transform = t, output_buffer = True\<rparr>], toi_compress_prepare_result = 0,
     toi_compress_bytes_in = 0, toi_compress_bytes_out = 0, comp_enabled = True, comp_ok = (\<lambda>_. True), comp_n = 0\<rparr>"

lemma demo_comp_name:
  "cstr (toi_compressor_name (demo_comp [108, 122, 111] t)) = [108, 122, 111]" "cstr (toi_compressor_name (demo_comp [103, 122] t)) = [103, 122]"
  by (simp_all add: demo_comp_def cstr_def takeWhile_append takeWhile_replicate)

lemma demo_comp_facts:
  "length (toi_compressor_name (demo_comp [103, 122] None)) = 32"
  "ready_contexts 1 (demo_comp [108, 122, 111] (Some 1))"
  "toi_expected_compression (demo_comp name t) = 50"
  "length (contexts (demo_comp name t)) = 1"
  "comp_ok (demo_comp name t) = (\<lambda>_. True)"
  by (simp_all add: demo_comp_def ready_contexts_def ready_context_def)

lemma demo_comp_lib:
  "wf_name (toi_compressor_name (demo_comp [108, 122, 111] t))"
  "crypto_alloc_comp demo_lib (cstr (toi_compressor_name (demo_comp [108, 122, 111] t))) = Some 1"
  "cstr (toi_compressor_name (demo_comp [103, 122] u)) = cstr (toi_compressor_name (demo_comp [108, 122, 111] t)) \<longrightarrow> P"
  unfolding wf_name_def demo_comp_name by (simp_all add: demo_comp_def demo_lib_def)

theorem compressed_image_roundtrip_witness:
  "\<exists>st1 c1 st2 st3 c2 st4 c3 st5. toi_rw_init True 2 demo_bio = Some (0, st1) \<and>
    comp_write_pages demo_lib bio_next [(0, 7, replicate 4096 1)] (demo_comp [108, 122, 111] (Some 1), st1) = Some (0, c1, st2) \<and>
    toi_rw_cleanup True st2 = Some (0, st3) \<and>
    toi_compress_load_config_info demo_lib (toi_compress_save_config_info c1) (demo_comp [103, 122] None) = Some c2 \<and>
    toi_rw_init False 2 st3 = Some (0, st4) \<and> comp_read_pages demo_lib bio_next [0] (c2, st4) = Some (0, [(7, replicate 4096 1)], c3, st5)"
proof -
  let ?ps = "[(0 :: nat, 7 :: ulong, replicate 4096 1 :: byte list)]"
  have r: "stream_ready 2 (4108 * length ?ps) demo_bio"
    using stream_ready_less [OF demo_bio_ready] by simp
  have len: "length [0 :: nat] = length ?ps" by simp
  have pre: "\<forall>p \<in> set ?ps. length (snd (snd p)) = PAGE_SIZE \<and> fst p < length (contexts (demo_comp [108, 122, 111] (Some 1)))"
    "\<forall>u \<in> set [0]. u < length (contexts (demo_comp [103, 122] None))" by (simp_all add: demo_comp_facts)
  have snd: "map snd ?ps = [(7, replicate 4096 1)]" by simp
  show ?thesis
    using compressed_image_roundtrip [OF _ pre(1) r demo_comp_lib(1) _ _ demo_comp_lib(2) demo_codec_ok demo_comp_facts(2,1) _ demo_comp_lib(3) len pre(2)]
    unfolding snd demo_comp_facts by simp meson
qed

end
