(* ===== verification/TOI_Checksum.thy ===== *)
theory TOI_Checksum
  imports TOI_Pages TOI_Compress
begin

text \<open>
  Checksums of pageset 2 (\<open>tuxonice_checksum.c\<close>). While pageset 2 is written, a checksum of each
  page is stored; before the atomic copy the pages are checked, and those whose checksum differs are
  marked to be saved again with pageset 1. The digest is a function of the crypto library.
\<close>

section \<open>State\<close>

text \<open>Opening a hash by name, and the digest of a page: a return code and 16 bytes.\<close>

record hash_lib =
  crypto_alloc_hash :: "byte list \<Rightarrow> nat option"
  crypto_hash_digest :: "nat \<Rightarrow> page \<Rightarrow> int \<times> byte list"

abbreviation (input) CHECKSUM_SIZE :: nat where "CHECKSUM_SIZE \<equiv> 16"
abbreviation (input) CHECKSUMS_PER_PAGE :: nat where "CHECKSUMS_PER_PAGE \<equiv> 255"

record sum_context =
  hash_transform :: "nat option"
  sum_buf :: bool

text \<open>
  The checksum pages are linked through their first words; \<open>page_list\<close> is the list of their page
  frames, \<open>next_page\<close> what is left of it, and \<open>sum_mem\<close> their contents after the link. A
  checksum lies in a page at an offset. \<open>sum_alloc n\<close> is the answer of the page allocator to the
  \<open>n\<close>th request.
\<close>

record sum_state =
  toi_checksum_name :: "byte list"
  sum_contexts :: "sum_context list"
  pages_allocated :: int
  page_list :: "nat list"
  toi_num_resaved :: int
  this_checksum :: "(nat \<times> nat) option"
  next_page :: "nat list"
  checksum_index :: nat
  sum_mem :: "nat \<Rightarrow> page"
  sum_enabled :: bool
  sum_alloc :: "nat \<Rightarrow> nat option"
  sum_n :: nat

definition checksum_pages_needed :: "page_state \<Rightarrow> nat" where
  "checksum_pages_needed ps = DIV_ROUND_UP (nat (size (pagedir2 ps))) CHECKSUMS_PER_PAGE"

section \<open>Preparation\<close>

definition toi_checksum_cleanup :: "bool \<Rightarrow> sum_state \<Rightarrow> sum_state" where
  "toi_checksum_cleanup ending_cycle st =
     (if ending_cycle then st\<lparr>sum_contexts := map (\<lambda>c. c\<lparr>hash_transform := None, sum_buf := False\<rparr>) (sum_contexts st)\<rparr> else st)"

text \<open>The loop over the processors; \<open>got\<close> tells whether a page could be allocated.\<close>

fun initialise_contexts ::
    "hash_lib \<Rightarrow> byte list \<Rightarrow> (nat \<Rightarrow> nat option) \<Rightarrow> nat \<Rightarrow> sum_context list \<Rightarrow> int \<times> sum_context list \<times> nat" where
  "initialise_contexts lib name got n [] = (0, [], n)"
| "initialise_contexts lib name got n (c # cs) =
     (case crypto_alloc_hash lib name of
        None \<Rightarrow> (1, c\<lparr>hash_transform := None\<rparr> # cs, n)
      | Some t \<Rightarrow>
          if got n = None then (1, c\<lparr>hash_transform := Some t\<rparr> # cs, Suc n)
          else let (r, cs', n') = initialise_contexts lib name got (Suc n) cs
               in (r, c\<lparr>hash_transform := Some t, sum_buf := True\<rparr> # cs', n'))"

definition toi_checksum_initialise :: "hash_lib \<Rightarrow> bool \<Rightarrow> sum_state \<Rightarrow> int \<times> sum_state" where
  "toi_checksum_initialise lib hibernating st =
     (if \<not> hibernating \<or> \<not> sum_enabled st then (0, st)
      else if cstr (toi_checksum_name st) = [] then (1, st)
      else let (r, cs, n) = initialise_contexts lib (cstr (toi_checksum_name st)) (sum_alloc st) (sum_n st) (sum_contexts st)
           in (r, st\<lparr>sum_contexts := cs, sum_n := n\<rparr>))"

definition toi_checksum_memory_needed :: "page_state \<Rightarrow> sum_state \<Rightarrow> int" where
  "toi_checksum_memory_needed ps st = (if sum_enabled st then s32 (int (checksum_pages_needed ps) * 4096) else 0)"

definition toi_checksum_storage_needed :: "sum_state \<Rightarrow> int" where
  "toi_checksum_storage_needed st = (if sum_enabled st then int (length (cstr (toi_checksum_name st))) + 4 + 1 else 0)"

definition toi_checksum_save_config_info :: "sum_state \<Rightarrow> byte list" where
  "toi_checksum_save_config_info st =
     (let namelen = length (cstr (toi_checksum_name st)) + 1
      in int_bytes (int namelen) @ take namelen (cstr (toi_checksum_name st) @ replicate namelen 0))"

definition toi_checksum_load_config_info :: "byte list \<Rightarrow> sum_state \<Rightarrow> sum_state option" where
  "toi_checksum_load_config_info buffer st = do {
     new \<leftarrow> strncpy (toi_checksum_name st) (drop 4 buffer) (unat (of_int (bytes_int (take 4 buffer)) :: ulong));
     Some (st\<lparr>toi_checksum_name := new\<rparr>)
   }"

section \<open>Checksum pages\<close>

text \<open>The loop ends by its counter; a list shorter than that is a null pointer.\<close>

fun free_pages_loop :: "nat \<Rightarrow> nat list \<Rightarrow> page_state \<Rightarrow> (nat list \<times> page_state) option" where
  "free_pages_loop 0 l ps = Some (l, ps)"
| "free_pages_loop (Suc n) [] ps = None"
| "free_pages_loop (Suc n) (p # l) ps = free_pages_loop n l (ps\<lparr>nosave_map := nosave_map ps - {p}\<rparr>)"

definition free_checksum_pages :: "sum_state \<times> page_state \<Rightarrow> (sum_state \<times> page_state) option" where
  "free_checksum_pages = (\<lambda>(st, ps). do {
     (l, ps1) \<leftarrow> free_pages_loop (nat (pages_allocated st)) (page_list st) ps;
     Some (st\<lparr>page_list := l, pages_allocated := 0\<rparr>, ps1)
   })"

fun allocate_pages_loop :: "nat \<Rightarrow> sum_state \<times> page_state \<Rightarrow> bool \<times> sum_state \<times> page_state" where
  "allocate_pages_loop 0 (st, ps) = (True, st, ps)"
| "allocate_pages_loop (Suc k) (st, ps) =
     (let st1 = st\<lparr>sum_n := Suc (sum_n st)\<rparr>
      in case sum_alloc st (sum_n st) of
           None \<Rightarrow> (False, st1, ps)
         | Some p \<Rightarrow> allocate_pages_loop k
             (st1\<lparr>page_list := p # page_list st, pages_allocated := pages_allocated st + 1, sum_mem := (sum_mem st)(p := zero_page)\<rparr>,
              ps\<lparr>nosave_map := insert p (nosave_map ps)\<rparr>))"

definition allocate_checksum_pages :: "sum_state \<times> page_state \<Rightarrow> int \<times> sum_state \<times> page_state" where
  "allocate_checksum_pages = (\<lambda>(st, ps).
     if \<not> sum_enabled st then (0, st, ps)
     else let (ok, st1, ps1) = allocate_pages_loop (nat (int (checksum_pages_needed ps) - pages_allocated st)) (st, ps)
          in if ok then (0, st1\<lparr>next_page := page_list st1, checksum_index := 0\<rparr>, ps1) else (- ENOMEM, st1, ps1))"

text \<open>
  The step from one checksum to the next, in \<open>tuxonice_get_next_checksum\<close> and in \<open>check_checksums\<close>;
  \<open>None\<close> when the list of pages has ended.
\<close>

definition advance_checksum :: "nat \<Rightarrow> sum_state \<Rightarrow> sum_state option" where
  "advance_checksum i st =
     (if i mod CHECKSUMS_PER_PAGE \<noteq> 0
      then case this_checksum st of None \<Rightarrow> None | Some (p, off) \<Rightarrow> Some (st\<lparr>this_checksum := Some (p, off + CHECKSUM_SIZE)\<rparr>)
      else case next_page st of [] \<Rightarrow> None | p # l \<Rightarrow> Some (st\<lparr>this_checksum := Some (p, 8), next_page := l\<rparr>))"

definition tuxonice_get_next_checksum :: "sum_state \<Rightarrow> ((nat \<times> nat) option \<times> sum_state) option" where
  "tuxonice_get_next_checksum st =
     (if \<not> sum_enabled st then Some (None, st)
      else do {
        st1 \<leftarrow> advance_checksum (checksum_index st) st;
        Some (this_checksum st1, st1\<lparr>checksum_index := checksum_index st1 + 1\<rparr>)
      })"

text \<open>The digest of a page on processor \<open>cpu\<close>; \<open>None\<close> without a transform or a buffer.\<close>

definition digest :: "hash_lib \<Rightarrow> nat \<Rightarrow> page \<Rightarrow> sum_state \<Rightarrow> (int \<times> byte list) option" where
  "digest lib cpu p st = do {
     t \<leftarrow> hash_transform (sum_contexts st ! cpu);
     if sum_buf (sum_contexts st ! cpu) then Some (crypto_hash_digest lib t p) else None
   }"

definition tuxonice_calc_checksum ::
    "hash_lib \<Rightarrow> nat \<Rightarrow> page \<Rightarrow> (nat \<times> nat) option \<Rightarrow> sum_state \<Rightarrow> (int \<times> sum_state) option" where
  "tuxonice_calc_checksum lib cpu p locn st =
     (if \<not> sum_enabled st then Some (0, st)
      else do {
        (result, d) \<leftarrow> digest lib cpu p st;
        (q, off) \<leftarrow> locn;
        Some (result, if result = 0 then st\<lparr>sum_mem := (sum_mem st)(q := put_bytes (sum_mem st q) off d)\<rparr> else st)
      })"

section \<open>Checking\<close>

text \<open>
  The loop over the pages of the bitmap. The page frame number is kept in an \<open>int\<close>: one that becomes
  \<open>-1\<close> is taken for \<open>BM_END_OF_MAP\<close>, any other negative one has no page. The loop ends at the first
  digest that fails.
\<close>

fun check_loop ::
    "hash_lib \<Rightarrow> nat \<Rightarrow> (nat \<Rightarrow> page) \<Rightarrow> nat list \<Rightarrow> nat \<Rightarrow> sum_state \<times> page_state \<Rightarrow> (sum_state \<times> page_state) option" where
  "check_loop lib cpu contents [] index s = Some s"
| "check_loop lib cpu contents (next # pfns) index (st, ps) =
     (if s32 (int next) = -1 then Some (st, ps)
      else if s32 (int next) < 0 then None
      else let pfn = nat (s32 (int next)) in do {
     st1 \<leftarrow> advance_checksum index st;
     (ret, current_checksum) \<leftarrow> digest lib cpu (contents pfn) st1;
     if ret \<noteq> 0 then Some (st1, ps)
     else do {
       (q, off) \<leftarrow> this_checksum st1;
       check_loop lib cpu contents pfns (index + 1)
         (if current_checksum \<noteq> take CHECKSUM_SIZE (drop off (sum_mem st1 q))
          then (st1\<lparr>toi_num_resaved := toi_num_resaved st1 + 1\<rparr>,
                ps\<lparr>resave_map := insert pfn (resave_map ps),
                   p_results := (if TOI_ABORT_ON_RESAVE_NEEDED \<in> p_actions ps then set_abort_result TOI_RESAVE_NEEDED (p_results ps)
                                 else p_results ps)\<rparr>)
          else (st1, ps))
     }
   })"

text \<open>The page frames of pageset 2 in ascending order, as the bitmap enumerates them.\<close>

definition check_checksums ::
    "hash_lib \<Rightarrow> nat \<Rightarrow> (nat \<Rightarrow> page) \<Rightarrow> sum_state \<times> page_state \<Rightarrow> (sum_state \<times> page_state) option" where
  "check_checksums lib cpu contents = (\<lambda>(st, ps).
     if \<not> sum_enabled st then Some (st, ps)
     else check_loop lib cpu contents (sorted_list_of_set (ps2_map ps)) 0
       (st\<lparr>next_page := page_list st, toi_num_resaved := 0, this_checksum := None\<rparr>, ps))"

text \<open>
  The part of \<open>worker_rw_loop\<close> that stores the checksums, for the pages in the order in which they
  are written; it stops at the first error.
\<close>

fun store_checksums ::
    "hash_lib \<Rightarrow> nat \<Rightarrow> (nat \<Rightarrow> page) \<Rightarrow> nat list \<Rightarrow> sum_state \<Rightarrow> (int \<times> sum_state) option" where
  "store_checksums lib cpu contents [] st = Some (0, st)"
| "store_checksums lib cpu contents (pfn # pfns) st = do {
     (locn, st1) \<leftarrow> tuxonice_get_next_checksum st;
     (r, st2) \<leftarrow> tuxonice_calc_checksum lib cpu (contents pfn) locn st1;
     if r \<noteq> 0 then Some (r, st2) else store_checksums lib cpu contents pfns st2
   }"

section \<open>Where the checksums are\<close>

definition locn :: "nat list \<Rightarrow> nat \<Rightarrow> nat \<times> nat" where
  "locn pages i = (pages ! (i div 255), 8 + 16 * (i mod 255))"

definition at_checksum :: "nat list \<Rightarrow> nat \<Rightarrow> sum_state \<Rightarrow> bool" where
  "at_checksum pages i st \<longleftrightarrow> next_page st = drop ((i + 254) div 255) pages \<and> (i = 0 \<or> this_checksum st = Some (locn pages (i - 1)))"

lemma advance_checksum_spec:
  assumes "at_checksum pages i st" and "i < 255 * length pages"
  shows "advance_checksum i st = Some (st\<lparr>this_checksum := Some (locn pages i), next_page := drop (i div 255 + 1) pages\<rparr>)"
proof -
  obtain q r where i: "i = 255 * q + r" "r < 255" by (metis mod_less_divisor mult_div_mod_eq zero_less_numeral)
  then have div: "i div 255 = q" "i mod 255 = r" by simp_all
  have q: "q < length pages" using i assms(2) by simp
  show ?thesis
  proof (cases r)
    case 0
    then have "(i + 254) div 255 = q" using i by simp
    then have "next_page st = pages ! q # drop (q + 1) pages" using assms(1) q by (simp add: at_checksum_def Cons_nth_drop_Suc)
    with 0 show ?thesis by (simp add: advance_checksum_def locn_def div)
  next
    case (Suc s)
    have "i + 254 = 255 * (q + 1) + s" "i - 1 = 255 * q + s" "s < 255" using i Suc by simp_all
    then have "(i + 254) div 255 = q + 1" "(i - 1) div 255 = q" "(i - 1) mod 255 = s" "i \<noteq> 0" using Suc i(1) by simp_all
    then have "this_checksum st = Some (pages ! q, 8 + 16 * s)" "next_page st = drop (q + 1) pages"
      using assms(1) by (auto simp: at_checksum_def locn_def)
    with Suc show ?thesis by (simp add: advance_checksum_def locn_def div)
  qed
qed

lemma at_checksum_next:
  "at_checksum pages (Suc i) (st\<lparr>this_checksum := Some (locn pages i), next_page := drop (i div 255 + 1) pages\<rparr>)"
proof -
  have "(Suc i + 254) div 255 = i div 255 + 1" by simp
  then show ?thesis by (simp add: at_checksum_def)
qed

lemma at_checksum_frame [simp]:
  "at_checksum pages i (st\<lparr>checksum_index := n\<rparr>) = at_checksum pages i st" "at_checksum pages i (st\<lparr>sum_mem := m\<rparr>) = at_checksum pages i st"
  "at_checksum pages i (st\<lparr>toi_num_resaved := r\<rparr>) = at_checksum pages i st"
  by (simp_all add: at_checksum_def)

text \<open>The checksum at a place, and that storing one does not disturb the others.\<close>

definition sum_at :: "(nat \<Rightarrow> page) \<Rightarrow> nat \<times> nat \<Rightarrow> byte list" where
  "sum_at mem l = take 16 (drop (snd l) (mem (fst l)))"

lemma put_bytes_same:
  "length d = n \<Longrightarrow> off + n \<le> length b \<Longrightarrow> take n (drop off (put_bytes b off d)) = d"
  by (simp add: put_bytes_def)

lemma put_bytes_other:
  assumes "off + length d \<le> length b" and "off' + n \<le> off \<or> off + length d \<le> off'"
  shows "take n (drop off' (put_bytes b off d)) = take n (drop off' b)"
proof -
  have len: "length (put_bytes b off d) = length b" using assms(1) by (simp add: put_bytes_def)
  show ?thesis
  proof (rule nth_equalityI)
    show "length (take n (drop off' (put_bytes b off d))) = length (take n (drop off' b))" by (simp add: len)
    fix i assume "i < length (take n (drop off' (put_bytes b off d)))"
    then have i: "i < n" "off' + i < length b" by (auto simp: len)
    have "put_bytes b off d ! (off' + i) = b ! (off' + i)"
      using assms i by (auto simp: put_bytes_def nth_append)
    with i len show "take n (drop off' (put_bytes b off d)) ! i = take n (drop off' b) ! i" by (simp add: nth_drop)
  qed
qed

lemma sum_at_put:
  assumes "distinct pages" and "i < 255 * length pages" and "j < 255 * length pages" and "length d = 16"
    and "locn pages i = (q, off)" and "length (mem q) = 4096"
  shows "sum_at (mem(q := put_bytes (mem q) off d)) (locn pages j) = (if j = i then d else sum_at mem (locn pages j))"
proof -
  have q: "q = pages ! (i div 255)" "off = 8 + 16 * (i mod 255)" using assms(5) by (simp_all add: locn_def)
  have b: "i mod 255 < 255" "j mod 255 < 255" by simp_all
  show ?thesis
  proof (cases "j div 255 = i div 255")
    case False
    moreover have "i div 255 < length pages" "j div 255 < length pages" using assms(2,3) by (simp_all add: div_less_iff_less_mult mult.commute)
    ultimately have "pages ! (j div 255) \<noteq> q" using assms(1) q(1) by (simp add: nth_eq_iff_index_eq)
    then show ?thesis using False by (auto simp: sum_at_def locn_def)
  next
    case True
    show ?thesis
    proof (cases "j = i")
      case True
      then show ?thesis using put_bytes_same [of d 16 off "mem q"] assms(4,6) q b by (simp add: sum_at_def locn_def)
    next
      case False
      with True have "j mod 255 < i mod 255 \<or> i mod 255 < j mod 255" by (metis div_mult_mod_eq linorder_neqE_nat)
      then have "8 + 16 * (j mod 255) + 16 \<le> off \<or> off + length d \<le> 8 + 16 * (j mod 255)" using assms(4) q(2) by linarith
      with put_bytes_other [of off d "mem q" "8 + 16 * (j mod 255)" 16] assms(4,6) False q True b show ?thesis
        by (simp add: sum_at_def locn_def)
    qed
  qed
qed

section \<open>Storing and checking\<close>

text \<open>A processor with a transform and a buffer; a digest that does not fail has 16 bytes.\<close>

definition hash_ready :: "hash_lib \<Rightarrow> nat \<Rightarrow> nat \<Rightarrow> sum_state \<Rightarrow> bool" where
  "hash_ready lib cpu t st \<longleftrightarrow> hash_transform (sum_contexts st ! cpu) = Some t \<and> sum_buf (sum_contexts st ! cpu) \<and> sum_enabled st \<and>
     (\<forall>p. fst (crypto_hash_digest lib t p) = 0 \<longrightarrow> length (snd (crypto_hash_digest lib t p)) = 16)"

definition sum_store :: "nat list \<Rightarrow> byte list list \<Rightarrow> sum_state \<Rightarrow> bool" where
  "sum_store pages ds st \<longleftrightarrow> distinct pages \<and> page_list st = pages \<and> (\<forall>p \<in> set pages. length (sum_mem st p) = 4096) \<and>
     (\<forall>j < length ds. sum_at (sum_mem st) (locn pages j) = ds ! j)"

lemma hash_ready_digest:
  "hash_ready lib cpu t st \<Longrightarrow> digest lib cpu p st = Some (crypto_hash_digest lib t p)"
  by (simp add: hash_ready_def digest_def)

text \<open>The digest of a page succeeds.\<close>

definition digests :: "hash_lib \<Rightarrow> nat \<Rightarrow> page \<Rightarrow> bool" where
  "digests lib t p \<longleftrightarrow> fst (crypto_hash_digest lib t p) = 0"

lemma hash_ready_digests:
  "hash_ready lib cpu t st \<Longrightarrow> digests lib t p \<Longrightarrow> digest lib cpu p st = Some (0, snd (crypto_hash_digest lib t p))"
  by (simp add: hash_ready_digest digests_def prod_eq_iff)

lemma hash_ready_frame [simp]:
  "hash_ready lib cpu t (st\<lparr>this_checksum := a\<rparr>) = hash_ready lib cpu t st" "hash_ready lib cpu t (st\<lparr>next_page := b\<rparr>) = hash_ready lib cpu t st"
  "hash_ready lib cpu t (st\<lparr>checksum_index := n\<rparr>) = hash_ready lib cpu t st" "hash_ready lib cpu t (st\<lparr>sum_mem := m\<rparr>) = hash_ready lib cpu t st"
  "hash_ready lib cpu t (st\<lparr>toi_num_resaved := r\<rparr>) = hash_ready lib cpu t st"
  by (simp_all add: hash_ready_def)

lemma sum_store_frame [simp]:
  "sum_store pages ds (st\<lparr>this_checksum := a\<rparr>) = sum_store pages ds st" "sum_store pages ds (st\<lparr>next_page := b\<rparr>) = sum_store pages ds st"
  "sum_store pages ds (st\<lparr>checksum_index := n\<rparr>) = sum_store pages ds st" "sum_store pages ds (st\<lparr>toi_num_resaved := r\<rparr>) = sum_store pages ds st"
  by (simp_all add: sum_store_def)

lemma sum_store_put:
  assumes "sum_store pages ds st" and "length ds < 255 * length pages" and "locn pages (length ds) = (q, off)" and "length d = 16"
  shows "sum_store pages (ds @ [d]) (st\<lparr>sum_mem := (sum_mem st)(q := put_bytes (sum_mem st q) off d)\<rparr>)"
proof -
  have "length ds div 255 < length pages" using assms(2) by (simp add: div_less_iff_less_mult mult.commute)
  then have q: "q \<in> set pages" "off + 16 \<le> 4096" using assms(3) by (auto simp: locn_def)
  have st: "distinct pages" "page_list st = pages" "\<And>p. p \<in> set pages \<Longrightarrow> length (sum_mem st p) = 4096"
    "\<And>j. j < length ds \<Longrightarrow> sum_at (sum_mem st) (locn pages j) = ds ! j" using assms(1) by (auto simp: sum_store_def)
  have "sum_at ((sum_mem st)(q := put_bytes (sum_mem st q) off d)) (locn pages j) = (ds @ [d]) ! j" if "j < length (ds @ [d])" for j
    using sum_at_put [where mem = "sum_mem st" and j = j, OF st(1) assms(2) _ assms(4,3) st(3) [OF q(1)]] that assms(2) st(4) [of j] by (auto simp: nth_append)
  moreover have "length (put_bytes (sum_mem st q) off d) = 4096" using st(3) [OF q(1)] q(2) assms(4) by simp
  ultimately show ?thesis using st(1-3) by (simp add: sum_store_def)
qed

lemma store_checksums_spec:
  assumes "hash_ready lib cpu t st" and "at_checksum pages (length ds) st" and "checksum_index st = length ds"
    and "length ds + length pfns \<le> 255 * length pages" and "sum_store pages ds st" and "\<forall>pfn \<in> set pfns. digests lib t (contents pfn)"
  shows "\<exists>st'. store_checksums lib cpu contents pfns st = Some (0, st') \<and> hash_ready lib cpu t st' \<and>
    pages_allocated st' = pages_allocated st \<and> sum_store pages (ds @ map (\<lambda>pfn. snd (crypto_hash_digest lib t (contents pfn))) pfns) st'"
  using assms
proof (induction pfns arbitrary: st ds)
  case (Cons pfn pfns)
  let ?d = "snd (crypto_hash_digest lib t (contents pfn))" and ?i = "length ds"
  obtain q off where l: "locn pages ?i = (q, off)" by force
  let ?st1 = "st\<lparr>this_checksum := Some (locn pages ?i), next_page := drop (?i div 255 + 1) pages\<rparr>"
  let ?st2 = "?st1\<lparr>checksum_index := ?i + 1\<rparr>"
  let ?st3 = "?st2\<lparr>sum_mem := (sum_mem st)(q := put_bytes (sum_mem st q) off ?d)\<rparr>"
  have d: "digests lib t (contents pfn)" using Cons.prems(6) by simp
  have en: "sum_enabled st" "length ?d = 16" using Cons.prems(1) d by (simp_all add: hash_ready_def digests_def)
  have i: "?i < 255 * length pages" using Cons.prems(4) by simp
  have "tuxonice_get_next_checksum st = Some (Some (q, off), ?st2)"
    using advance_checksum_spec [OF Cons.prems(2) i] en(1) Cons.prems(3) l by (simp add: tuxonice_get_next_checksum_def)
  moreover have "tuxonice_calc_checksum lib cpu (contents pfn) (Some (q, off)) ?st2 = Some (0, ?st3)"
    using hash_ready_digests [of lib cpu t ?st2 "contents pfn"] Cons.prems(1) en(1) d by (simp add: tuxonice_calc_checksum_def)
  moreover have "sum_store pages (ds @ [?d]) ?st3"
    using sum_store_put [OF _ i l en(2), of ?st2] Cons.prems(5) by simp
  moreover have "at_checksum pages (length (ds @ [?d])) ?st3" using at_checksum_next [of pages ?i st] by simp
  ultimately show ?case
    using Cons.IH [of ?st3 "ds @ [?d]"] Cons.prems(1,4,6) by simp
qed auto

text \<open>The pages whose digest has changed.\<close>

definition changed :: "(page \<Rightarrow> byte list) \<Rightarrow> (nat \<Rightarrow> page) \<Rightarrow> (nat \<Rightarrow> page) \<Rightarrow> nat list \<Rightarrow> nat list" where
  "changed h old new pfns = filter (\<lambda>pfn. h (new pfn) \<noteq> h (old pfn)) pfns"

definition resaved :: "nat list \<Rightarrow> page_state \<Rightarrow> page_state" where
  "resaved pfns ps = ps\<lparr>resave_map := set pfns \<union> resave_map ps,
     p_results := (if pfns \<noteq> [] \<and> TOI_ABORT_ON_RESAVE_NEEDED \<in> p_actions ps then set_abort_result TOI_RESAVE_NEEDED (p_results ps)
                   else p_results ps)\<rparr>"

lemma set_abort_result_twice: "set_abort_result b (set_abort_result b rs) = set_abort_result b rs"
  by (auto simp: set_abort_result_def)

lemma resaved_Cons:
  "resaved pfns (ps\<lparr>resave_map := insert pfn (resave_map ps),
     p_results := (if TOI_ABORT_ON_RESAVE_NEEDED \<in> p_actions ps then set_abort_result TOI_RESAVE_NEEDED (p_results ps)
                   else p_results ps)\<rparr>) = resaved (pfn # pfns) ps"
  by (simp add: resaved_def set_abort_result_twice)

lemma check_loop_spec:
  assumes "hash_ready lib cpu t st" and "at_checksum pages i st" and "sum_store pages ds st"
    and "drop i ds = map (\<lambda>pfn. h (old pfn)) pfns" and "i \<le> length ds" and "length ds \<le> 255 * length pages"
    and "h = (\<lambda>p. snd (crypto_hash_digest lib t p))" and "\<forall>p \<in> set pfns. p < 2 ^ 31"
  shows "\<exists>st'. check_loop lib cpu new pfns i (st, ps) = Some (st', resaved (changed h old new (takeWhile (\<lambda>p. digests lib t (new p)) pfns)) ps) \<and>
    toi_num_resaved st' = toi_num_resaved st + int (length (changed h old new (takeWhile (\<lambda>p. digests lib t (new p)) pfns))) \<and> page_list st' = page_list st \<and>
    pages_allocated st' = pages_allocated st"
  using assms(1-6,8)
proof (induction pfns arbitrary: st i ps)
  case Nil
  then show ?case by (simp add: resaved_def changed_def)
next
  case (Cons pfn pfns)
  let ?st1 = "st\<lparr>this_checksum := Some (locn pages i), next_page := drop (i div 255 + 1) pages\<rparr>"
  obtain q off where l: "locn pages i = (q, off)" by force
  have i: "i < length ds" using Cons.prems(4) by (metis drop_all linorder_not_le list.simps(3) list.simps(9))
  then have ds: "ds ! i = h (old pfn)" "drop (Suc i) ds = map (\<lambda>pfn. h (old pfn)) pfns"
    using Cons.prems(4) by (simp_all add: Cons_nth_drop_Suc [symmetric])
  have s: "s32 (int pfn) = int pfn" using Cons.prems(7) by (intro s32_id) simp_all
  have adv: "advance_checksum i st = Some ?st1" using advance_checksum_spec [OF Cons.prems(2)] i Cons.prems(6) by simp
  have dig: "digest lib cpu (new pfn) ?st1 = Some (crypto_hash_digest lib t (new pfn))"
    using hash_ready_digest [of lib cpu t ?st1 "new pfn"] Cons.prems(1) by simp
  have old: "take 16 (drop off (sum_mem st q)) = h (old pfn)"
    using Cons.prems(3) i ds(1) l by (auto simp: sum_store_def sum_at_def)
  have step: "check_loop lib cpu new (pfn # pfns) i (st, ps) = check_loop lib cpu new pfns (Suc i)
    (if h (new pfn) \<noteq> h (old pfn)
     then (?st1\<lparr>toi_num_resaved := toi_num_resaved st + 1\<rparr>, ps\<lparr>resave_map := insert pfn (resave_map ps),
       p_results := (if TOI_ABORT_ON_RESAVE_NEEDED \<in> p_actions ps then set_abort_result TOI_RESAVE_NEEDED (p_results ps) else p_results ps)\<rparr>)
     else (?st1, ps))" if "digests lib t (new pfn)" using hash_ready_digests [OF _ that, of cpu ?st1] Cons.prems(1) l s adv old assms(7) by simp
  have ih: "hash_ready lib cpu t (?st1\<lparr>toi_num_resaved := n\<rparr>)" "at_checksum pages (Suc i) (?st1\<lparr>toi_num_resaved := n\<rparr>)"
    "sum_store pages ds (?st1\<lparr>toi_num_resaved := n\<rparr>)" for n
    using Cons.prems(1,3) at_checksum_next [of pages i st] by simp_all
  consider (failed) "\<not> digests lib t (new pfn)" | (same) "digests lib t (new pfn)" "h (new pfn) = h (old pfn)" |
    (diff) "digests lib t (new pfn)" "h (new pfn) \<noteq> h (old pfn)" by blast
  then show ?case
  proof cases
    case failed
    then have "check_loop lib cpu new (pfn # pfns) i (st, ps) = Some (?st1, ps)"
      using s adv dig by (cases "crypto_hash_digest lib t (new pfn)") (simp add: digests_def)
    with failed show ?thesis by (simp add: changed_def resaved_def)
  next
    case same
    have "?st1 = ?st1\<lparr>toi_num_resaved := toi_num_resaved st\<rparr>" by simp
    with Cons.IH [OF ih ds(2) _ Cons.prems(6), of "toi_num_resaved st" ps] Cons.prems(7) i same step show ?thesis by (simp add: changed_def)
  next
    case diff
    from Cons.IH [OF ih ds(2) _ Cons.prems(6), of "toi_num_resaved st + 1" "ps\<lparr>resave_map := insert pfn (resave_map ps),
       p_results := (if TOI_ABORT_ON_RESAVE_NEEDED \<in> p_actions ps then set_abort_result TOI_RESAVE_NEEDED (p_results ps) else p_results ps)\<rparr>"]
      Cons.prems(7) i diff step show ?thesis unfolding resaved_Cons by (auto simp: changed_def)
  qed
qed

section \<open>The checksum pages\<close>

text \<open>The page allocator hands out pages that are not in use.\<close>

definition fresh_pages :: "sum_state \<Rightarrow> page_state \<Rightarrow> bool" where
  "fresh_pages st ps \<longleftrightarrow> (\<forall>n \<ge> sum_n st. \<exists>p. sum_alloc st n = Some p \<and> p \<notin> nosave_map ps \<and> p \<notin> set (page_list st)) \<and>
     (\<forall>a b. sum_alloc st a = sum_alloc st b \<longrightarrow> a = b)"

lemma fresh_pages_step:
  assumes "fresh_pages st ps" and "sum_alloc st (sum_n st) = Some p"
  shows "fresh_pages (st\<lparr>sum_n := Suc (sum_n st), page_list := p # page_list st, pages_allocated := c, sum_mem := m\<rparr>)
    (ps\<lparr>nosave_map := insert p (nosave_map ps)\<rparr>)"
proof -
  have "sum_alloc st n \<noteq> Some p" if "Suc (sum_n st) \<le> n" for n
    using assms that by (metis Suc_n_not_le_n fresh_pages_def)
  then show ?thesis using assms(1) unfolding fresh_pages_def by (auto dest: Suc_leD) (metis Suc_leD option.inject)+
qed

lemma allocate_pages_spec:
  assumes "fresh_pages st ps" and "distinct (page_list st)" and "\<forall>p \<in> set (page_list st). length (sum_mem st p) = 4096"
  shows "\<exists>l st'. allocate_pages_loop k (st, ps) = (True, st', ps\<lparr>nosave_map := set l \<union> nosave_map ps\<rparr>) \<and>
    page_list st' = l @ page_list st \<and> length l = k \<and> distinct (page_list st') \<and> set l \<inter> nosave_map ps = {} \<and>
    (\<forall>p \<in> set (page_list st'). length (sum_mem st' p) = 4096) \<and> pages_allocated st' = pages_allocated st + int k \<and>
    sum_contexts st' = sum_contexts st \<and> sum_enabled st' = sum_enabled st"
  using assms
proof (induction k arbitrary: st ps)
  case 0
  then show ?case by (intro exI [of _ "[]"]) simp
next
  case (Suc k)
  obtain p where p: "sum_alloc st (sum_n st) = Some p" "p \<notin> nosave_map ps" "p \<notin> set (page_list st)"
    using Suc.prems(1) unfolding fresh_pages_def by blast
  let ?st = "st\<lparr>sum_n := Suc (sum_n st), page_list := p # page_list st, pages_allocated := pages_allocated st + 1,
    sum_mem := (sum_mem st)(p := zero_page)\<rparr>"
  let ?ps = "ps\<lparr>nosave_map := insert p (nosave_map ps)\<rparr>"
  have "distinct (page_list ?st)" "\<forall>q \<in> set (page_list ?st). length (sum_mem ?st q) = 4096"
    using Suc.prems(2,3) p(3) by (auto simp: zero_page_def)
  from Suc.IH [OF fresh_pages_step [OF Suc.prems(1) p(1)] this] obtain l st' where
    l: "allocate_pages_loop k (?st, ?ps) = (True, st', ?ps\<lparr>nosave_map := set l \<union> nosave_map ?ps\<rparr>)" "page_list st' = l @ p # page_list st"
    "length l = k" "distinct (page_list st')" "set l \<inter> nosave_map ?ps = {}" "\<forall>p \<in> set (page_list st'). length (sum_mem st' p) = 4096"
    "pages_allocated st' = pages_allocated st + 1 + int k" "sum_contexts st' = sum_contexts st" "sum_enabled st' = sum_enabled st" by auto
  have "allocate_pages_loop (Suc k) (st, ps) = (True, st', ps\<lparr>nosave_map := set (l @ [p]) \<union> nosave_map ps\<rparr>)"
    using p(1) l(1) by simp
  then show ?case using l(2-9) p(2) by (intro exI [of _ "l @ [p]"] exI [of _ st']) auto
qed

lemma free_pages_spec:
  "free_pages_loop (length l) (l @ l') ps = Some (l', ps\<lparr>nosave_map := nosave_map ps - set l\<rparr>)"
proof (induction l arbitrary: ps)
  case (Cons p l)
  have "nosave_map ps - {p} - set l = nosave_map ps - set (p # l)" by auto
  with Cons show ?case by simp
qed simp

section \<open>Properties\<close>

text \<open>
  The pages \<open>check_checksums\<close> gets to, in ascending order: those before the first whose digest fails. When no
  digest fails these are all pages of pageset 2.
\<close>

definition checked :: "hash_lib \<Rightarrow> nat \<Rightarrow> (nat \<Rightarrow> page) \<Rightarrow> nat set \<Rightarrow> nat set" where
  "checked lib t new P = set (takeWhile (\<lambda>p. digests lib t (new p)) (sorted_list_of_set P))"

lemma checked_all: "finite P \<Longrightarrow> \<forall>p \<in> P. digests lib t (new p) \<Longrightarrow> checked lib t new P = P"
  unfolding checked_def by (subst takeWhile_eq_all_conv [THEN iffD2]) simp_all

text \<open>
  C7. The pages of pageset 2 whose digest differs from the one stored when they were written are saved again.
  Checksums are enabled, the processor has a transform and a buffer, the page allocator hands out
  pages that are not in use, pageset 2 has the size recorded and page frame numbers below \<open>2 ^ 31\<close>
  (\<open>check_checksums\<close> keeps them in an \<open>int\<close>), and the digests taken while it was written succeeded. Then
  all checksums have room in the pages \<open>allocate_checksum_pages\<close> obtains, and \<open>check_checksums\<close> marks
  exactly the pages with a different digest among those it gets to, counts them, and aborts the cycle
  when this was asked for; \<open>free_checksum_pages\<close> then returns all checksum pages. It gets to all
  of pageset 2 when no digest fails; at one that fails it stops without an error, and no page from there
  on is marked, whether it changed or not.
\<close>

theorem checksums_find_changes:
  assumes "sum_enabled st" and "page_list st = []" and "pages_allocated st = 0" and "fresh_pages st ps"
    and "hash_ready lib cpu t st" and "finite (ps2_map ps)" and "int (card (ps2_map ps)) = size (pagedir2 ps)"
    and "\<forall>pfn \<in> ps2_map ps. pfn < 2 ^ 31 \<and> digests lib t (old pfn)"
    and "C = {pfn \<in> checked lib t new (ps2_map ps). snd (crypto_hash_digest lib t (new pfn)) \<noteq> snd (crypto_hash_digest lib t (old pfn))}"
  shows "\<exists>st1 ps1 st2 st3 ps3 st4 ps4. allocate_checksum_pages (st, ps) = (0, st1, ps1) \<and>
    store_checksums lib cpu old (sorted_list_of_set (ps2_map ps1)) st1 = Some (0, st2) \<and>
    check_checksums lib cpu new (st2, ps1) = Some (st3, ps3) \<and> toi_num_resaved st3 = int (card C) \<and>
    free_checksum_pages (st3, ps3) = Some (st4, ps4) \<and> page_list st4 = [] \<and>
    ps4 = ps\<lparr>resave_map := C \<union> resave_map ps,
      p_results := (if C \<noteq> {} \<and> TOI_ABORT_ON_RESAVE_NEEDED \<in> p_actions ps then set_abort_result TOI_RESAVE_NEEDED (p_results ps)
                    else p_results ps)\<rparr> \<and>
    ((\<forall>pfn \<in> ps2_map ps. digests lib t (new pfn)) \<longrightarrow> checked lib t new (ps2_map ps) = ps2_map ps)"
proof -
  let ?k = "checksum_pages_needed ps" and ?pfns = "sorted_list_of_set (ps2_map ps)" and ?h = "\<lambda>p. snd (crypto_hash_digest lib t p)"
  obtain l st0 where l: "allocate_pages_loop ?k (st, ps) = (True, st0, ps\<lparr>nosave_map := set l \<union> nosave_map ps\<rparr>)" "page_list st0 = l"
    "length l = ?k" "distinct l" "set l \<inter> nosave_map ps = {}" "\<forall>p \<in> set l. length (sum_mem st0 p) = 4096" "pages_allocated st0 = int ?k"
    "sum_contexts st0 = sum_contexts st" "sum_enabled st0 = sum_enabled st"
    using allocate_pages_spec [OF assms(4), of ?k] assms(2,3) by auto
  let ?st1 = "st0\<lparr>next_page := l, checksum_index := 0\<rparr>" and ?ps1 = "ps\<lparr>nosave_map := set l \<union> nosave_map ps\<rparr>"
  have alloc: "allocate_checksum_pages (st, ps) = (0, ?st1, ?ps1)"
    using l(1,2) assms(1,3) by (simp add: allocate_checksum_pages_def)
  have fit: "length ?pfns \<le> 255 * length l"
  proof -
    have "nat (size (pagedir2 ps)) = card (ps2_map ps)" using arg_cong [OF assms(7), of nat] by simp
    then show ?thesis using DIV_ROUND_UP_ge [of 255 "card (ps2_map ps)"] l(3) by (simp add: checksum_pages_needed_def)
  qed
  have r1: "hash_ready lib cpu t ?st1" using assms(5) l(8,9) by (simp add: hash_ready_def)
  have a1: "at_checksum l (length ([] :: byte list list)) ?st1" "checksum_index ?st1 = length ([] :: byte list list)" "sum_store l [] ?st1"
    using l(2,4,6) by (simp_all add: at_checksum_def sum_store_def)
  obtain st2 where st2: "store_checksums lib cpu old ?pfns ?st1 = Some (0, st2)" "hash_ready lib cpu t st2"
    "pages_allocated st2 = int ?k" "sum_store l (map (\<lambda>pfn. ?h (old pfn)) ?pfns) st2"
    using store_checksums_spec [OF r1 a1(1,2) _ a1(3), of ?pfns old] fit l(7) assms(6,8) by auto
  let ?st2 = "st2\<lparr>next_page := page_list st2, toi_num_resaved := 0, this_checksum := None\<rparr>" and ?cs = "changed ?h old new (takeWhile (\<lambda>p. digests lib t (new p)) ?pfns)"
  have "at_checksum l 0 ?st2" "page_list st2 = l" using st2(4) by (simp_all add: at_checksum_def sum_store_def)
  then obtain st3 where st3: "check_loop lib cpu new ?pfns 0 (?st2, ?ps1) = Some (st3, resaved ?cs ?ps1)"
    "toi_num_resaved st3 = int (length ?cs)" "page_list st3 = l" "pages_allocated st3 = int ?k"
    using check_loop_spec [where lib = lib and cpu = cpu and t = t and st = ?st2 and pages = l and i = 0 and
        ds = "map (\<lambda>pfn. ?h (old pfn)) ?pfns" and h = ?h and old = old and pfns = ?pfns and new = new and ps = ?ps1] st2 fit assms(6,8) by auto
  have cs: "set ?cs = C" "length ?cs = card C" "?cs \<noteq> [] \<longleftrightarrow> C \<noteq> {}"
  proof -
    show c: "set ?cs = C" using assms(9) by (auto simp: changed_def checked_def)
    have "distinct ?cs" by (simp add: changed_def distinct_takeWhile)
    from distinct_card [OF this] c show "length ?cs = card C" by simp
    show "?cs \<noteq> [] \<longleftrightarrow> C \<noteq> {}" using c by auto
  qed
  have check: "check_checksums lib cpu new (st2, ?ps1) = Some (st3, resaved ?cs ?ps1)"
    using st2(2) st3(1) by (simp add: check_checksums_def hash_ready_def)
  have free: "free_checksum_pages (st3, resaved ?cs ?ps1) =
      Some (st3\<lparr>page_list := [], pages_allocated := 0\<rparr>, (resaved ?cs ?ps1)\<lparr>nosave_map := nosave_map (resaved ?cs ?ps1) - set l\<rparr>)"
    using free_pages_spec [of l "[]" "resaved ?cs ?ps1"] st3(3,4) l(3) by (simp add: free_checksum_pages_def)
  have "(set l \<union> nosave_map ps) - set l = nosave_map ps" using l(5) by blast
  then have "(resaved ?cs ?ps1)\<lparr>nosave_map := nosave_map (resaved ?cs ?ps1) - set l\<rparr> = ps\<lparr>resave_map := C \<union> resave_map ps,
      p_results := (if C \<noteq> {} \<and> TOI_ABORT_ON_RESAVE_NEEDED \<in> p_actions ps then set_abort_result TOI_RESAVE_NEEDED (p_results ps)
                    else p_results ps)\<rparr>" using cs by (simp add: resaved_def)
  note ps4 = this
  show ?thesis
  proof (intro exI conjI)
    show "allocate_checksum_pages (st, ps) = (0, ?st1, ?ps1)" by (rule alloc)
    show "store_checksums lib cpu old (sorted_list_of_set (ps2_map ?ps1)) ?st1 = Some (0, st2)" using st2(1) by simp
    show "check_checksums lib cpu new (st2, ?ps1) = Some (st3, resaved ?cs ?ps1)" by (rule check)
    show "toi_num_resaved st3 = int (card C)" using st3(2) cs(2) by simp
    show "free_checksum_pages (st3, resaved ?cs ?ps1) = Some (st3\<lparr>page_list := [], pages_allocated := 0\<rparr>,
        ps\<lparr>resave_map := C \<union> resave_map ps,
          p_results := (if C \<noteq> {} \<and> TOI_ABORT_ON_RESAVE_NEEDED \<in> p_actions ps then set_abort_result TOI_RESAVE_NEEDED (p_results ps)
                        else p_results ps)\<rparr>)" using free by (simp only: ps4)
    show "(\<forall>pfn \<in> ps2_map ps. digests lib t (new pfn)) \<longrightarrow> checked lib t new (ps2_map ps) = ps2_map ps"
      using checked_all [OF assms(6)] by blast
  qed simp_all
qed

text \<open>Three pages of pageset 2.\<close>

definition demo_hash :: hash_lib where
  "demo_hash = \<lparr>crypto_alloc_hash = (\<lambda>name. Some 1), crypto_hash_digest = (\<lambda>t p. (0, take 16 (p @ replicate 16 0)))\<rparr>"

definition demo_sum :: sum_state where
  "demo_sum = \<lparr>toi_checksum_name = [109, 100, 52] @ replicate 29 0, sum_contexts = [\<lparr>hash_transform = Some 1, sum_buf = True\<rparr>],
     pages_allocated = 0, page_list = [], toi_num_resaved = 0, this_checksum = None, next_page = [], checksum_index = 0,
     sum_mem = (\<lambda>_. []), sum_enabled = True, sum_alloc = (\<lambda>n. Some (100 + n)), sum_n = 0\<rparr>"

definition demo_sum_pages :: page_state where
  "demo_sum_pages = demo_pages\<lparr>ps2_map := {3, 5, 7}, pagedir2 := \<lparr>size = 3, size_high = 0\<rparr>\<rparr>"

lemma demo_sum_ready: "hash_ready demo_hash 0 1 demo_sum" "fresh_pages demo_sum demo_sum_pages"
  by (simp_all add: hash_ready_def demo_hash_def demo_sum_def fresh_pages_def demo_sum_pages_def demo_pages_def min_def)

text \<open>A library whose digest of a page that starts with 9 fails: page 7 is not looked at.\<close>

definition failing_hash :: hash_lib where
  "failing_hash = demo_hash\<lparr>crypto_hash_digest := (\<lambda>t p. (if take 1 p = [9] then -5 else 0, take 16 (p @ replicate 16 0)))\<rparr>"

theorem checksums_find_changes_witness:
  "\<exists>st1 ps1 st2 st3 ps3. allocate_checksum_pages (demo_sum, demo_sum_pages) = (0, st1, ps1) \<and>
    store_checksums failing_hash 0 (\<lambda>_. [1]) (sorted_list_of_set (ps2_map ps1)) st1 = Some (0, st2) \<and>
    check_checksums failing_hash 0 (\<lambda>pfn. if pfn = 3 then [2] else if pfn = 5 then [9] else [2]) (st2, ps1) = Some (st3, ps3) \<and>
    toi_num_resaved st3 = 1"
proof -
  let ?new = "\<lambda>pfn :: nat. if pfn = 3 then [2] else if pfn = 5 then [9] else [2] :: byte list"
  have P: "ps2_map demo_sum_pages = {3, 5, 7}" by (simp add: demo_sum_pages_def)
  have "checked failing_hash 1 ?new {3, 5, 7} = {3}" by (simp add: checked_def digests_def failing_hash_def)
  then have C: "{3} = {pfn \<in> checked failing_hash 1 ?new (ps2_map demo_sum_pages).
      snd (crypto_hash_digest failing_hash 1 (?new pfn)) \<noteq> snd (crypto_hash_digest failing_hash 1 [1])}"
    unfolding P by (auto simp: failing_hash_def)
  have s: "sum_enabled demo_sum" "page_list demo_sum = []" "pages_allocated demo_sum = 0" "finite (ps2_map demo_sum_pages)"
    "int (card (ps2_map demo_sum_pages)) = size (pagedir2 demo_sum_pages)"
    "\<forall>pfn \<in> ps2_map demo_sum_pages. pfn < 2 ^ 31 \<and> digests failing_hash 1 [1]"
    by (simp_all add: demo_sum_def demo_sum_pages_def digests_def failing_hash_def)
  have "hash_ready failing_hash 0 1 demo_sum" by (simp add: hash_ready_def failing_hash_def demo_hash_def demo_sum_def min_def)
  from checksums_find_changes [OF s(1-3) demo_sum_ready(2) this s(4-6) C] show ?thesis by auto
qed

end
