(* ===== verification/Spec2Isabelle.thy ===== *)
theory Spec2Isabelle
  imports TOI_Block_Safety TOI_Alloc TOI_Prepare TOI_Swap_Blocks TOI_Compress TOI_Checksum
begin

text \<open>
  A verification of TuxOnIce, the hibernation code of this kernel tree
  (\<open>src/kernel/power/tuxonice_*.c\<close>), with the parts of \<open>snapshot.c\<close> and of
  \<open>src/mm/swapfile.c\<close> it relies on.

  \<^bold>\<open>How the parts work together.\<close> A cycle classifies the pages of the machine into page sets
  (kept in memory bitmaps), allocates memory for the atomic copy and storage for the image, and
  writes the image as three streams: the header, pageset 1 and pageset 2. A page goes through the
  filters of the module registry to the active allocator. The swap allocator takes swap
  entries from the kernel, finds their blocks and keeps them in extent chains; the block I/O
  layer walks over the chains with an iterator, fills pages, and submits them. The signature page
  of the swap area tells the next boot that there is an image.

  \<^bold>\<open>Theories.\<close>
  \<^item> \<open>TOI_Prelude\<close>: types, error codes, bytes of words and shared lemmas.
  \<^item> \<open>TOI_State\<close>: the bits of the action, result and state words (\<open>tuxonice.h\<close>, \<open>suspend.h\<close>).
  \<^item> \<open>TOI_Extent\<close>: \<open>tuxonice_extent.c\<close>, \<open>tuxonice_extent.h\<close>. A chain is the list of its extents with
    the cached fields. Insertion keeps a chain sorted and disjoint and adds the range; the
    cached position is a hint only; the iterator visits each block once and its position can be
    saved and restored. The locales \<open>header_sink\<close> and \<open>header_source\<close> are the interface to
    the stream that a chain is written to.
  \<^item> \<open>TOI_Bitmap_Create\<close>, \<open>TOI_Bitmap\<close>: the memory bitmaps of \<open>snapshot.c\<close>: creation from the zones,
    bit operations with the cached position, iteration, copying, serialisation, nosave regions. The
    locale \<open>pfn_bitmap\<close> is the set interface of a bitmap.
  \<^item> \<open>TOI_Block_IO\<close>, \<open>TOI_Block_Stream\<close>, \<open>TOI_Image_Stream\<close>, \<open>TOI_Block_Safety\<close>:
    \<open>tuxonice_block_io.c\<close>. The state is a record of the static variables and of the disk (sectors
    of every device). Lemmas describe positions on the tape of blocks; what is written to a stream
    is read back by any later state with the same disk, chains and saved positions; writes stay on the
    tape; readahead ends when allocations do not fail forever; a header that reaches the blocks of
    pageset 2 stops there with an error, but not when their numbers are \<open>2 ^ 31\<close> or more.
  \<^item> \<open>TOI_Modules\<close>: \<open>tuxonice_modules.c\<close>: the lists and counters agree, the filter pipeline, the
    results of initialising the modules and the cleanup when one fails, module references.
  \<^item> \<open>TOI_Alloc\<close>: \<open>tuxonice_alloc.c\<close>: the statistics of the allocation wrappers, in a cycle through which they are
    switched on.
  \<^item> \<open>TOI_Pages\<close>, \<open>TOI_Prepare\<close>: \<open>tuxonice_prepare_image.c\<close>: every page that must be saved is in a page
    set, those that must not change in pageset 1; when preparation succeeds, storage and low memory suffice
    (for high memory the figure of the code is too low); it ends after at most two rounds; a failure aborts.
  \<^item> \<open>TOI_Swapfile\<close>: getting and freeing swap entries and mapping them to blocks
    (\<open>src/mm/swapfile.c\<close>); the locale \<open>swap_space\<close> is what the swap allocator relies on.
  \<^item> \<open>TOI_Swap\<close>, \<open>TOI_Swap_Signature\<close>, \<open>TOI_Swap_Storage\<close>, \<open>TOI_Swap_Blocks\<close>: \<open>tuxonice_swap.c\<close>: the operations of the module,
    the life of the signature page and when its removal restores the disk, that swap entries are neither lost nor
    given away, and that the block chains are the blocks of the entries held, both as long as no allocation fails.
  \<^item> \<open>TOI_Compress\<close>: \<open>tuxonice_compress.c\<close>: pages that go through the filter to the block layer come back
    unchanged, with the configuration loaded from the image.
  \<^item> \<open>TOI_Checksum\<close>: \<open>tuxonice_checksum.c\<close>: the pages of pageset 2 whose digest differs from the one taken when
    they were written are marked to be saved again, up to the first page whose digest fails.

  \<^bold>\<open>Conventions.\<close> \<open>unsigned long\<close> is \<^typ>\<open>64 word\<close>; \<open>int\<close> is \<^typ>\<open>int\<close>, narrowed where the code
  narrows; pages have 4096 bytes and the machine is little endian. An operation returns the
  code's return value and the new state; \<^const>\<open>None\<close> is a kernel fault: \<open>BUG\<close>, a null or
  wild pointer, or a wait that never ends. Linked lists are lists, words of flag bits are sets
  of constructors. Whether an allocation succeeds is asked from an oracle that is part of the
  state. A block I/O request completes when it is submitted.

  \<^bold>\<open>Bounds and fuel.\<close> Loops are structural or have termination proofs, except those that can run
  forever in the code (\<open>partial_function\<close>, where not returning is \<^const>\<open>None\<close>): for these it is
  proved when they return. The search of \<open>map_swap_page\<close> has the number of extents as fuel, since
  a second round over the circular list sees the same extents. \<open>MAX_SWAPFILES\<close> is 32, the
  number of types a swap entry can hold.

  \<^bold>\<open>Not modelled.\<close> Concurrency: the worker threads of \<open>tuxonice_io.c\<close>, the flusher thread and
  interrupts; a stream is used by one thread at a time under its mutex. Input and output:
  messages, \<open>sysfs\<close>, \<open>netlink\<close>, the user interface and the cluster code. Services of the kernel:
  the device model, the freezer, memory reclaim, the crypto library, ACPI; they are arguments
  where a definition depends on their result. The image loop of \<open>tuxonice_io.c\<close>, the cycle control of
  \<open>tuxonice_highlevel.c\<close>, the page directory, the file allocator and the atomic copy.
\<close>

end
